(* ===== verification/Prelude.thy ===== *)
theory Prelude
  imports Main "HOL-Library.Word"
begin

text \<open>
  Shared vocabulary of the development: bytes and machine words, the three-way
  outcome of a fallible Rust function (a value, an error of the source, a panic),
  the question-mark operator as \<open>and_then\<close>, big-endian readers, and the list facts
  the components use. Everything here is about the Rust language and its standard
  library; the program itself starts in the component theories.
\<close>

named_theorems outcome_simps
  \<open>rewrite rules for the outcome type and its sequencing\<close>

type_synonym byte = "8 word"
type_synonym u16 = "16 word"
type_synonym u32 = "32 word"
type_synonym u64 = "64 word"

text \<open>A Rust \<open>String\<close> is its UTF-8 bytes; labels and error texts are literals.\<close>

type_synonym rstr = "byte list"
type_synonym label = string

text \<open>\<open>usize\<close> is a natural number; the widths matter where the code converts or
  adds with a check, and there the bound of a 64-bit target is written out.\<close>

definition usize_max :: nat where
  "usize_max = 2 ^ 64 - 1"

section \<open>Outcomes\<close>

datatype ('e, 'a) outcome = Ok 'a | Err 'e | Panic

primrec and_then :: "('e, 'a) outcome \<Rightarrow> ('a \<Rightarrow> ('e, 'b) outcome) \<Rightarrow> ('e, 'b) outcome" where
  "and_then (Ok x) f = f x"
| "and_then (Err e) f = Err e"
| "and_then Panic f = Panic"

primrec map_err :: "('e \<Rightarrow> 'd) \<Rightarrow> ('e, 'a) outcome \<Rightarrow> ('d, 'a) outcome" where
  "map_err g (Ok x) = Ok x"
| "map_err g (Err e) = Err (g e)"
| "map_err g Panic = Panic"

primrec map_ok :: "('a \<Rightarrow> 'b) \<Rightarrow> ('e, 'a) outcome \<Rightarrow> ('e, 'b) outcome" where
  "map_ok g (Ok x) = Ok (g x)"
| "map_ok g (Err e) = Err e"
| "map_ok g Panic = Panic"

primrec ok_or :: "'a option \<Rightarrow> 'e \<Rightarrow> ('e, 'a) outcome" where
  "ok_or None e = Err e"
| "ok_or (Some x) e = Ok x"

text \<open>\<open>Option<Result<T, E>>::transpose\<close>.\<close>

primrec transpose_opt :: "('e, 'a) outcome option \<Rightarrow> ('e, 'a option) outcome" where
  "transpose_opt None = Ok None"
| "transpose_opt (Some r) = map_ok Some r"

text \<open>Collecting an iterator of fallible items: the first error wins.\<close>

primrec collect_ok :: "('a \<Rightarrow> ('e, 'b) outcome) \<Rightarrow> 'a list \<Rightarrow> ('e, 'b list) outcome" where
  "collect_ok f [] = Ok []"
| "collect_ok f (x # xs) =
     and_then (f x) (\<lambda>y. and_then (collect_ok f xs) (\<lambda>ys. Ok (y # ys)))"

lemma and_then_eq_Ok [outcome_simps]:
  "and_then m f = Ok y \<longleftrightarrow> (\<exists>x. m = Ok x \<and> f x = Ok y)"
  by (cases m) auto

lemma and_then_eq_Panic [outcome_simps]:
  "and_then m f = Panic \<longleftrightarrow> m = Panic \<or> (\<exists>x. m = Ok x \<and> f x = Panic)"
  by (cases m) auto

lemma map_err_eq_Ok [outcome_simps]: "map_err g m = Ok y \<longleftrightarrow> m = Ok y"
  by (cases m) auto

lemma map_err_eq_Panic [outcome_simps]: "map_err g m = Panic \<longleftrightarrow> m = Panic"
  by (cases m) auto

lemma map_ok_eq_Ok [outcome_simps]: "map_ok g m = Ok y \<longleftrightarrow> (\<exists>x. m = Ok x \<and> y = g x)"
  by (cases m) auto

lemma map_ok_eq_Panic [outcome_simps]: "map_ok g m = Panic \<longleftrightarrow> m = Panic"
  by (cases m) auto

lemma ok_or_eq_Ok [outcome_simps]: "ok_or opt e = Ok y \<longleftrightarrow> opt = Some y"
  by (cases opt) auto

lemma ok_or_not_Panic [simp]: "ok_or opt e \<noteq> Panic"
  by (cases opt) auto

lemma transpose_opt_eq_Ok [outcome_simps]:
  "transpose_opt r = Ok y \<longleftrightarrow>
     (r = None \<and> y = None) \<or> (\<exists>m x. r = Some m \<and> m = Ok x \<and> y = Some x)"
  by (cases r) (auto simp: map_ok_eq_Ok)

lemma transpose_opt_eq_Panic [outcome_simps]:
  "transpose_opt r = Panic \<longleftrightarrow> r = Some Panic"
  by (cases r) (auto simp: map_ok_eq_Panic)

lemma and_then_cong_left: "m = n \<Longrightarrow> (\<And>x. n = Ok x \<Longrightarrow> f x = g x) \<Longrightarrow> and_then m f = and_then n g"
  by (cases n) auto

lemma collect_ok_no_panic:
  "(\<And>x. x \<in> set xs \<Longrightarrow> f x \<noteq> Panic) \<Longrightarrow> collect_ok f xs \<noteq> Panic"
  by (induction xs) (auto simp: outcome_simps)

lemma collect_ok_length: "collect_ok f xs = Ok ys \<Longrightarrow> length ys = length xs"
  by (induction xs arbitrary: ys) (auto simp: outcome_simps)

lemma collect_ok_cong: "(\<And>x. x \<in> set xs \<Longrightarrow> f x = g x) \<Longrightarrow> collect_ok f xs = collect_ok g xs"
  by (induction xs) simp_all

section \<open>Slices\<close>

text \<open>\<open>&data[s..e]\<close> and \<open>Bytes::slice(s..e)\<close> panic when the bounds are out of order
  or past the end.\<close>

definition slice_bytes :: "'a list \<Rightarrow> nat \<Rightarrow> nat \<Rightarrow> ('e, 'a list) outcome" where
  "slice_bytes xs s e = (if s \<le> e \<and> e \<le> length xs then Ok (take (e - s) (drop s xs)) else Panic)"

definition index_byte :: "'a list \<Rightarrow> nat \<Rightarrow> ('e, 'a) outcome" where
  "index_byte xs i = (if i < length xs then Ok (xs ! i) else Panic)"

text \<open>\<open>slice::get\<close>.\<close>

definition nth_opt :: "'a list \<Rightarrow> nat \<Rightarrow> 'a option" where
  "nth_opt xs i = (if i < length xs then Some (xs ! i) else None)"

lemma nth_opt_Nil [simp]: "nth_opt [] i = None"
  by (simp add: nth_opt_def)

lemma nth_opt_Cons_0 [simp]: "nth_opt (x # xs) 0 = Some x"
  by (simp add: nth_opt_def)

lemma nth_opt_Cons_Suc [simp]: "nth_opt (x # xs) (Suc i) = nth_opt xs i"
  by (simp add: nth_opt_def)

lemma nth_opt_Cons_numeral [simp]: "nth_opt (x # xs) (numeral k) = nth_opt xs (pred_numeral k)"
  by (simp add: numeral_eq_Suc)

lemma nth_opt_in_set: "nth_opt xs i = Some x \<Longrightarrow> x \<in> set xs"
  by (auto simp: nth_opt_def split: if_splits)

lemma slice_bytes_length: "slice_bytes xs s e = Ok ys \<Longrightarrow> length ys = e - s"
  by (auto simp: slice_bytes_def split: if_splits)

text \<open>The elements of a list from one position up to another.\<close>

definition seg :: "'a list \<Rightarrow> nat \<Rightarrow> nat \<Rightarrow> 'a list" where
  "seg xs a b = take (b - a) (drop a xs)"

lemma length_seg [simp]: "b \<le> length xs \<Longrightarrow> length (seg xs a b) = b - a"
  by (simp add: seg_def)

lemma seg_same [simp]: "seg xs a a = []"
  by (simp add: seg_def)

lemma seg_all [simp]: "seg xs 0 (length xs) = xs"
  by (simp add: seg_def)

lemma seg_append: "a \<le> b \<Longrightarrow> b \<le> c \<Longrightarrow> seg xs a b @ seg xs b c = seg xs a c"
proof -
  assume "a \<le> b" "b \<le> c"
  then obtain k l where "b = a + k" "c = a + k + l" by (metis le_Suc_ex)
  then show ?thesis by (simp add: seg_def take_add add.commute)
qed

lemma seg_Cons: "a < length xs \<Longrightarrow> a < b \<Longrightarrow> seg xs a b = xs ! a # seg xs (Suc a) b"
  by (simp add: seg_def Cons_nth_drop_Suc [symmetric] take_Cons' Suc_diff_Suc)

lemma seg_prefix: "seg xs a (a + length ys) = ys \<longleftrightarrow> (\<exists>zs. drop a xs = ys @ zs)"
  by (metis add_diff_cancel_left' append_eq_conv_conj append_take_drop_id seg_def)

lemma seg_infix: "\<exists>us vs. xs = us @ seg xs a b @ vs"
  by (metis append_take_drop_id seg_def)

section \<open>Big-endian integers\<close>

text \<open>\<open>u16::from_be_bytes\<close> and \<open>u32::from_be_bytes\<close>.\<close>

definition u16_from_be_bytes :: "byte \<Rightarrow> byte \<Rightarrow> u16" where
  "u16_from_be_bytes a b = of_nat (unat a * 256 + unat b)"

definition u32_from_be_bytes :: "byte \<Rightarrow> byte \<Rightarrow> byte \<Rightarrow> byte \<Rightarrow> u32" where
  "u32_from_be_bytes a b c d =
     of_nat (((unat a * 256 + unat b) * 256 + unat c) * 256 + unat d)"

text \<open>The bytes of a natural number, most significant first, in a field of \<open>k\<close> bytes.\<close>

primrec be_bytes :: "nat \<Rightarrow> nat \<Rightarrow> byte list" where
  "be_bytes 0 n = []"
| "be_bytes (Suc k) n = be_bytes k (n div 256) @ [of_nat (n mod 256)]"

lemma length_be_bytes [simp]: "length (be_bytes k n) = k"
  by (induction k arbitrary: n) auto

lemma unat_byte_lt [simp]: "unat (b :: byte) < 256"
  using unsigned_less [of b, where ?'a = nat] by simp

lemma unat_of_nat_byte [simp]: "n < 256 \<Longrightarrow> unat (of_nat n :: byte) = n"
  by (simp add: unat_of_nat)

lemma unat_byte_le: "unat (b :: byte) \<le> 255"
  using unat_byte_lt [of b] by linarith

lemma unat_u16_from_be_bytes: "unat (u16_from_be_bytes a b) = unat a * 256 + unat b"
proof -
  have "unat a * 256 + unat b < 65536"
    using unat_byte_le [of a] unat_byte_le [of b] by linarith
  then show ?thesis
    unfolding u16_from_be_bytes_def by (subst unat_of_nat) simp
qed

lemma unat_u32_from_be_bytes:
  "unat (u32_from_be_bytes a b c d) = ((unat a * 256 + unat b) * 256 + unat c) * 256 + unat d"
proof -
  have "((unat a * 256 + unat b) * 256 + unat c) * 256 + unat d < 4294967296"
    using unat_byte_le [of a] unat_byte_le [of b] unat_byte_le [of c] unat_byte_le [of d]
    by simp
  then show ?thesis
    unfolding u32_from_be_bytes_def by (subst unat_of_nat) simp
qed

lemma be_bytes_2: "be_bytes 2 n = [of_nat (n div 256 mod 256), of_nat (n mod 256)]"
  by (simp add: numeral_2_eq_2)

lemma be_bytes_1: "be_bytes 1 n = [of_nat (n mod 256)]"
  by simp

lemma be_bytes_4:
  "be_bytes 4 n = [of_nat (n div 16777216 mod 256), of_nat (n div 65536 mod 256),
     of_nat (n div 256 mod 256), of_nat (n mod 256)]"
proof -
  have k: "(4::nat) = Suc (Suc (Suc (Suc 0)))" by simp
  show ?thesis unfolding k be_bytes.simps by (simp add: div_mult2_eq [symmetric])
qed

declare be_bytes.simps [simp del]

lemma be_bytes_u8: "n < 256 \<Longrightarrow> be_bytes 1 n = [b] \<longleftrightarrow> n = unat b"
  unfolding be_bytes_1 by auto

lemma be_bytes_u16:
  assumes "n < 65536"
  shows "be_bytes 2 n = [a, b] \<longleftrightarrow> n = unat (u16_from_be_bytes a b)"
proof
  assume "be_bytes 2 n = [a, b]"
  then have "unat a = n div 256 mod 256" "unat b = n mod 256" by (auto simp: be_bytes_2)
  with assms show "n = unat (u16_from_be_bytes a b)" by (simp add: unat_u16_from_be_bytes)
next
  assume "n = unat (u16_from_be_bytes a b)"
  then have "n div 256 = unat a" "n mod 256 = unat b" by (simp_all add: unat_u16_from_be_bytes)
  then show "be_bytes 2 n = [a, b]" by (simp add: be_bytes_2)
qed

lemma be_bytes_u32:
  assumes "n < 4294967296"
  shows "be_bytes 4 n = [a, b, c, d] \<longleftrightarrow> n = unat (u32_from_be_bytes a b c d)"
proof
  assume "be_bytes 4 n = [a, b, c, d]"
  then have "unat a = n div 16777216 mod 256" "unat b = n div 65536 mod 256"
    "unat c = n div 256 mod 256" "unat d = n mod 256" by (auto simp: be_bytes_4)
  moreover have "n div 16777216 mod 256 = n div 65536 div 256" using assms by simp
  moreover have "n = n div 256 * 256 + n mod 256" by simp
  moreover have "n div 256 = n div 65536 * 256 + n div 256 mod 256"
    using div_mod_decomp [of "n div 256" 256] by (simp add: div_mult2_eq [symmetric])
  moreover have "n div 65536 = n div 65536 div 256 * 256 + n div 65536 mod 256" by simp
  ultimately show "n = unat (u32_from_be_bytes a b c d)"
    unfolding unat_u32_from_be_bytes by metis
next
  assume n: "n = unat (u32_from_be_bytes a b c d)"
  define x y where "x = unat a * 256 + unat b" and "y = x * 256 + unat c"
  have n': "n = y * 256 + unat d" using n by (simp only: unat_u32_from_be_bytes x_def y_def)
  have y: "n div 256 = y" "n mod 256 = unat d" unfolding n' by simp_all
  have "y div 256 = x" "y mod 256 = unat c" unfolding y_def by simp_all
  moreover have "x div 256 = unat a" "x mod 256 = unat b" unfolding x_def by simp_all
  moreover have "n div 65536 = n div 256 div 256" "n div 16777216 = n div 256 div 256 div 256"
    by (simp_all add: div_mult2_eq [symmetric])
  ultimately show "be_bytes 4 n = [a, b, c, d]" using y by (simp add: be_bytes_4)
qed

end
