(* ===== verification/Wamp_Message.thy ===== *)
theory Wamp_Message
  imports Prelude
begin

text \<open>
  The data model of \<^verbatim>\<open>ct_core/src/wamp.rs\<close>: the serializers, the dynamic values of the
  \<^verbatim>\<open>serde_value\<close> crate the parser reads, the payload, the parse errors and the WAMP
  messages, with the operations on a message that do not parse. A value map is the
  list of its entries in key order, as the ordered map iterates them. Signed integers
  of a value are kept as words and read with \<open>sint\<close>; floats are their bits.
\<close>

section \<open>Data\<close>

datatype serializer = Json | MessagePack | Cbor | Ubjson | Flatbuffers

datatype val =
    VBool bool
  | VU8 byte | VU16 u16 | VU32 u32 | VU64 u64
  | VI8 byte | VI16 u16 | VI32 u32 | VI64 u64
  | VF32 u32 | VF64 u64
  | VChar u32 | VString rstr
  | VUnit
  | VOption "val option"
  | VNewtype val
  | VSeq "val list"
  | VMap "(val \<times> val) list"
  | VBytes "byte list"

type_synonym value_map = "(val \<times> val) list"

record payload =
  args :: "byte list option"
  kwargs :: "byte list option"
  transparent :: "byte list option"

datatype parse_error =
    UnsupportedSerializer serializer
  | Deserialize string
  | ExpectedArray
  | MissingElement label
  | ExpectedIdentifier label
  | ExpectedString label
  | ExpectedMap label
  | ExpectedList label
  | PayloadEncode string

type_synonym 'a parsed = "(parse_error, 'a) outcome"

text \<open>The fields of each constructor are in the order of the source's struct variant.\<close>

datatype wamp_message =
    Hello rstr value_map
  | Welcome u64 value_map
  | Abort value_map rstr payload
  | Challenge rstr value_map
  | Authenticate rstr value_map
  | Goodbye value_map rstr payload
  | Heartbeat value_map "u64 option" "u64 option" "u64 option"
  | Error u64 u64 value_map rstr payload
  | Publish u64 value_map rstr payload
  | Published u64 u64
  | Subscribe u64 value_map rstr
  | Subscribed u64 u64
  | Unsubscribe u64 u64
  | Unsubscribed u64 value_map
  | Event u64 u64 value_map payload
  | Call u64 value_map rstr payload
  | Cancel u64 value_map
  | Result u64 value_map payload
  | Register u64 value_map rstr
  | Registered u64 u64
  | Unregister u64 u64
  | Unregistered u64 value_map
  | Invocation u64 u64 value_map payload
  | Interrupt u64 value_map
  | Yield u64 value_map payload
  | Unknown u64 "val list"

section \<open>Operations on messages\<close>

primrec message_code :: "wamp_message \<Rightarrow> u64" where
  "message_code (Hello realm details) = 1"
| "message_code (Welcome session_id details) = 2"
| "message_code (Abort details reason p) = 3"
| "message_code (Challenge auth_method extra) = 4"
| "message_code (Authenticate signature extra) = 5"
| "message_code (Goodbye details reason p) = 6"
| "message_code (Heartbeat details ping incoming outgoing) = 7"
| "message_code (Error request_type request_id details err p) = 8"
| "message_code (Publish request_id options topic p) = 16"
| "message_code (Published request_id publication_id) = 17"
| "message_code (Subscribe request_id options topic) = 32"
| "message_code (Subscribed request_id subscription_id) = 33"
| "message_code (Unsubscribe request_id subscription_id) = 34"
| "message_code (Unsubscribed request_id details) = 35"
| "message_code (Event subscription_id publication_id details p) = 36"
| "message_code (Call request_id options procedure p) = 48"
| "message_code (Cancel request_id options) = 49"
| "message_code (Result request_id details p) = 50"
| "message_code (Register request_id options procedure) = 64"
| "message_code (Registered request_id registration_id) = 65"
| "message_code (Unregister request_id registration_id) = 66"
| "message_code (Unregistered request_id details) = 67"
| "message_code (Invocation request_id registration_id details p) = 68"
| "message_code (Interrupt request_id options) = 69"
| "message_code (Yield request_id options p) = 70"
| "message_code (Unknown code extras) = code"

primrec replace_message_payload :: "wamp_message \<Rightarrow> payload \<Rightarrow> wamp_message" where
  "replace_message_payload (Hello realm details) q = Hello realm details"
| "replace_message_payload (Welcome session_id details) q = Welcome session_id details"
| "replace_message_payload (Abort details reason p) q = Abort details reason q"
| "replace_message_payload (Challenge auth_method extra) q = Challenge auth_method extra"
| "replace_message_payload (Authenticate signature extra) q = Authenticate signature extra"
| "replace_message_payload (Goodbye details reason p) q = Goodbye details reason q"
| "replace_message_payload (Heartbeat details ping incoming outgoing) q =
     Heartbeat details ping incoming outgoing"
| "replace_message_payload (Error request_type request_id details err p) q =
     Error request_type request_id details err q"
| "replace_message_payload (Publish request_id options topic p) q =
     Publish request_id options topic q"
| "replace_message_payload (Published request_id publication_id) q =
     Published request_id publication_id"
| "replace_message_payload (Subscribe request_id options topic) q =
     Subscribe request_id options topic"
| "replace_message_payload (Subscribed request_id subscription_id) q =
     Subscribed request_id subscription_id"
| "replace_message_payload (Unsubscribe request_id subscription_id) q =
     Unsubscribe request_id subscription_id"
| "replace_message_payload (Unsubscribed request_id details) q = Unsubscribed request_id details"
| "replace_message_payload (Event subscription_id publication_id details p) q =
     Event subscription_id publication_id details q"
| "replace_message_payload (Call request_id options procedure p) q =
     Call request_id options procedure q"
| "replace_message_payload (Cancel request_id options) q = Cancel request_id options"
| "replace_message_payload (Result request_id details p) q = Result request_id details q"
| "replace_message_payload (Register request_id options procedure) q =
     Register request_id options procedure"
| "replace_message_payload (Registered request_id registration_id) q =
     Registered request_id registration_id"
| "replace_message_payload (Unregister request_id registration_id) q =
     Unregister request_id registration_id"
| "replace_message_payload (Unregistered request_id details) q = Unregistered request_id details"
| "replace_message_payload (Invocation request_id registration_id details p) q =
     Invocation request_id registration_id details q"
| "replace_message_payload (Interrupt request_id options) q = Interrupt request_id options"
| "replace_message_payload (Yield request_id options p) q = Yield request_id options q"
| "replace_message_payload (Unknown code extras) q = Unknown code extras"

text \<open>The payload a message carries, if its kind has one.\<close>

primrec message_payload :: "wamp_message \<Rightarrow> payload option" where
  "message_payload (Hello realm details) = None"
| "message_payload (Welcome session_id details) = None"
| "message_payload (Abort details reason p) = Some p"
| "message_payload (Challenge auth_method extra) = None"
| "message_payload (Authenticate signature extra) = None"
| "message_payload (Goodbye details reason p) = Some p"
| "message_payload (Heartbeat details ping incoming outgoing) = None"
| "message_payload (Error request_type request_id details err p) = Some p"
| "message_payload (Publish request_id options topic p) = Some p"
| "message_payload (Published request_id publication_id) = None"
| "message_payload (Subscribe request_id options topic) = None"
| "message_payload (Subscribed request_id subscription_id) = None"
| "message_payload (Unsubscribe request_id subscription_id) = None"
| "message_payload (Unsubscribed request_id details) = None"
| "message_payload (Event subscription_id publication_id details p) = Some p"
| "message_payload (Call request_id options procedure p) = Some p"
| "message_payload (Cancel request_id options) = None"
| "message_payload (Result request_id details p) = Some p"
| "message_payload (Register request_id options procedure) = None"
| "message_payload (Registered request_id registration_id) = None"
| "message_payload (Unregister request_id registration_id) = None"
| "message_payload (Unregistered request_id details) = None"
| "message_payload (Invocation request_id registration_id details p) = Some p"
| "message_payload (Interrupt request_id options) = None"
| "message_payload (Yield request_id options p) = Some p"
| "message_payload (Unknown code extras) = None"

lemma message_code_replace [simp]: "message_code (replace_message_payload m q) = message_code m"
  by (cases m) auto

lemma message_payload_replace [simp]:
  "message_payload (replace_message_payload m q) = map_option (\<lambda>_. q) (message_payload m)"
  by (cases m) auto

lemma replace_replace [simp]:
  "replace_message_payload (replace_message_payload m q) r = replace_message_payload m r"
  by (cases m) auto

section \<open>The serialization libraries\<close>

text \<open>
  The crates \<^verbatim>\<open>serde_json\<close>, \<^verbatim>\<open>rmp_serde\<close>, \<^verbatim>\<open>serde_cbor\<close> and \<^verbatim>\<open>serde_value\<close> are not part
  of the repository: each call the parser makes is a field of this record, a
  parameter of every definition that uses it. A call returns \<open>Inl\<close> with the error
  text or \<open>Inr\<close> with the result. A borrowed \<^verbatim>\<open>RawValue\<close> is its position and length in
  the payload.
\<close>

record serde =
  json_fields_de :: "byte list \<Rightarrow> string + (nat \<times> nat) list"
  json_end :: "byte list \<Rightarrow> string + unit"
  json_string_de :: "byte list \<Rightarrow> string + rstr"
  json_u64_de :: "byte list \<Rightarrow> string + u64"
  json_value_de :: "byte list \<Rightarrow> string + val"
  json_doc_de :: "byte list \<Rightarrow> string + val"
  json_to_vec :: "val \<Rightarrow> string + byte list"
  rmp_string_de :: "byte list \<Rightarrow> string + rstr"
  rmp_u64_de :: "byte list \<Rightarrow> string + u64"
  rmp_value_de :: "byte list \<Rightarrow> string + val"
  rmp_to_vec :: "val \<Rightarrow> string + byte list"
  cbor_value_de :: "byte list \<Rightarrow> string + val"
  cbor_ignored_de :: "byte list \<Rightarrow> string + nat"
  cbor_stream_de :: "byte list \<Rightarrow> string + val"
  cbor_stream_end :: "byte list \<Rightarrow> string + unit"
  cbor_to_vec :: "val \<Rightarrow> string + byte list"

text \<open>\<open>result.map_err(f)\<close> on a library call.\<close>

primrec lib_result :: "('d \<Rightarrow> 'e) \<Rightarrow> 'd + 'a \<Rightarrow> ('e, 'a) outcome" where
  "lib_result f (Inl d) = Err (f d)"
| "lib_result f (Inr x) = Ok x"

lemma lib_result_not_Panic [simp]: "lib_result f r \<noteq> Panic"
  by (cases r) auto

lemma lib_result_eq_Ok [outcome_simps]: "lib_result f r = Ok y \<longleftrightarrow> r = Inr y"
  by (cases r) auto

section \<open>A small library\<close>

text \<open>
  A concrete library that knows small unsigned integers, short strings and empty maps
  and lists, for the concrete inputs at which the theorems are applied. No general
  theorem depends on it.
\<close>

definition small_text :: "nat \<Rightarrow> nat \<Rightarrow> byte list \<Rightarrow> rstr option" where
  "small_text lo hi bs =
     (case bs of [] \<Rightarrow> None
      | b # xs \<Rightarrow> if lo \<le> unat b \<and> unat b \<le> hi \<and> length xs = unat b - lo then Some xs else None)"

definition small_value :: "nat \<Rightarrow> byte \<Rightarrow> byte \<Rightarrow> nat \<Rightarrow> nat \<Rightarrow> byte list \<Rightarrow> string + val" where
  "small_value fix empty_map empty_list lo hi bs =
     (if bs = [empty_map] then Inr (VMap []) else if bs = [empty_list] then Inr (VSeq [])
      else case small_text lo hi bs of
        Some xs \<Rightarrow> Inr (VString xs)
      | None \<Rightarrow> (case bs of [b] \<Rightarrow> if unat b \<le> fix then Inr (VU64 (ucast b)) else Inl ''unsupported''
               | _ \<Rightarrow> Inl ''unsupported''))"

definition small_empty :: "byte list \<Rightarrow> byte list \<Rightarrow> val \<Rightarrow> string + byte list" where
  "small_empty empty_map empty_list v =
     (if v = VMap [] then Inr empty_map else if v = VSeq [] then Inr empty_list else Inl ''unsupported'')"

definition small_json :: "byte list \<Rightarrow> string + val" where
  "small_json bs =
     (if bs = [0x7b, 0x7d] then Inr (VMap []) else if bs = [0x5b, 0x5d] then Inr (VSeq [])
      else case bs of
        [b] \<Rightarrow> if 48 \<le> unat b \<and> unat b \<le> 57 then Inr (VU64 (ucast b - 48)) else Inl ''unsupported''
      | [q, c, q'] \<Rightarrow> if q = 0x22 \<and> q' = 0x22 then Inr (VString [c]) else Inl ''unsupported''
      | _ \<Rightarrow> Inl ''unsupported'')"

text \<open>The elements of a JSON array of one-byte numbers, empty maps and lists and
  one-letter strings.\<close>

fun small_json_elements :: "nat \<Rightarrow> byte list \<Rightarrow> (nat \<times> nat) list" where
  "small_json_elements i (a # b # c # bs) =
     (if a = 0x22 \<and> c = 0x22 then (i, 3) # small_json_elements (i + 3) bs
      else if (a = 0x7b \<and> b = 0x7d) \<or> (a = 0x5b \<and> b = 0x5d) then (i, 2) # small_json_elements (i + 2) (c # bs)
      else if 48 \<le> unat a \<and> unat a \<le> 57 then (i, 1) # small_json_elements (i + 1) (b # c # bs)
      else small_json_elements (i + 1) (b # c # bs))"
| "small_json_elements i [a, b] =
     (if 48 \<le> unat a \<and> unat a \<le> 57 then (i, 1) # small_json_elements (i + 1) [b]
      else small_json_elements (i + 1) [b])"
| "small_json_elements i [a] = []"
| "small_json_elements i [] = []"

definition as_u64 :: "string + val \<Rightarrow> string + u64" where
  "as_u64 r = (case r of Inr (VU64 n) \<Rightarrow> Inr n | _ \<Rightarrow> Inl ''not an integer'')"

definition as_text :: "string + val \<Rightarrow> string + rstr" where
  "as_text r = (case r of Inr (VString t) \<Rightarrow> Inr t | _ \<Rightarrow> Inl ''not a string'')"

definition small_serde :: serde where
  "small_serde =
     \<lparr>json_fields_de = (\<lambda>bs. case bs of [] \<Rightarrow> Inl ''empty''
        | b # xs \<Rightarrow> if b = 0x5b then Inr (small_json_elements 1 xs) else Inl ''not a list''),
      json_end = (\<lambda>_. Inr ()),
      json_string_de = (\<lambda>bs. as_text (small_json bs)),
      json_u64_de = (\<lambda>bs. as_u64 (small_json bs)),
      json_value_de = small_json,
      json_doc_de = small_json,
      json_to_vec = small_empty [0x7b, 0x7d] [0x5b, 0x5d],
      rmp_string_de = (\<lambda>bs. as_text (small_value 127 0x80 0x90 0xa0 0xbf bs)),
      rmp_u64_de = (\<lambda>bs. as_u64 (small_value 127 0x80 0x90 0xa0 0xbf bs)),
      rmp_value_de = small_value 127 0x80 0x90 0xa0 0xbf,
      rmp_to_vec = small_empty [0x80] [0x90],
      cbor_value_de = small_value 23 0xa0 0x80 0x60 0x77,
      cbor_ignored_de = (\<lambda>bs. case bs of [] \<Rightarrow> Inl ''empty''
        | b # xs \<Rightarrow> if 0x60 \<le> unat b \<and> unat b \<le> 0x77 then Inr (unat b - 0x5f) else Inr 1),
      cbor_stream_de = small_value 23 0xa0 0x80 0x60 0x77,
      cbor_stream_end = (\<lambda>_. Inr ()),
      cbor_to_vec = small_empty [0xa0] [0x80]\<rparr>"

end
