(* ===== verification/Raw_Frame.thy ===== *)
theory Raw_Frame
  imports Wamp_Message
begin

text \<open>
  \<^verbatim>\<open>RawFrame\<close> of \<^verbatim>\<open>ct_core/src/wamp.rs\<close>: a received frame, either one buffer or a list of
  segments with their total length, with the random access the parsers use and the
  sequential \<^verbatim>\<open>SegmentedFrameReader\<close>. The interface the parsers rely on is the locale
  \<open>frame_access\<close>, interpreted on the model at the end.
\<close>

section \<open>Frames\<close>

datatype raw_frame = Contiguous "byte list" | Segmented "byte list list" nat

definition from_segments :: "byte list list \<Rightarrow> raw_frame" where
  "from_segments segments = Segmented segments (sum_list (map length segments))"

primrec raw_len :: "raw_frame \<Rightarrow> nat" where
  "raw_len (Contiguous bytes) = length bytes"
| "raw_len (Segmented segments len) = len"

primrec as_contiguous :: "raw_frame \<Rightarrow> byte list option" where
  "as_contiguous (Contiguous bytes) = Some bytes"
| "as_contiguous (Segmented segments len) = None"

primrec extend_all :: "byte list \<Rightarrow> byte list list \<Rightarrow> byte list" where
  "extend_all flattened [] = flattened"
| "extend_all flattened (segment # segments) = extend_all (flattened @ segment) segments"

primrec into_bytes :: "raw_frame \<Rightarrow> byte list" where
  "into_bytes (Contiguous bytes) = bytes"
| "into_bytes (Segmented segments len) = extend_all [] segments"

abbreviation eom :: parse_error where
  "eom \<equiv> Deserialize ''unexpected end of message data''"

primrec read_segments :: "byte list list \<Rightarrow> nat \<Rightarrow> byte parsed" where
  "read_segments [] offset = Err eom"
| "read_segments (segment # segments) offset =
     (if offset < length segment then Ok (segment ! offset)
      else read_segments segments (offset - length segment))"

definition read_byte :: "raw_frame \<Rightarrow> nat \<Rightarrow> byte parsed" where
  "read_byte frame index =
     (if index \<ge> raw_len frame then Err eom
      else case frame of
        Contiguous bytes \<Rightarrow> Ok (bytes ! index)
      | Segmented segments len \<Rightarrow> read_segments segments index)"

text \<open>The first loop of \<^verbatim>\<open>slice_or_copy\<close> looks for one segment that holds the whole
  range; a range whose end lies before the segment makes the subtraction fail.\<close>

fun slice_containing :: "byte list list \<Rightarrow> nat \<Rightarrow> nat \<Rightarrow> nat \<Rightarrow> byte list parsed option" where
  "slice_containing [] absolute s e = None"
| "slice_containing (segment # segments) absolute s e =
     (let segment_end = absolute + length segment in
      if s \<ge> absolute \<and> e \<le> segment_end
      then Some (if e < absolute then Panic else slice_bytes segment (s - absolute) (e - absolute))
      else slice_containing segments segment_end s e)"

text \<open>The second loop copies the part of the range each segment holds.\<close>

fun copy_range :: "byte list list \<Rightarrow> nat \<Rightarrow> nat \<Rightarrow> nat \<Rightarrow> byte list \<Rightarrow> byte list parsed" where
  "copy_range [] absolute s e copied = Ok copied"
| "copy_range (segment # segments) absolute s e copied =
     (let segment_end = absolute + length segment;
          start = max s absolute;
          stop = min e segment_end in
      and_then (if start < stop
                then map_ok (\<lambda>part. copied @ part)
                       (slice_bytes segment (start - absolute) (stop - absolute))
                else Ok copied)
        (\<lambda>copied'. if stop = e then Ok copied'
                   else copy_range segments segment_end s e copied'))"

type_synonym byte_range = "nat \<times> nat"

definition slice_or_copy :: "raw_frame \<Rightarrow> byte_range \<Rightarrow> byte list parsed" where
  "slice_or_copy frame rng =
     (case rng of (s, e) \<Rightarrow>
        if e > raw_len frame then Err (Deserialize ''payload range exceeds message bounds'')
        else case frame of
          Contiguous bytes \<Rightarrow> slice_bytes bytes s e
        | Segmented segments len \<Rightarrow>
            (case slice_containing segments 0 s e of
               Some r \<Rightarrow> r
             | None \<Rightarrow> copy_range segments 0 s e []))"

section \<open>The sequential reader over segments\<close>

record segmented_reader =
  rd_segments :: "byte list list"
  segment_index :: nat
  segment_offset :: nat

definition new_reader :: "byte list list \<Rightarrow> segmented_reader" where
  "new_reader segs = \<lparr>rd_segments = segs, segment_index = 0, segment_offset = 0\<rparr>"

definition advance :: "segmented_reader \<Rightarrow> nat \<Rightarrow> nat \<Rightarrow> segmented_reader" where
  "advance r segment_len count =
     (let r1 = r\<lparr>segment_offset := segment_offset r + count\<rparr> in
      if segment_offset r1 \<ge> segment_len
      then r1\<lparr>segment_index := Suc (segment_index r1), segment_offset := 0\<rparr>
      else r1)"

text \<open>
  The body of \<^verbatim>\<open>read\<close> for a buffer of \<open>room\<close> free bytes: what was written so far
  and the reader afterwards. The slice of the current segment panics when the offset
  is past its end, which the code's own bookkeeping excludes.
\<close>

function read_loop :: "segmented_reader \<Rightarrow> nat \<Rightarrow> byte list \<Rightarrow> (string, byte list \<times> segmented_reader) outcome" where
  "read_loop r buf_len written =
     (if length written < buf_len \<and> segment_index r < length (rd_segments r) then
        let segment = rd_segments r ! segment_index r in
        if segment_offset r > length segment then Panic else
        let remaining = drop (segment_offset r) segment in
        if remaining = [] then
          read_loop (r\<lparr>segment_index := Suc (segment_index r), segment_offset := 0\<rparr>) buf_len written
        else
          let count = min (length remaining) (buf_len - length written) in
          read_loop (advance r (length segment) count) buf_len (written @ take count remaining)
      else Ok (written, r))"
  by pat_completeness auto
termination
  by (relation "measures [\<lambda>(r, n, w). n - length w, \<lambda>(r, n, w). length (rd_segments r) - segment_index r]")
     (auto simp: min_def Let_def advance_def)

declare read_loop.simps [simp del]

definition read_reader :: "segmented_reader \<Rightarrow> nat \<Rightarrow> (string, byte list \<times> segmented_reader) outcome" where
  "read_reader r buf_len = (if buf_len = 0 then Ok ([], r) else read_loop r buf_len [])"

text \<open>What the reader has still to deliver.\<close>

definition reader_rest :: "segmented_reader \<Rightarrow> byte list" where
  "reader_rest r = drop (segment_offset r) (concat (drop (segment_index r) (rd_segments r)))"

definition reader_ok :: "segmented_reader \<Rightarrow> bool" where
  "reader_ok r = (segment_offset r = 0 \<or>
     segment_index r < length (rd_segments r) \<and> segment_offset r \<le> length (rd_segments r ! segment_index r))"

text \<open>A consumer that reads with buffers of \<open>n\<close> bytes until a read returns nothing, as
  a deserializer over the reader does.\<close>

function drain :: "segmented_reader \<Rightarrow> nat \<Rightarrow> byte list" where
  "drain r n =
     (case read_reader r n of
        Ok (chunk, r') \<Rightarrow>
          if chunk = [] \<or> length (reader_rest r') \<ge> length (reader_rest r) then chunk
          else chunk @ drain r' n
      | _ \<Rightarrow> [])"
  by pat_completeness auto
termination
  by (relation "measure (\<lambda>(r, n). length (reader_rest r))") auto

declare drain.simps [simp del]

text \<open>The length field of a segmented frame is the sum of its segments; every frame
  the program builds satisfies this.\<close>

primrec frame_wf :: "raw_frame \<Rightarrow> bool" where
  "frame_wf (Contiguous bytes) = True"
| "frame_wf (Segmented segments len) = (len = sum_list (map length segments))"

definition range_wf :: "raw_frame \<Rightarrow> byte_range \<Rightarrow> bool" where
  "range_wf frame rng = (fst rng \<le> snd rng \<and> snd rng \<le> raw_len frame)"

section \<open>Every view of a frame is a view of its bytes\<close>

lemma extend_all_concat: "extend_all acc segments = acc @ concat segments"
  by (induction segments arbitrary: acc) auto

lemma into_bytes_segmented [simp]: "into_bytes (Segmented segments len) = concat segments"
  by (simp add: extend_all_concat)

declare into_bytes.simps(2) [simp del]

lemma frame_wf_from_segments [simp]: "frame_wf (from_segments segments)"
  by (simp add: from_segments_def)

lemma into_bytes_from_segments [simp]: "into_bytes (from_segments segments) = concat segments"
  by (simp add: from_segments_def)

lemma raw_len_into_bytes: "frame_wf frame \<Longrightarrow> raw_len frame = length (into_bytes frame)"
  by (cases frame) (auto simp: length_concat)

lemma read_segments_concat:
  "i < length (concat segments) \<Longrightarrow> read_segments segments i = Ok (concat segments ! i)"
  by (induction segments arbitrary: i) (auto simp: nth_append)

lemma read_byte_view:
  assumes "frame_wf frame"
  shows "read_byte frame i = (if i < length (into_bytes frame) then Ok (into_bytes frame ! i) else Err eom)"
  using raw_len_into_bytes [OF assms]
  by (cases frame) (auto simp: read_byte_def read_segments_concat)

lemma slice_containing_before:
  "s < absolute \<Longrightarrow> slice_containing segments absolute s e = None"
  by (induction segments absolute s e rule: slice_containing.induct) (auto simp: Let_def)

lemma slice_containing_view:
  assumes "slice_containing segments absolute s e = Some r" and "absolute \<le> s" and "s \<le> e"
  shows "r = Ok (take (e - s) (drop (s - absolute) (concat segments)))"
  using assms
proof (induction segments absolute s e rule: slice_containing.induct)
  case (1 absolute s e)
  then show ?case by simp
next
  case (2 segment segments absolute s e)
  let ?stop = "absolute + length segment"
  show ?case
  proof (cases "e \<le> ?stop")
    case True
    with 2 show ?thesis
      by (auto simp: Let_def slice_bytes_def split: if_splits)
  next
    case False
    with 2 have rest: "slice_containing segments ?stop s e = Some r"
      by (simp add: Let_def)
    then have "?stop \<le> s"
      by (metis not_le_imp_less option.distinct(1) slice_containing_before)
    with 2 False rest show ?thesis by (simp add: Let_def)
  qed
qed

lemma copy_range_view:
  assumes "s \<le> e" and "absolute \<le> e" and "e \<le> absolute + length (concat segments)"
  shows "copy_range segments absolute s e copied =
    Ok (copied @ take (e - max s absolute) (drop (max s absolute - absolute) (concat segments)))"
  using assms
proof (induction segments arbitrary: absolute copied)
  case Nil
  then show ?case by simp
next
  case (Cons segment segments)
  let ?stop = "absolute + length segment"
  let ?start = "max s absolute"
  have part: "(if ?start < min e ?stop
       then map_ok (\<lambda>part. copied @ part)
              (slice_bytes segment (?start - absolute) (min e ?stop - absolute))
       else Ok copied)
     = Ok (copied @ take (min e ?stop - ?start) (drop (?start - absolute) segment))"
    by (auto simp: slice_bytes_def min_def max_def)
  have step: "copy_range (segment # segments) absolute s e copied =
     (let copied' = copied @ take (min e ?stop - ?start) (drop (?start - absolute) segment) in
      if min e ?stop = e then Ok copied' else copy_range segments ?stop s e copied')"
    by (simp only: copy_range.simps Let_def part and_then.simps)
  show ?case
  proof (cases "e \<le> ?stop")
    case True
    with Cons.prems show ?thesis
      by (auto simp: step min_def max_def simp del: copy_range.simps)
  next
    case False
    have IH: "copy_range segments ?stop s e copied' =
       Ok (copied' @ take (e - max s ?stop) (drop (max s ?stop - ?stop) (concat segments)))" for copied'
      using Cons.IH [of ?stop copied'] Cons.prems False by simp
    have "take (min e ?stop - ?start) (drop (?start - absolute) segment) @
        take (e - max s ?stop) (drop (max s ?stop - ?stop) (concat segments)) =
        take (e - ?start) (drop (?start - absolute) (segment @ concat segments))"
      using False by (auto simp: max_def min_def add.commute)
    with False show ?thesis by (simp add: step IH del: copy_range.simps)
  qed
qed

lemma slice_or_copy_view:
  assumes "frame_wf frame" and "range_wf frame (s, e)"
  shows "slice_or_copy frame (s, e) = Ok (take (e - s) (drop s (into_bytes frame)))"
proof (cases frame)
  case (Contiguous bytes)
  with assms show ?thesis by (simp add: slice_or_copy_def range_wf_def slice_bytes_def)
next
  case (Segmented segments len)
  with assms have e: "s \<le> e" "e \<le> length (concat segments)"
    by (auto simp: range_wf_def length_concat)
  with Segmented assms show ?thesis
    using slice_containing_view [of segments 0 s e] copy_range_view [of s e 0 segments "[]"]
    by (auto simp: slice_or_copy_def range_wf_def split: option.splits)
qed

section \<open>The sequential reader delivers the concatenation\<close>

lemma reader_rest_unfold:
  assumes "segment_index r < length (rd_segments r)"
  shows "reader_rest r = drop (segment_offset r)
    (rd_segments r ! segment_index r @ concat (drop (Suc (segment_index r)) (rd_segments r)))"
  by (simp add: reader_rest_def assms Cons_nth_drop_Suc [symmetric])

lemma reader_rest_done: "\<not> segment_index r < length (rd_segments r) \<Longrightarrow> reader_rest r = []"
  by (simp add: reader_rest_def)

lemma reader_rest_next:
  assumes "segment_index r < length (rd_segments r)"
  shows "reader_rest (r\<lparr>segment_index := Suc (segment_index r), segment_offset := 0\<rparr>) =
    drop (length (rd_segments r ! segment_index r))
      (rd_segments r ! segment_index r @ concat (drop (Suc (segment_index r)) (rd_segments r)))"
  by (simp add: reader_rest_def)

lemma read_loop_spec:
  assumes "reader_ok r"
  shows "\<exists>r'. read_loop r n written =
      Ok (written @ take (n - length written) (reader_rest r), r')
    \<and> reader_ok r' \<and> reader_rest r' = drop (n - length written) (reader_rest r)"
  using assms
proof (induction r n written rule: read_loop.induct)
  case (1 r n written)
  let ?seg = "rd_segments r ! segment_index r"
  let ?next = "r\<lparr>segment_index := Suc (segment_index r), segment_offset := 0\<rparr>"
  have le: "segment_index r < length (rd_segments r) \<Longrightarrow> segment_offset r \<le> length ?seg"
    using "1.prems" by (auto simp: reader_ok_def)
  consider (stop) "\<not> (length written < n \<and> segment_index r < length (rd_segments r))"
    | (skip) "length written < n" "segment_index r < length (rd_segments r)" "segment_offset r = length ?seg"
    | (copy) "length written < n" "segment_index r < length (rd_segments r)" "segment_offset r < length ?seg"
    using le le_neq_implies_less by blast
  then show ?case
  proof cases
    case stop
    then show ?thesis
      using "1.prems" by (auto simp: read_loop.simps [of r n written] reader_rest_done)
  next
    case skip
    have "reader_ok ?next" by (simp add: reader_ok_def)
    then show ?thesis
      using "1.IH"(1) [OF _ refl _ refl] skip
      by (simp add: read_loop.simps [of r n written] reader_rest_next reader_rest_unfold)
  next
    case copy
    define k where "k = min (length ?seg - segment_offset r) (n - length written)"
    define r2 where "r2 = advance r (length ?seg) k"
    have k: "0 < k" "segment_offset r + k \<le> length ?seg" "k \<le> n - length written"
      using copy by (auto simp: k_def)
    have ok2: "reader_ok r2"
      using copy k by (auto simp: r2_def advance_def reader_ok_def Let_def)
    have rest2: "reader_rest r2 = drop k (reader_rest r)"
    proof (cases "segment_offset r + k = length ?seg")
      case True
      then have "reader_rest r2 = concat (drop (Suc (segment_index r)) (rd_segments r))"
        by (simp add: r2_def advance_def reader_rest_def Let_def)
      with True copy show ?thesis by (simp add: reader_rest_unfold add.commute)
    next
      case False
      with k have "r2 = r\<lparr>segment_offset := segment_offset r + k\<rparr>"
        by (simp add: r2_def advance_def Let_def)
      then have "reader_rest r2 = drop (segment_offset r + k)
          (?seg @ concat (drop (Suc (segment_index r)) (rd_segments r)))"
        using copy reader_rest_unfold [of r2] by simp
      with copy show ?thesis by (simp add: reader_rest_unfold add.commute del: drop_append)
    qed
    have head: "take k (drop (segment_offset r) ?seg) = take k (reader_rest r)"
      using copy k by (simp add: reader_rest_unfold)
    have step: "read_loop r n written = read_loop r2 n (written @ take k (reader_rest r))"
      using copy by (simp add: read_loop.simps [of r n written] r2_def k_def Let_def head [unfolded k_def, simplified])
    have len: "length (take k (reader_rest r)) = k"
      unfolding head [symmetric] using copy k by simp
    have IH: "\<exists>r'. read_loop r2 n (written @ take k (reader_rest r)) =
        Ok ((written @ take k (reader_rest r)) @ take (n - length (written @ take k (reader_rest r))) (reader_rest r2), r')
      \<and> reader_ok r' \<and> reader_rest r' = drop (n - length (written @ take k (reader_rest r))) (reader_rest r2)"
      using "1.IH"(2) [OF _ refl _ refl _ refl] copy ok2
      by (simp add: r2_def k_def head [unfolded k_def, simplified])
    obtain m where m: "n - length written = k + m" using k(3) le_Suc_ex by blast
    then have m': "n - length (written @ take k (reader_rest r)) = m"
      using len by (simp del: length_take)
    show ?thesis
      using IH unfolding step rest2 m m' by (auto simp: take_add add.commute)
  qed
qed

lemma read_reader_spec:
  assumes "reader_ok r"
  shows "\<exists>r'. read_reader r n = Ok (take n (reader_rest r), r')
    \<and> reader_ok r' \<and> reader_rest r' = drop n (reader_rest r)"
  using read_loop_spec [OF assms, of n "[]"] assms by (auto simp: read_reader_def)

lemma reader_ok_new [simp]: "reader_ok (new_reader segs)"
  by (simp add: reader_ok_def new_reader_def)

lemma reader_rest_new [simp]: "reader_rest (new_reader segs) = concat segs"
  by (simp add: reader_rest_def new_reader_def)

lemma drain_rest: "reader_ok r \<Longrightarrow> 0 < n \<Longrightarrow> drain r n = reader_rest r"
proof (induction r n rule: drain.induct)
  case (1 r n)
  obtain r' where r': "read_reader r n = Ok (take n (reader_rest r), r')" "reader_ok r'"
    "reader_rest r' = drop n (reader_rest r)"
    using read_reader_spec [OF "1.prems"(1)] by blast
  show ?case
  proof (cases "reader_rest r = []")
    case True
    with r' show ?thesis by (simp add: drain.simps [of r n])
  next
    case False
    with "1.prems" have "\<not> length (reader_rest r) \<le> length (reader_rest r) - n"
      by (cases "reader_rest r") auto
    then have "drain r' n = reader_rest r'"
      using "1.IH" [OF r'(1) refl] False r' "1.prems" by auto
    with r' False "1.prems" show ?thesis by (auto simp: drain.simps [of r n])
  qed
qed

section \<open>The interface of a frame\<close>

text \<open>
  What the parsers rely on: a frame has bytes, a length, random access that fails
  past the end, and sub-ranges. Parsers built from these cannot tell two frames with
  the same bytes apart.
\<close>

locale frame_access =
  fixes wf :: "'f \<Rightarrow> bool"
    and bytes_of :: "'f \<Rightarrow> byte list"
    and len :: "'f \<Rightarrow> nat"
    and read :: "'f \<Rightarrow> nat \<Rightarrow> byte parsed"
    and slice :: "'f \<Rightarrow> byte_range \<Rightarrow> byte list parsed"
  assumes len_bytes: "wf f \<Longrightarrow> len f = length (bytes_of f)"
    and read_in: "wf f \<Longrightarrow> i < length (bytes_of f) \<Longrightarrow> read f i = Ok (bytes_of f ! i)"
    and read_out: "wf f \<Longrightarrow> length (bytes_of f) \<le> i \<Longrightarrow> read f i = Err eom"
    and slice_in: "wf f \<Longrightarrow> s \<le> e \<Longrightarrow> e \<le> length (bytes_of f) \<Longrightarrow>
       slice f (s, e) = Ok (take (e - s) (drop s (bytes_of f)))"
    and slice_out: "wf f \<Longrightarrow> length (bytes_of f) < e \<Longrightarrow>
       slice f (s, e) = Err (Deserialize ''payload range exceeds message bounds'')"
begin

lemma len_cong: "wf f \<Longrightarrow> wf g \<Longrightarrow> bytes_of f = bytes_of g \<Longrightarrow> len f = len g"
  by (simp add: len_bytes)

lemma read_cong: "wf f \<Longrightarrow> wf g \<Longrightarrow> bytes_of f = bytes_of g \<Longrightarrow> read f i = read g i"
  by (cases "i < length (bytes_of g)") (auto simp: read_in read_out)

lemma slice_cong:
  assumes "wf f" "wf g" "bytes_of f = bytes_of g" "s \<le> e"
  shows "slice f (s, e) = slice g (s, e)"
  using assms by (cases "e \<le> length (bytes_of g)") (auto simp: slice_in slice_out)

lemma read_no_panic: "wf f \<Longrightarrow> read f i \<noteq> Panic"
  by (cases "i < length (bytes_of f)") (auto simp: read_in read_out)

lemma slice_no_panic: "wf f \<Longrightarrow> s \<le> e \<Longrightarrow> slice f (s, e) \<noteq> Panic"
  by (cases "e \<le> length (bytes_of f)") (auto simp: slice_in slice_out)

lemma read_Ok: "wf f \<Longrightarrow> read f i = Ok b \<Longrightarrow> i < len f \<and> b = bytes_of f ! i"
  by (cases "i < length (bytes_of f)") (auto simp: read_in read_out len_bytes)

end

interpretation raw: frame_access frame_wf into_bytes raw_len read_byte slice_or_copy
proof
  fix f s e i
  assume wf: "frame_wf f"
  then show "raw_len f = length (into_bytes f)" by (rule raw_len_into_bytes)
  show "i < length (into_bytes f) \<Longrightarrow> read_byte f i = Ok (into_bytes f ! i)"
    using wf by (simp add: read_byte_view)
  show "length (into_bytes f) \<le> i \<Longrightarrow> read_byte f i = Err eom"
    using wf by (simp add: read_byte_view)
  show "s \<le> e \<Longrightarrow> e \<le> length (into_bytes f) \<Longrightarrow>
      slice_or_copy f (s, e) = Ok (take (e - s) (drop s (into_bytes f)))"
    using wf by (intro slice_or_copy_view) (auto simp: range_wf_def raw_len_into_bytes)
  show "length (into_bytes f) < e \<Longrightarrow>
      slice_or_copy f (s, e) = Err (Deserialize ''payload range exceeds message bounds'')"
    using wf by (simp add: slice_or_copy_def raw_len_into_bytes)
qed

section \<open>What a frame guarantees\<close>

text \<open>C18: The sequential reader over a segmented frame is exactly the concatenation of its
  segments: read in chunks of any positive size until it is exhausted, it delivers every
  byte once and in order, however the segments are cut (empty ones included), and it ends.\<close>

theorem segmented_reader_delivers_concat:
  assumes "0 < chunk"
  shows "drain (new_reader segs) chunk = concat segs"
  using drain_rest [OF reader_ok_new assms] by simp

theorem segmented_reader_delivers_concat_witness:
  "drain (new_reader [[1, 2], [], [3, 4, 5]]) 2 = [1, 2, 3, 4, 5]"
  using segmented_reader_delivers_concat [of 2 "[[1, 2], [], [3, 4, 5]]"] by simp

text \<open>Random access to a frame agrees with its flattened bytes: reading a byte inside
  the frame and slicing a range inside it give the same bytes as on the contiguous copy,
  whether the range lies in one segment (a zero-copy slice) or crosses several (a copy),
  and both refuse what lies outside.\<close>

theorem frame_access_agrees_with_bytes:
  assumes "frame_wf f" and "s \<le> e"
  shows "read_byte f i = (if i < raw_len f then Ok (into_bytes f ! i) else Err eom)
    \<and> slice_or_copy f (s, e) = (if e \<le> raw_len f then Ok (seg (into_bytes f) s e)
        else Err (Deserialize ''payload range exceeds message bounds''))"
  using assms raw.slice_in [of f s e] raw.slice_out [of f e s]
  by (auto simp: read_byte_view raw_len_into_bytes seg_def not_le)

theorem frame_access_agrees_with_bytes_witness:
  "read_byte (from_segments [[1, 2], [3]]) 2 = Ok 3
   \<and> slice_or_copy (from_segments [[1, 2], [3]]) (1, 3) = Ok [2, 3]"
  using frame_access_agrees_with_bytes [of "from_segments [[1, 2], [3]]" 1 3 2]
  by (simp add: from_segments_def seg_def)

end
