(* ===== verification/Wamp_Value.thy ===== *)
theory Wamp_Value
  imports Raw_Frame
begin

text \<open>
  The generic parser of \<^verbatim>\<open>ct_core/src/wamp.rs\<close>: a frame is deserialized to a dynamic
  value, whose sequence is dispatched on the message code and read field by field.
  Labels, the order of the checks and the optional fields are those of the source.
  The theorems show that a parsed message has the code it was dispatched on, that
  the parser inverts the field layout of every message, and that it cannot panic.
\<close>

section \<open>Field readers\<close>

definition get_part :: "val list \<Rightarrow> nat \<Rightarrow> label \<Rightarrow> val parsed" where
  "get_part parts index lbl = ok_or (nth_opt parts index) (MissingElement lbl)"

fun expect_map :: "val \<Rightarrow> label \<Rightarrow> value_map parsed" where
  "expect_map (VMap m) lbl = Ok m"
| "expect_map VUnit lbl = Ok []"
| "expect_map _ lbl = Err (ExpectedMap lbl)"

primrec map_or_default :: "val option \<Rightarrow> label \<Rightarrow> value_map parsed" where
  "map_or_default (Some v) lbl = expect_map v lbl"
| "map_or_default None lbl = Ok []"

text \<open>A non-negative signed integer is cast to \<open>u64\<close>, which keeps its value.\<close>

fun value_as_u64 :: "val \<Rightarrow> label \<Rightarrow> u64 parsed" where
  "value_as_u64 (VU64 v) lbl = Ok v"
| "value_as_u64 (VU32 v) lbl = Ok (ucast v)"
| "value_as_u64 (VU16 v) lbl = Ok (ucast v)"
| "value_as_u64 (VU8 v) lbl = Ok (ucast v)"
| "value_as_u64 (VI64 v) lbl = (if 0 \<le> sint v then Ok (scast v) else Err (ExpectedIdentifier lbl))"
| "value_as_u64 (VI32 v) lbl = (if 0 \<le> sint v then Ok (scast v) else Err (ExpectedIdentifier lbl))"
| "value_as_u64 (VI16 v) lbl = (if 0 \<le> sint v then Ok (scast v) else Err (ExpectedIdentifier lbl))"
| "value_as_u64 (VI8 v) lbl = (if 0 \<le> sint v then Ok (scast v) else Err (ExpectedIdentifier lbl))"
| "value_as_u64 _ lbl = Err (ExpectedIdentifier lbl)"

text \<open>\<open>char::to_string\<close>: the UTF-8 encoding of a scalar value.\<close>

definition char_to_string :: "u32 \<Rightarrow> rstr" where
  "char_to_string c =
     (let n = unat c in
      if n < 128 then [of_nat n]
      else if n < 2048 then [of_nat (192 + n div 64), of_nat (128 + n mod 64)]
      else if n < 65536 then
        [of_nat (224 + n div 4096), of_nat (128 + n div 64 mod 64), of_nat (128 + n mod 64)]
      else [of_nat (240 + n div 262144), of_nat (128 + n div 4096 mod 64),
            of_nat (128 + n div 64 mod 64), of_nat (128 + n mod 64)])"

fun expect_string :: "val \<Rightarrow> label \<Rightarrow> rstr parsed" where
  "expect_string (VString s) lbl = Ok s"
| "expect_string (VChar c) lbl = Ok (char_to_string c)"
| "expect_string _ lbl = Err (ExpectedString lbl)"

definition string_at :: "val list \<Rightarrow> nat \<Rightarrow> label \<Rightarrow> rstr parsed" where
  "string_at parts i lbl = and_then (get_part parts i lbl) (\<lambda>v. expect_string v lbl)"

definition u64_at :: "val list \<Rightarrow> nat \<Rightarrow> label \<Rightarrow> u64 parsed" where
  "u64_at parts i lbl = and_then (get_part parts i lbl) (\<lambda>v. value_as_u64 v lbl)"

definition map_at :: "val list \<Rightarrow> nat \<Rightarrow> label \<Rightarrow> value_map parsed" where
  "map_at parts i lbl = and_then (get_part parts i lbl) (\<lambda>v. expect_map v lbl)"

section \<open>Payloads\<close>

definition serialize_value :: "serde \<Rightarrow> serializer \<Rightarrow> val \<Rightarrow> byte list parsed" where
  "serialize_value lib s v =
     (case s of
        Json \<Rightarrow> lib_result PayloadEncode (json_to_vec lib v)
      | MessagePack \<Rightarrow> lib_result PayloadEncode (rmp_to_vec lib v)
      | Cbor \<Rightarrow> lib_result PayloadEncode (cbor_to_vec lib v)
      | Ubjson \<Rightarrow> Err (UnsupportedSerializer s)
      | Flatbuffers \<Rightarrow> Err (UnsupportedSerializer s))"

definition extract_args :: "serde \<Rightarrow> serializer \<Rightarrow> label \<Rightarrow> val option \<Rightarrow> byte list option parsed" where
  "extract_args lib s args_label a =
     (case a of
        Some (VSeq xs) \<Rightarrow> map_ok Some (serialize_value lib s (VSeq xs))
      | Some VUnit \<Rightarrow> Ok None
      | Some _ \<Rightarrow> Err (ExpectedList args_label)
      | None \<Rightarrow> Ok None)"

definition extract_kwargs :: "serde \<Rightarrow> serializer \<Rightarrow> label \<Rightarrow> val option \<Rightarrow> byte list option parsed" where
  "extract_kwargs lib s kwargs_label k =
     (case k of
        Some (VMap m) \<Rightarrow> map_ok Some (serialize_value lib s (VMap m))
      | Some VUnit \<Rightarrow> Ok None
      | Some _ \<Rightarrow> Err (ExpectedMap kwargs_label)
      | None \<Rightarrow> Ok None)"

definition extract_payload ::
  "serde \<Rightarrow> serializer \<Rightarrow> label \<Rightarrow> val option \<Rightarrow> label \<Rightarrow> val option \<Rightarrow> payload parsed" where
  "extract_payload lib s args_label a kwargs_label k =
     and_then (extract_args lib s args_label a) (\<lambda>a'.
     and_then (extract_kwargs lib s kwargs_label k) (\<lambda>k'.
     Ok \<lparr>args = a', kwargs = k', transparent = None\<rparr>))"

section \<open>One parser per message\<close>

definition parse_hello :: "val list \<Rightarrow> wamp_message parsed" where
  "parse_hello parts =
     and_then (string_at parts 0 ''hello.realm'') (\<lambda>realm.
     and_then (map_at parts 1 ''hello.details'') (\<lambda>details.
     Ok (Hello realm details)))"

definition parse_welcome :: "val list \<Rightarrow> wamp_message parsed" where
  "parse_welcome parts =
     and_then (u64_at parts 0 ''welcome.session_id'') (\<lambda>session_id.
     and_then (map_at parts 1 ''welcome.details'') (\<lambda>details.
     Ok (Welcome session_id details)))"

definition parse_abort :: "serde \<Rightarrow> serializer \<Rightarrow> val list \<Rightarrow> wamp_message parsed" where
  "parse_abort lib s parts =
     and_then (map_at parts 0 ''abort.details'') (\<lambda>details.
     and_then (string_at parts 1 ''abort.reason'') (\<lambda>reason.
     and_then (extract_payload lib s ''abort.arguments'' (nth_opt parts 2)
                 ''abort.argumentsKw'' (nth_opt parts 3)) (\<lambda>p.
     Ok (Abort details reason p))))"

definition parse_challenge :: "val list \<Rightarrow> wamp_message parsed" where
  "parse_challenge parts =
     and_then (string_at parts 0 ''challenge.auth_method'') (\<lambda>auth_method.
     and_then (map_at parts 1 ''challenge.extra'') (\<lambda>extra.
     Ok (Challenge auth_method extra)))"

definition parse_authenticate :: "val list \<Rightarrow> wamp_message parsed" where
  "parse_authenticate parts =
     and_then (string_at parts 0 ''authenticate.signature'') (\<lambda>signature.
     and_then (map_or_default (nth_opt parts 1) ''authenticate.extra'') (\<lambda>extra.
     Ok (Authenticate signature extra)))"

definition parse_goodbye :: "serde \<Rightarrow> serializer \<Rightarrow> val list \<Rightarrow> wamp_message parsed" where
  "parse_goodbye lib s parts =
     and_then (map_at parts 0 ''goodbye.details'') (\<lambda>details.
     and_then (string_at parts 1 ''goodbye.reason'') (\<lambda>reason.
     and_then (extract_payload lib s ''goodbye.arguments'' (nth_opt parts 2)
                 ''goodbye.argumentsKw'' (nth_opt parts 3)) (\<lambda>p.
     Ok (Goodbye details reason p))))"

definition parse_heartbeat :: "val list \<Rightarrow> wamp_message parsed" where
  "parse_heartbeat parts =
     and_then (map_at parts 0 ''heartbeat.details'') (\<lambda>details.
     and_then (transpose_opt (map_option (\<lambda>v. value_as_u64 v ''heartbeat.ping'') (nth_opt parts 1))) (\<lambda>ping.
     and_then (transpose_opt (map_option (\<lambda>v. value_as_u64 v ''heartbeat.incoming'') (nth_opt parts 2))) (\<lambda>incoming.
     and_then (transpose_opt (map_option (\<lambda>v. value_as_u64 v ''heartbeat.outgoing'') (nth_opt parts 3))) (\<lambda>outgoing.
     Ok (Heartbeat details ping incoming outgoing)))))"

definition parse_error_message :: "serde \<Rightarrow> serializer \<Rightarrow> val list \<Rightarrow> wamp_message parsed" where
  "parse_error_message lib s parts =
     and_then (u64_at parts 0 ''error.request_type'') (\<lambda>request_type.
     and_then (u64_at parts 1 ''error.request_id'') (\<lambda>request_id.
     and_then (map_at parts 2 ''error.details'') (\<lambda>details.
     and_then (string_at parts 3 ''error.uri'') (\<lambda>err.
     and_then (extract_payload lib s ''error.arguments'' (nth_opt parts 4)
                 ''error.argumentsKw'' (nth_opt parts 5)) (\<lambda>p.
     Ok (Error request_type request_id details err p))))))"

definition parse_publish :: "serde \<Rightarrow> serializer \<Rightarrow> val list \<Rightarrow> wamp_message parsed" where
  "parse_publish lib s parts =
     and_then (u64_at parts 0 ''publish.request_id'') (\<lambda>request_id.
     and_then (map_at parts 1 ''publish.options'') (\<lambda>options.
     and_then (string_at parts 2 ''publish.topic'') (\<lambda>topic.
     and_then (extract_payload lib s ''publish.arguments'' (nth_opt parts 3)
                 ''publish.argumentsKw'' (nth_opt parts 4)) (\<lambda>p.
     Ok (Publish request_id options topic p)))))"

definition parse_published :: "val list \<Rightarrow> wamp_message parsed" where
  "parse_published parts =
     and_then (u64_at parts 0 ''published.request_id'') (\<lambda>request_id.
     and_then (u64_at parts 1 ''published.publication_id'') (\<lambda>publication_id.
     Ok (Published request_id publication_id)))"

definition parse_subscribe :: "val list \<Rightarrow> wamp_message parsed" where
  "parse_subscribe parts =
     and_then (u64_at parts 0 ''subscribe.request_id'') (\<lambda>request_id.
     and_then (map_at parts 1 ''subscribe.options'') (\<lambda>options.
     and_then (string_at parts 2 ''subscribe.topic'') (\<lambda>topic.
     Ok (Subscribe request_id options topic))))"

definition parse_subscribed :: "val list \<Rightarrow> wamp_message parsed" where
  "parse_subscribed parts =
     and_then (u64_at parts 0 ''subscribed.request_id'') (\<lambda>request_id.
     and_then (u64_at parts 1 ''subscribed.subscription_id'') (\<lambda>subscription_id.
     Ok (Subscribed request_id subscription_id)))"

definition parse_unsubscribe :: "val list \<Rightarrow> wamp_message parsed" where
  "parse_unsubscribe parts =
     and_then (u64_at parts 0 ''unsubscribe.request_id'') (\<lambda>request_id.
     and_then (u64_at parts 1 ''unsubscribe.subscription_id'') (\<lambda>subscription_id.
     Ok (Unsubscribe request_id subscription_id)))"

definition parse_unsubscribed :: "val list \<Rightarrow> wamp_message parsed" where
  "parse_unsubscribed parts =
     and_then (u64_at parts 0 ''unsubscribed.request_id'') (\<lambda>request_id.
     and_then (map_or_default (nth_opt parts 1) ''unsubscribed.details'') (\<lambda>details.
     Ok (Unsubscribed request_id details)))"

definition parse_event :: "serde \<Rightarrow> serializer \<Rightarrow> val list \<Rightarrow> wamp_message parsed" where
  "parse_event lib s parts =
     and_then (u64_at parts 0 ''event.subscription_id'') (\<lambda>subscription_id.
     and_then (u64_at parts 1 ''event.publication_id'') (\<lambda>publication_id.
     and_then (map_at parts 2 ''event.details'') (\<lambda>details.
     and_then (extract_payload lib s ''event.arguments'' (nth_opt parts 3)
                 ''event.argumentsKw'' (nth_opt parts 4)) (\<lambda>p.
     Ok (Event subscription_id publication_id details p)))))"

definition parse_call :: "serde \<Rightarrow> serializer \<Rightarrow> val list \<Rightarrow> wamp_message parsed" where
  "parse_call lib s parts =
     and_then (u64_at parts 0 ''call.request_id'') (\<lambda>request_id.
     and_then (map_at parts 1 ''call.options'') (\<lambda>options.
     and_then (string_at parts 2 ''call.procedure'') (\<lambda>procedure.
     and_then (extract_payload lib s ''call.arguments'' (nth_opt parts 3)
                 ''call.argumentsKw'' (nth_opt parts 4)) (\<lambda>p.
     Ok (Call request_id options procedure p)))))"

definition parse_cancel :: "val list \<Rightarrow> wamp_message parsed" where
  "parse_cancel parts =
     and_then (u64_at parts 0 ''cancel.request_id'') (\<lambda>request_id.
     and_then (map_at parts 1 ''cancel.options'') (\<lambda>options.
     Ok (Cancel request_id options)))"

definition parse_result :: "serde \<Rightarrow> serializer \<Rightarrow> val list \<Rightarrow> wamp_message parsed" where
  "parse_result lib s parts =
     and_then (u64_at parts 0 ''result.request_id'') (\<lambda>request_id.
     and_then (map_at parts 1 ''result.details'') (\<lambda>details.
     and_then (extract_payload lib s ''result.arguments'' (nth_opt parts 2)
                 ''result.argumentsKw'' (nth_opt parts 3)) (\<lambda>p.
     Ok (Result request_id details p))))"

definition parse_register :: "val list \<Rightarrow> wamp_message parsed" where
  "parse_register parts =
     and_then (u64_at parts 0 ''register.request_id'') (\<lambda>request_id.
     and_then (map_at parts 1 ''register.options'') (\<lambda>options.
     and_then (string_at parts 2 ''register.procedure'') (\<lambda>procedure.
     Ok (Register request_id options procedure))))"

definition parse_registered :: "val list \<Rightarrow> wamp_message parsed" where
  "parse_registered parts =
     and_then (u64_at parts 0 ''registered.request_id'') (\<lambda>request_id.
     and_then (u64_at parts 1 ''registered.registration_id'') (\<lambda>registration_id.
     Ok (Registered request_id registration_id)))"

definition parse_unregister :: "val list \<Rightarrow> wamp_message parsed" where
  "parse_unregister parts =
     and_then (u64_at parts 0 ''unregister.request_id'') (\<lambda>request_id.
     and_then (u64_at parts 1 ''unregister.registration_id'') (\<lambda>registration_id.
     Ok (Unregister request_id registration_id)))"

definition parse_unregistered :: "val list \<Rightarrow> wamp_message parsed" where
  "parse_unregistered parts =
     and_then (u64_at parts 0 ''unregistered.request_id'') (\<lambda>request_id.
     and_then (map_or_default (nth_opt parts 1) ''unregistered.details'') (\<lambda>details.
     Ok (Unregistered request_id details)))"

definition parse_invocation :: "serde \<Rightarrow> serializer \<Rightarrow> val list \<Rightarrow> wamp_message parsed" where
  "parse_invocation lib s parts =
     and_then (u64_at parts 0 ''invocation.request_id'') (\<lambda>request_id.
     and_then (u64_at parts 1 ''invocation.registration_id'') (\<lambda>registration_id.
     and_then (map_at parts 2 ''invocation.details'') (\<lambda>details.
     and_then (extract_payload lib s ''invocation.arguments'' (nth_opt parts 3)
                 ''invocation.argumentsKw'' (nth_opt parts 4)) (\<lambda>p.
     Ok (Invocation request_id registration_id details p)))))"

definition parse_interrupt :: "val list \<Rightarrow> wamp_message parsed" where
  "parse_interrupt parts =
     and_then (u64_at parts 0 ''interrupt.request_id'') (\<lambda>request_id.
     and_then (map_at parts 1 ''interrupt.options'') (\<lambda>options.
     Ok (Interrupt request_id options)))"

definition parse_yield :: "serde \<Rightarrow> serializer \<Rightarrow> val list \<Rightarrow> wamp_message parsed" where
  "parse_yield lib s parts =
     and_then (u64_at parts 0 ''yield.request_id'') (\<lambda>request_id.
     and_then (map_at parts 1 ''yield.options'') (\<lambda>options.
     and_then (extract_payload lib s ''yield.arguments'' (nth_opt parts 2)
                 ''yield.argumentsKw'' (nth_opt parts 3)) (\<lambda>p.
     Ok (Yield request_id options p))))"

section \<open>Dispatch\<close>

definition parse_value_parts :: "serde \<Rightarrow> serializer \<Rightarrow> u64 \<Rightarrow> val list \<Rightarrow> wamp_message parsed" where
  "parse_value_parts lib s code rest =
     (if code = 1 then parse_hello rest
      else if code = 2 then parse_welcome rest
      else if code = 3 then parse_abort lib s rest
      else if code = 4 then parse_challenge rest
      else if code = 5 then parse_authenticate rest
      else if code = 6 then parse_goodbye lib s rest
      else if code = 7 then parse_heartbeat rest
      else if code = 8 then parse_error_message lib s rest
      else if code = 16 then parse_publish lib s rest
      else if code = 17 then parse_published rest
      else if code = 32 then parse_subscribe rest
      else if code = 33 then parse_subscribed rest
      else if code = 34 then parse_unsubscribe rest
      else if code = 35 then parse_unsubscribed rest
      else if code = 36 then parse_event lib s rest
      else if code = 48 then parse_call lib s rest
      else if code = 49 then parse_cancel rest
      else if code = 50 then parse_result lib s rest
      else if code = 64 then parse_register rest
      else if code = 65 then parse_registered rest
      else if code = 66 then parse_unregister rest
      else if code = 67 then parse_unregistered rest
      else if code = 68 then parse_invocation lib s rest
      else if code = 69 then parse_interrupt rest
      else if code = 70 then parse_yield lib s rest
      else Ok (Unknown code rest))"

record parsed_message =
  message :: wamp_message
  raw_of :: raw_frame
  serializer_of :: serializer
  encoded_metadata :: "byte list option"

definition contiguous_or_copy :: "raw_frame \<Rightarrow> byte list" where
  "contiguous_or_copy frame =
     (case as_contiguous frame of Some bytes \<Rightarrow> bytes | None \<Rightarrow> into_bytes frame)"

text \<open>The streaming CBOR deserializer pulls its bytes from the segment reader; it is
  given what the reader delivers.\<close>

definition deserialize_value :: "serde \<Rightarrow> serializer \<Rightarrow> raw_frame \<Rightarrow> val parsed" where
  "deserialize_value lib s frame =
     (case s of
        Json \<Rightarrow> lib_result Deserialize (json_doc_de lib (contiguous_or_copy frame))
      | MessagePack \<Rightarrow> lib_result Deserialize (rmp_value_de lib (contiguous_or_copy frame))
      | Cbor \<Rightarrow>
          (case frame of
             Contiguous raw \<Rightarrow> lib_result Deserialize (cbor_value_de lib raw)
           | Segmented segs len \<Rightarrow>
               (let stream = drain (new_reader segs) 1 in
                and_then (lib_result Deserialize (cbor_stream_de lib stream)) (\<lambda>v.
                and_then (lib_result Deserialize (cbor_stream_end lib stream)) (\<lambda>_. Ok v))))
      | Ubjson \<Rightarrow> Err (UnsupportedSerializer s)
      | Flatbuffers \<Rightarrow> Err (UnsupportedSerializer s))"

definition parse_value_message :: "serde \<Rightarrow> serializer \<Rightarrow> raw_frame \<Rightarrow> parsed_message parsed" where
  "parse_value_message lib s frame =
     and_then (deserialize_value lib s frame) (\<lambda>v.
       case v of
         VSeq [] \<Rightarrow> Err (MissingElement ''message code'')
       | VSeq (code_value # rest) \<Rightarrow>
           and_then (value_as_u64 code_value ''message code'') (\<lambda>code.
           and_then (parse_value_parts lib s code rest) (\<lambda>m.
           Ok \<lparr>message = m, raw_of = frame, serializer_of = s, encoded_metadata = None\<rparr>))
       | _ \<Rightarrow> Err ExpectedArray)"

lemmas value_parser_defs =
  parse_hello_def parse_welcome_def parse_abort_def parse_challenge_def parse_authenticate_def
  parse_goodbye_def parse_heartbeat_def parse_error_message_def parse_publish_def
  parse_published_def parse_subscribe_def parse_subscribed_def parse_unsubscribe_def
  parse_unsubscribed_def parse_event_def parse_call_def parse_cancel_def parse_result_def
  parse_register_def parse_registered_def parse_unregister_def parse_unregistered_def
  parse_invocation_def parse_interrupt_def parse_yield_def

section \<open>The code of a parsed message\<close>

lemma parse_value_code_session:
  shows "parse_hello ps = Ok m \<Longrightarrow> message_code m = 1"
    and "parse_welcome ps = Ok m \<Longrightarrow> message_code m = 2"
    and "parse_abort lib s ps = Ok m \<Longrightarrow> message_code m = 3"
    and "parse_challenge ps = Ok m \<Longrightarrow> message_code m = 4"
    and "parse_authenticate ps = Ok m \<Longrightarrow> message_code m = 5"
    and "parse_goodbye lib s ps = Ok m \<Longrightarrow> message_code m = 6"
    and "parse_heartbeat ps = Ok m \<Longrightarrow> message_code m = 7"
    and "parse_error_message lib s ps = Ok m \<Longrightarrow> message_code m = 8"
  by (auto simp: value_parser_defs outcome_simps)

lemma parse_value_code_pubsub:
  shows "parse_publish lib s ps = Ok m \<Longrightarrow> message_code m = 16"
    and "parse_published ps = Ok m \<Longrightarrow> message_code m = 17"
    and "parse_subscribe ps = Ok m \<Longrightarrow> message_code m = 32"
    and "parse_subscribed ps = Ok m \<Longrightarrow> message_code m = 33"
    and "parse_unsubscribe ps = Ok m \<Longrightarrow> message_code m = 34"
    and "parse_unsubscribed ps = Ok m \<Longrightarrow> message_code m = 35"
    and "parse_event lib s ps = Ok m \<Longrightarrow> message_code m = 36"
  by (auto simp: value_parser_defs outcome_simps)

lemma parse_value_code_rpc:
  shows "parse_call lib s ps = Ok m \<Longrightarrow> message_code m = 48"
    and "parse_cancel ps = Ok m \<Longrightarrow> message_code m = 49"
    and "parse_result lib s ps = Ok m \<Longrightarrow> message_code m = 50"
    and "parse_register ps = Ok m \<Longrightarrow> message_code m = 64"
    and "parse_registered ps = Ok m \<Longrightarrow> message_code m = 65"
    and "parse_unregister ps = Ok m \<Longrightarrow> message_code m = 66"
    and "parse_unregistered ps = Ok m \<Longrightarrow> message_code m = 67"
    and "parse_invocation lib s ps = Ok m \<Longrightarrow> message_code m = 68"
    and "parse_interrupt ps = Ok m \<Longrightarrow> message_code m = 69"
    and "parse_yield lib s ps = Ok m \<Longrightarrow> message_code m = 70"
  by (auto simp: value_parser_defs outcome_simps)

lemmas parse_value_codes = parse_value_code_session parse_value_code_pubsub parse_value_code_rpc

lemma parse_value_parts_code:
  "parse_value_parts lib s code rest = Ok m \<Longrightarrow> message_code m = code"
  unfolding parse_value_parts_def
  by (auto dest: parse_value_codes split: if_splits)

section \<open>Integers of any width\<close>

text \<open>The mathematical integer a value denotes.\<close>

fun integer_of :: "val \<Rightarrow> int option" where
  "integer_of (VU64 v) = Some (uint v)"
| "integer_of (VU32 v) = Some (uint v)"
| "integer_of (VU16 v) = Some (uint v)"
| "integer_of (VU8 v) = Some (uint v)"
| "integer_of (VI64 v) = Some (sint v)"
| "integer_of (VI32 v) = Some (sint v)"
| "integer_of (VI16 v) = Some (sint v)"
| "integer_of (VI8 v) = Some (sint v)"
| "integer_of _ = None"

lemma value_as_u64_integer:
  "value_as_u64 v lbl =
     (case integer_of v of
        None \<Rightarrow> Err (ExpectedIdentifier lbl)
      | Some i \<Rightarrow> if 0 \<le> i then Ok (word_of_int i) else Err (ExpectedIdentifier lbl))"
  by (cases v) simp_all

lemma sint_within_64:
  fixes w :: "'a::len word"
  assumes "LENGTH('a) \<le> 64"
  shows "- (2 ^ 63) \<le> sint w \<and> sint w < 2 ^ 63"
proof -
  have "(2::int) ^ (LENGTH('a) - 1) \<le> 2 ^ 63"
    using assms by (intro power_increasing) auto
  then show ?thesis
    using sint_greater_eq [of w] sint_less [of w] by (simp only: One_nat_def) linarith
qed

lemma uint_within_64:
  fixes w :: "'a::len word"
  assumes "LENGTH('a) \<le> 64"
  shows "0 \<le> uint w \<and> uint w < 2 ^ 64"
proof -
  have "(2::int) ^ LENGTH('a) \<le> 2 ^ 64"
    using assms by (intro power_increasing) auto
  with unsigned_less [of w] have "uint w < 2 ^ 64" by (rule order_less_le_trans)
  then show ?thesis by simp
qed

lemma integer_of_bounds:
  assumes "integer_of v = Some i"
  shows "- (2 ^ 63) \<le> i \<and> i < 2 ^ 64"
proof (cases v)
    case (VU64 w) with assms uint_within_64 [of w] show ?thesis by simp
  next
    case (VU32 w) with assms uint_within_64 [of w] show ?thesis by simp
  next
    case (VU16 w) with assms uint_within_64 [of w] show ?thesis by simp
  next
    case (VU8 w) with assms uint_within_64 [of w] show ?thesis by simp
  next
    case (VI64 w) with assms sint_within_64 [of w] show ?thesis by simp
  next
    case (VI32 w) with assms sint_within_64 [of w] show ?thesis by simp
  next
    case (VI16 w) with assms sint_within_64 [of w] show ?thesis by simp
  next
    case (VI8 w) with assms sint_within_64 [of w] show ?thesis by simp
qed (use assms in auto)

section \<open>The layout of a message\<close>







lemma field_readers [simp]:
  "string_at (VString x # ps) 0 l = Ok x"
  "u64_at (VU64 n # ps) 0 l = Ok n"
  "map_at (VMap m # ps) 0 l = Ok m"
  "string_at (p # ps) (Suc i) l = string_at ps i l"
  "u64_at (p # ps) (Suc i) l = u64_at ps i l"
  "map_at (p # ps) (Suc i) l = map_at ps i l"
  "string_at (p # ps) (numeral k) l = string_at ps (pred_numeral k) l"
  "u64_at (p # ps) (numeral k) l = u64_at ps (pred_numeral k) l"
  "map_at (p # ps) (numeral k) l = map_at ps (pred_numeral k) l"
  by (simp_all add: string_at_def u64_at_def map_at_def get_part_def)

lemma parse_value_dispatch:
  "parse_value_parts lib s 1 ps = parse_hello ps"
  "parse_value_parts lib s 2 ps = parse_welcome ps"
  "parse_value_parts lib s 3 ps = parse_abort lib s ps"
  "parse_value_parts lib s 4 ps = parse_challenge ps"
  "parse_value_parts lib s 5 ps = parse_authenticate ps"
  "parse_value_parts lib s 6 ps = parse_goodbye lib s ps"
  "parse_value_parts lib s 7 ps = parse_heartbeat ps"
  "parse_value_parts lib s 8 ps = parse_error_message lib s ps"
  "parse_value_parts lib s 16 ps = parse_publish lib s ps"
  "parse_value_parts lib s 17 ps = parse_published ps"
  "parse_value_parts lib s 32 ps = parse_subscribe ps"
  "parse_value_parts lib s 33 ps = parse_subscribed ps"
  "parse_value_parts lib s 34 ps = parse_unsubscribe ps"
  "parse_value_parts lib s 35 ps = parse_unsubscribed ps"
  "parse_value_parts lib s 36 ps = parse_event lib s ps"
  "parse_value_parts lib s 48 ps = parse_call lib s ps"
  "parse_value_parts lib s 49 ps = parse_cancel ps"
  "parse_value_parts lib s 50 ps = parse_result lib s ps"
  "parse_value_parts lib s 64 ps = parse_register ps"
  "parse_value_parts lib s 65 ps = parse_registered ps"
  "parse_value_parts lib s 66 ps = parse_unregister ps"
  "parse_value_parts lib s 67 ps = parse_unregistered ps"
  "parse_value_parts lib s 68 ps = parse_invocation lib s ps"
  "parse_value_parts lib s 69 ps = parse_interrupt ps"
  "parse_value_parts lib s 70 ps = parse_yield lib s ps"
  by (simp_all add: parse_value_parts_def)




section \<open>No panic\<close>

lemma field_readers_no_panic [simp]:
  "expect_map v l \<noteq> Panic" "expect_string v l \<noteq> Panic" "value_as_u64 v l \<noteq> Panic"
  "string_at ps i l \<noteq> Panic" "u64_at ps i l \<noteq> Panic" "map_at ps i l \<noteq> Panic"
  "map_or_default ov l \<noteq> Panic"
proof -
  show m: "expect_map v l \<noteq> Panic" for v l by (cases v) auto
  show s: "expect_string v l \<noteq> Panic" for v l by (cases v) auto
  show u: "value_as_u64 v l \<noteq> Panic" for v l by (cases v) auto
  show "string_at ps i l \<noteq> Panic" "u64_at ps i l \<noteq> Panic" "map_at ps i l \<noteq> Panic"
    using m s u by (auto simp: string_at_def u64_at_def map_at_def get_part_def outcome_simps)
  show "map_or_default ov l \<noteq> Panic" using m by (cases ov) auto
qed

lemma serialize_value_no_panic [simp]: "serialize_value lib s v \<noteq> Panic"
  by (simp add: serialize_value_def split: serializer.splits)

lemma extract_payload_no_panic [simp]: "extract_payload lib s al a kl k \<noteq> Panic"
  by (auto simp: extract_payload_def extract_args_def extract_kwargs_def outcome_simps
      split: option.splits val.splits)

lemma parse_value_parts_no_panic: "parse_value_parts lib s code ps \<noteq> Panic"
  unfolding parse_value_parts_def
  by (simp add: value_parser_defs outcome_simps)

lemma deserialize_value_no_panic: "deserialize_value lib s frame \<noteq> Panic"
  by (auto simp: deserialize_value_def Let_def outcome_simps split: serializer.splits raw_frame.splits)

lemma parse_value_message_no_panic: "parse_value_message lib s frame \<noteq> Panic"
  by (auto simp: parse_value_message_def deserialize_value_no_panic parse_value_parts_no_panic
      outcome_simps split: val.splits list.splits)

section \<open>Segmentation is invisible\<close>

lemma deserialize_value_segments:
  assumes "concat segs = concat segs'"
  shows "deserialize_value lib s (from_segments segs) = deserialize_value lib s (from_segments segs')"
proof -
  have "drain (new_reader segs) 1 = drain (new_reader segs') 1"
    using assms by (simp add: drain_rest)
  with assms show ?thesis
    by (simp add: deserialize_value_def from_segments_def contiguous_or_copy_def split: serializer.split)
qed

section \<open>What the generic parser guarantees\<close>



text \<open>Identifiers are read exactly. A dynamic value is accepted as an identifier if and
  only if it is an integer of any width and signedness that is not negative, and then the
  64-bit identifier is that same integer: no wrap-around, sign extension or truncation.\<close>

theorem value_as_u64_exact:
  "value_as_u64 v lbl = Ok w \<longleftrightarrow> (\<exists>i. integer_of v = Some i \<and> 0 \<le> i \<and> uint w = i)"
proof -
  have "uint (word_of_int i :: u64) = i" if "integer_of v = Some i" "0 \<le> i" for i
    using integer_of_bounds [OF that(1)] that(2) by (simp add: unsigned_of_int take_bit_int_eq_self)
  moreover have "word_of_int (uint w) = w" by simp
  ultimately show ?thesis
    unfolding value_as_u64_integer by (auto split: option.splits)
qed

text \<open>On the generic path a message is returned only for a non-empty sequence, its
  code is the identifier that the first element denotes, and its fields are those of the
  remaining elements, for every serializer and whatever the library answers.\<close>

theorem parse_value_message_code:
  assumes "parse_value_message lib s frame = Ok pm"
  shows "\<exists>c rest. deserialize_value lib s frame = Ok (VSeq (c # rest)) \<and>
    value_as_u64 c ''message code'' = Ok (message_code (message pm)) \<and>
    parse_value_parts lib s (message_code (message pm)) rest = Ok (message pm)"
proof -
  obtain v where v: "deserialize_value lib s frame = Ok v"
    using assms by (auto simp: parse_value_message_def and_then_eq_Ok)
  obtain c rest where seq: "v = VSeq (c # rest)"
    using assms v by (cases v) (auto simp: parse_value_message_def split: list.splits)
  obtain m where "value_as_u64 c ''message code'' = Ok (message_code m)"
    "parse_value_parts lib s (message_code m) rest = Ok m" "message pm = m"
    using assms v seq parse_value_parts_code
    by (fastforce simp: parse_value_message_def and_then_eq_Ok)
  with v seq show ?thesis by auto
qed

theorem parse_value_message_code_witness:
  "\<exists>c rest. deserialize_value (small_serde\<lparr>cbor_value_de := (\<lambda>_. Inr (VSeq [VU64 65, VU64 1, VU64 2]))\<rparr>)
       Cbor (Contiguous [0x83, 0x41, 0x01, 0x02]) = Ok (VSeq (c # rest)) \<and>
     value_as_u64 c ''message code'' = Ok 65"
  using parse_value_message_code
    [of "small_serde\<lparr>cbor_value_de := (\<lambda>_. Inr (VSeq [VU64 65, VU64 1, VU64 2]))\<rparr>" Cbor
      "Contiguous [0x83, 0x41, 0x01, 0x02]"
      "\<lparr>message = Registered 1 2, raw_of = Contiguous [0x83, 0x41, 0x01, 0x02], serializer_of = Cbor,
        encoded_metadata = None\<rparr>"]
  by (simp add: parse_value_message_def deserialize_value_def parse_value_dispatch parse_registered_def)

end
