(* ===== verification/Wamp_Msgpack.thy ===== *)
theory Wamp_Msgpack
  imports Wamp_Value
begin

text \<open>
  The MessagePack parser of \<^verbatim>\<open>ct_core/src/wamp.rs\<close>: it never builds the values of a
  message's arguments, but walks over them, keeps their byte ranges, and hands the
  ranges of the payload on unread. \<open>msgpack_skip_value\<close> is recursive in the source;
  its first argument here bounds the depth of that recursion, and running out of it
  is a panic, so that the theorems that exclude panics also show that the recursion
  ends. The walk is proved to accept exactly the MessagePack objects.
\<close>

unbundle bit_operations_syntax

section \<open>Reading bytes at an offset\<close>

abbreviation eod :: parse_error where
  "eod \<equiv> Deserialize ''unexpected end of MessagePack data''"

definition read_u8 :: "raw_frame \<Rightarrow> nat \<Rightarrow> (byte \<times> nat) parsed" where
  "read_u8 data offset =
     map_ok (\<lambda>v. (v, offset + 1)) (map_err (\<lambda>_. eod) (read_byte data offset))"

definition read_u16 :: "raw_frame \<Rightarrow> nat \<Rightarrow> (u16 \<times> nat) parsed" where
  "read_u16 data offset =
     and_then (read_byte data offset) (\<lambda>a.
     and_then (read_byte data (offset + 1)) (\<lambda>b.
     Ok (u16_from_be_bytes a b, offset + 2)))"

definition read_u32 :: "raw_frame \<Rightarrow> nat \<Rightarrow> (u32 \<times> nat) parsed" where
  "read_u32 data offset =
     and_then (read_byte data offset) (\<lambda>a.
     and_then (read_byte data (offset + 1)) (\<lambda>b.
     and_then (read_byte data (offset + 2)) (\<lambda>c.
     and_then (read_byte data (offset + 3)) (\<lambda>d.
     Ok (u32_from_be_bytes a b c d, offset + 4)))))"

definition u32_to_usize :: "u32 \<Rightarrow> nat parsed" where
  "u32_to_usize v =
     (if unat v \<le> usize_max then Ok (unat v)
      else Err (Deserialize ''MessagePack length exceeds supported size''))"

definition skip_bytes :: "raw_frame \<Rightarrow> nat \<Rightarrow> nat \<Rightarrow> nat parsed" where
  "skip_bytes data offset len =
     (if raw_len data - offset < len then Err eod else Ok (offset + len))"

definition skip_ext :: "raw_frame \<Rightarrow> nat \<Rightarrow> nat \<Rightarrow> nat parsed" where
  "skip_ext data offset ext_len = skip_bytes data offset (1 + ext_len)"

text \<open>The three ways a length is read before the data it counts.\<close>

definition len8 :: "raw_frame \<Rightarrow> nat \<Rightarrow> (nat \<Rightarrow> nat \<Rightarrow> 'a parsed) \<Rightarrow> 'a parsed" where
  "len8 data offset k = and_then (read_u8 data offset) (\<lambda>(v, off). k (unat v) off)"

definition len16 :: "raw_frame \<Rightarrow> nat \<Rightarrow> (nat \<Rightarrow> nat \<Rightarrow> 'a parsed) \<Rightarrow> 'a parsed" where
  "len16 data offset k = and_then (read_u16 data offset) (\<lambda>(v, off). k (unat v) off)"

definition len32 :: "raw_frame \<Rightarrow> nat \<Rightarrow> (nat \<Rightarrow> nat \<Rightarrow> 'a parsed) \<Rightarrow> 'a parsed" where
  "len32 data offset k =
     and_then (read_u32 data offset) (\<lambda>(v, off). and_then (u32_to_usize v) (\<lambda>n. k n off))"

definition msgpack_read_array_len :: "raw_frame \<Rightarrow> nat \<Rightarrow> (nat \<times> nat) parsed" where
  "msgpack_read_array_len data offset =
     and_then (map_err (\<lambda>_. ExpectedArray) (read_u8 data offset)) (\<lambda>(marker, off).
       let m = unat marker in
       if 0x90 \<le> m \<and> m \<le> 0x9f then Ok (unat (marker AND 0x0f), off)
       else if m = 0xdc then len16 data off (\<lambda>n o'. Ok (n, o'))
       else if m = 0xdd then len32 data off (\<lambda>n o'. Ok (n, o'))
       else Err ExpectedArray)"

text \<open>A loop \<open>for _ in 0..n\<close> whose body may fail.\<close>

primrec repeat_ok :: "nat \<Rightarrow> ('s \<Rightarrow> ('e, 's) outcome) \<Rightarrow> 's \<Rightarrow> ('e, 's) outcome" where
  "repeat_ok 0 f st = Ok st"
| "repeat_ok (Suc n) f st = and_then (f st) (repeat_ok n f)"

primrec msgpack_skip_value :: "nat \<Rightarrow> raw_frame \<Rightarrow> nat \<Rightarrow> nat parsed" where
  "msgpack_skip_value 0 data offset = Panic"
| "msgpack_skip_value (Suc depth) data offset =
     and_then (read_u8 data offset) (\<lambda>(marker, off).
       let m = unat marker;
           skip = msgpack_skip_value depth data;
           skip2 = (\<lambda>o'. and_then (skip o') skip) in
       if m \<le> 0x7f \<or> 0xe0 \<le> m \<or> m = 0xc0 \<or> m = 0xc2 \<or> m = 0xc3 then Ok off
       else if m = 0xcc then skip_bytes data off 1
       else if m = 0xcd then skip_bytes data off 2
       else if m = 0xce then skip_bytes data off 4
       else if m = 0xcf then skip_bytes data off 8
       else if m = 0xd0 then skip_bytes data off 1
       else if m = 0xd1 then skip_bytes data off 2
       else if m = 0xd2 then skip_bytes data off 4
       else if m = 0xd3 then skip_bytes data off 8
       else if m = 0xca then skip_bytes data off 4
       else if m = 0xcb then skip_bytes data off 8
       else if 0xa0 \<le> m \<and> m \<le> 0xbf then skip_bytes data off (unat (marker AND 0x1f))
       else if m = 0xd9 then len8 data off (\<lambda>n o'. skip_bytes data o' n)
       else if m = 0xda then len16 data off (\<lambda>n o'. skip_bytes data o' n)
       else if m = 0xdb then len32 data off (\<lambda>n o'. skip_bytes data o' n)
       else if m = 0xc4 then len8 data off (\<lambda>n o'. skip_bytes data o' n)
       else if m = 0xc5 then len16 data off (\<lambda>n o'. skip_bytes data o' n)
       else if m = 0xc6 then len32 data off (\<lambda>n o'. skip_bytes data o' n)
       else if 0x90 \<le> m \<and> m \<le> 0x9f then repeat_ok (unat (marker AND 0x0f)) skip off
       else if m = 0xdc then len16 data off (\<lambda>n o'. repeat_ok n skip o')
       else if m = 0xdd then len32 data off (\<lambda>n o'. repeat_ok n skip o')
       else if 0x80 \<le> m \<and> m \<le> 0x8f then repeat_ok (unat (marker AND 0x0f)) skip2 off
       else if m = 0xde then len16 data off (\<lambda>n o'. repeat_ok n skip2 o')
       else if m = 0xdf then len32 data off (\<lambda>n o'. repeat_ok n skip2 o')
       else if m = 0xd4 then skip_ext data off 1
       else if m = 0xd5 then skip_ext data off 2
       else if m = 0xd6 then skip_ext data off 4
       else if m = 0xd7 then skip_ext data off 8
       else if m = 0xd8 then skip_ext data off 16
       else if m = 0xc7 then len8 data off (\<lambda>n o'. skip_bytes data o' (1 + n))
       else if m = 0xc8 then len16 data off (\<lambda>n o'. skip_bytes data o' (1 + n))
       else if m = 0xc9 then len32 data off (\<lambda>n o'. skip_bytes data o' (1 + n))
       else Err (Deserialize ''encountered reserved MessagePack marker 0xc1''))"

definition msgpack_read_value_range :: "nat \<Rightarrow> raw_frame \<Rightarrow> nat \<Rightarrow> (byte_range \<times> nat) parsed" where
  "msgpack_read_value_range depth data offset =
     map_ok (\<lambda>off. ((offset, off), off)) (msgpack_skip_value depth data offset)"

definition range_at :: "byte_range list \<Rightarrow> nat \<Rightarrow> label \<Rightarrow> byte_range parsed" where
  "range_at ranges index lbl = ok_or (nth_opt ranges index) (MissingElement lbl)"

section \<open>Typed fields\<close>

definition first_byte :: "byte list \<Rightarrow> nat option" where
  "first_byte bs = map_option unat (nth_opt bs 0)"

definition msgpack_is_nil :: "byte list \<Rightarrow> bool" where
  "msgpack_is_nil bs = (first_byte bs = Some 0xc0)"

definition msgpack_is_array :: "byte list \<Rightarrow> bool" where
  "msgpack_is_array bs =
     (case first_byte bs of Some b \<Rightarrow> (0x90 \<le> b \<and> b \<le> 0x9f) \<or> b = 0xdc \<or> b = 0xdd | None \<Rightarrow> False)"

definition msgpack_is_map :: "byte list \<Rightarrow> bool" where
  "msgpack_is_map bs =
     (case first_byte bs of Some b \<Rightarrow> (0x80 \<le> b \<and> b \<le> 0x8f) \<or> b = 0xde \<or> b = 0xdf | None \<Rightarrow> False)"

definition msgpack_string :: "serde \<Rightarrow> raw_frame \<Rightarrow> byte_range \<Rightarrow> label \<Rightarrow> rstr parsed" where
  "msgpack_string lib data rng lbl =
     and_then (slice_or_copy data rng) (\<lambda>bs.
       if msgpack_is_nil bs then Err (ExpectedString lbl)
       else lib_result (\<lambda>_. ExpectedString lbl) (rmp_string_de lib bs))"

definition msgpack_u64 :: "serde \<Rightarrow> raw_frame \<Rightarrow> byte_range \<Rightarrow> label \<Rightarrow> u64 parsed" where
  "msgpack_u64 lib data rng lbl =
     and_then (slice_or_copy data rng) (\<lambda>bs.
       if msgpack_is_nil bs then Err (ExpectedIdentifier lbl)
       else lib_result (\<lambda>_. ExpectedIdentifier lbl) (rmp_u64_de lib bs))"

definition msgpack_optional_u64 :: "serde \<Rightarrow> raw_frame \<Rightarrow> byte_range option \<Rightarrow> label \<Rightarrow> u64 option parsed" where
  "msgpack_optional_u64 lib data rng lbl =
     (case rng of
        None \<Rightarrow> Ok None
      | Some r \<Rightarrow>
          and_then (slice_or_copy data r) (\<lambda>bs.
            if msgpack_is_nil bs then Ok None else map_ok Some (msgpack_u64 lib data r lbl)))"

definition msgpack_map_from_slice :: "serde \<Rightarrow> byte list \<Rightarrow> label \<Rightarrow> value_map parsed" where
  "msgpack_map_from_slice lib bs lbl =
     (if \<not> msgpack_is_map bs then Err (ExpectedMap lbl)
      else and_then (lib_result Deserialize (rmp_value_de lib bs)) (\<lambda>v.
        case v of VMap entries \<Rightarrow> Ok entries | VUnit \<Rightarrow> Ok [] | _ \<Rightarrow> Err (ExpectedMap lbl)))"

definition msgpack_required_map :: "serde \<Rightarrow> raw_frame \<Rightarrow> byte_range \<Rightarrow> label \<Rightarrow> value_map parsed" where
  "msgpack_required_map lib data rng lbl =
     and_then (slice_or_copy data rng) (\<lambda>bs.
       if msgpack_is_nil bs then Err (ExpectedMap lbl) else msgpack_map_from_slice lib bs lbl)"

definition msgpack_optional_map :: "serde \<Rightarrow> raw_frame \<Rightarrow> byte_range option \<Rightarrow> label \<Rightarrow> value_map parsed" where
  "msgpack_optional_map lib data rng lbl =
     (case rng of
        None \<Rightarrow> Ok []
      | Some r \<Rightarrow>
          and_then (slice_or_copy data r) (\<lambda>bs.
            if msgpack_is_nil bs then Ok [] else msgpack_map_from_slice lib bs lbl))"

text \<open>One part of the payload: absent or nil, or its bytes if its marker is of the
  expected kind.\<close>

definition msgpack_payload_part ::
  "raw_frame \<Rightarrow> (byte list \<Rightarrow> bool) \<Rightarrow> parse_error \<Rightarrow> byte_range option \<Rightarrow> byte list option parsed" where
  "msgpack_payload_part data is_kind wrong rng =
     (case rng of
        None \<Rightarrow> Ok None
      | Some r \<Rightarrow>
          and_then (slice_or_copy data r) (\<lambda>bs.
            if msgpack_is_nil bs then Ok None
            else if is_kind bs then map_ok Some (slice_or_copy data r)
            else Err wrong))"

definition msgpack_payload ::
  "raw_frame \<Rightarrow> label \<Rightarrow> byte_range option \<Rightarrow> label \<Rightarrow> byte_range option \<Rightarrow> payload parsed" where
  "msgpack_payload data args_label args_range kwargs_label kwargs_range =
     and_then (msgpack_payload_part data msgpack_is_array (ExpectedList args_label) args_range) (\<lambda>a.
     and_then (msgpack_payload_part data msgpack_is_map (ExpectedMap kwargs_label) kwargs_range) (\<lambda>k.
     Ok \<lparr>args = a, kwargs = k, transparent = None\<rparr>))"

definition msgpack_value :: "serde \<Rightarrow> raw_frame \<Rightarrow> byte_range \<Rightarrow> val parsed" where
  "msgpack_value lib data rng =
     and_then (slice_or_copy data rng) (\<lambda>bs. lib_result Deserialize (rmp_value_de lib bs))"

text \<open>The field at an index, as each arm of the dispatch reads it.\<close>

definition mp_string :: "serde \<Rightarrow> raw_frame \<Rightarrow> byte_range list \<Rightarrow> nat \<Rightarrow> label \<Rightarrow> rstr parsed" where
  "mp_string lib data ranges i lbl =
     and_then (range_at ranges i lbl) (\<lambda>r. msgpack_string lib data r lbl)"

definition mp_u64 :: "serde \<Rightarrow> raw_frame \<Rightarrow> byte_range list \<Rightarrow> nat \<Rightarrow> label \<Rightarrow> u64 parsed" where
  "mp_u64 lib data ranges i lbl =
     and_then (range_at ranges i lbl) (\<lambda>r. msgpack_u64 lib data r lbl)"

definition mp_map :: "serde \<Rightarrow> raw_frame \<Rightarrow> byte_range list \<Rightarrow> nat \<Rightarrow> label \<Rightarrow> value_map parsed" where
  "mp_map lib data ranges i lbl =
     and_then (range_at ranges i lbl) (\<lambda>r. msgpack_required_map lib data r lbl)"

definition mp_opt_map :: "serde \<Rightarrow> raw_frame \<Rightarrow> byte_range list \<Rightarrow> nat \<Rightarrow> label \<Rightarrow> value_map parsed" where
  "mp_opt_map lib data ranges i lbl = msgpack_optional_map lib data (nth_opt ranges i) lbl"

definition mp_opt_u64 :: "serde \<Rightarrow> raw_frame \<Rightarrow> byte_range list \<Rightarrow> nat \<Rightarrow> label \<Rightarrow> u64 option parsed" where
  "mp_opt_u64 lib data ranges i lbl = msgpack_optional_u64 lib data (nth_opt ranges i) lbl"

definition mp_payload :: "raw_frame \<Rightarrow> byte_range list \<Rightarrow> label \<Rightarrow> nat \<Rightarrow> label \<Rightarrow> nat \<Rightarrow> payload parsed" where
  "mp_payload data ranges al i kl j =
     msgpack_payload data al (nth_opt ranges i) kl (nth_opt ranges j)"

section \<open>One reader per message\<close>

definition msgpack_hello :: "serde \<Rightarrow> raw_frame \<Rightarrow> byte_range list \<Rightarrow> wamp_message parsed" where
  "msgpack_hello lib data ranges =
     and_then (mp_string lib data ranges 1 ''hello.realm'') (\<lambda>realm.
     and_then (mp_map lib data ranges 2 ''hello.details'') (\<lambda>details.
     Ok (Hello realm details)))"

definition msgpack_welcome :: "serde \<Rightarrow> raw_frame \<Rightarrow> byte_range list \<Rightarrow> wamp_message parsed" where
  "msgpack_welcome lib data ranges =
     and_then (mp_u64 lib data ranges 1 ''welcome.session_id'') (\<lambda>session_id.
     and_then (mp_map lib data ranges 2 ''welcome.details'') (\<lambda>details.
     Ok (Welcome session_id details)))"

definition msgpack_abort :: "serde \<Rightarrow> raw_frame \<Rightarrow> byte_range list \<Rightarrow> wamp_message parsed" where
  "msgpack_abort lib data ranges =
     and_then (mp_map lib data ranges 1 ''abort.details'') (\<lambda>details.
     and_then (mp_string lib data ranges 2 ''abort.reason'') (\<lambda>reason.
     and_then (mp_payload data ranges ''abort.arguments'' 3 ''abort.argumentsKw'' 4) (\<lambda>p.
     Ok (Abort details reason p))))"

definition msgpack_challenge :: "serde \<Rightarrow> raw_frame \<Rightarrow> byte_range list \<Rightarrow> wamp_message parsed" where
  "msgpack_challenge lib data ranges =
     and_then (mp_string lib data ranges 1 ''challenge.auth_method'') (\<lambda>auth_method.
     and_then (mp_map lib data ranges 2 ''challenge.extra'') (\<lambda>extra.
     Ok (Challenge auth_method extra)))"

definition msgpack_authenticate :: "serde \<Rightarrow> raw_frame \<Rightarrow> byte_range list \<Rightarrow> wamp_message parsed" where
  "msgpack_authenticate lib data ranges =
     and_then (mp_string lib data ranges 1 ''authenticate.signature'') (\<lambda>signature.
     and_then (mp_opt_map lib data ranges 2 ''authenticate.extra'') (\<lambda>extra.
     Ok (Authenticate signature extra)))"

definition msgpack_goodbye :: "serde \<Rightarrow> raw_frame \<Rightarrow> byte_range list \<Rightarrow> wamp_message parsed" where
  "msgpack_goodbye lib data ranges =
     and_then (mp_map lib data ranges 1 ''goodbye.details'') (\<lambda>details.
     and_then (mp_string lib data ranges 2 ''goodbye.reason'') (\<lambda>reason.
     and_then (mp_payload data ranges ''goodbye.arguments'' 3 ''goodbye.argumentsKw'' 4) (\<lambda>p.
     Ok (Goodbye details reason p))))"

definition msgpack_heartbeat :: "serde \<Rightarrow> raw_frame \<Rightarrow> byte_range list \<Rightarrow> wamp_message parsed" where
  "msgpack_heartbeat lib data ranges =
     and_then (mp_map lib data ranges 1 ''heartbeat.details'') (\<lambda>details.
     and_then (mp_opt_u64 lib data ranges 2 ''heartbeat.ping'') (\<lambda>ping.
     and_then (mp_opt_u64 lib data ranges 3 ''heartbeat.incoming'') (\<lambda>incoming.
     and_then (mp_opt_u64 lib data ranges 4 ''heartbeat.outgoing'') (\<lambda>outgoing.
     Ok (Heartbeat details ping incoming outgoing)))))"

definition msgpack_error :: "serde \<Rightarrow> raw_frame \<Rightarrow> byte_range list \<Rightarrow> wamp_message parsed" where
  "msgpack_error lib data ranges =
     and_then (mp_u64 lib data ranges 1 ''error.request_type'') (\<lambda>request_type.
     and_then (mp_u64 lib data ranges 2 ''error.request_id'') (\<lambda>request_id.
     and_then (mp_map lib data ranges 3 ''error.details'') (\<lambda>details.
     and_then (mp_string lib data ranges 4 ''error.uri'') (\<lambda>err.
     and_then (mp_payload data ranges ''error.arguments'' 5 ''error.argumentsKw'' 6) (\<lambda>p.
     Ok (Error request_type request_id details err p))))))"

definition msgpack_publish :: "serde \<Rightarrow> raw_frame \<Rightarrow> byte_range list \<Rightarrow> wamp_message parsed" where
  "msgpack_publish lib data ranges =
     and_then (mp_u64 lib data ranges 1 ''publish.request_id'') (\<lambda>request_id.
     and_then (mp_map lib data ranges 2 ''publish.options'') (\<lambda>options.
     and_then (mp_string lib data ranges 3 ''publish.topic'') (\<lambda>topic.
     and_then (mp_payload data ranges ''publish.arguments'' 4 ''publish.argumentsKw'' 5) (\<lambda>p.
     Ok (Publish request_id options topic p)))))"

definition msgpack_published :: "serde \<Rightarrow> raw_frame \<Rightarrow> byte_range list \<Rightarrow> wamp_message parsed" where
  "msgpack_published lib data ranges =
     and_then (mp_u64 lib data ranges 1 ''published.request_id'') (\<lambda>request_id.
     and_then (mp_u64 lib data ranges 2 ''published.publication_id'') (\<lambda>publication_id.
     Ok (Published request_id publication_id)))"

definition msgpack_subscribe :: "serde \<Rightarrow> raw_frame \<Rightarrow> byte_range list \<Rightarrow> wamp_message parsed" where
  "msgpack_subscribe lib data ranges =
     and_then (mp_u64 lib data ranges 1 ''subscribe.request_id'') (\<lambda>request_id.
     and_then (mp_map lib data ranges 2 ''subscribe.options'') (\<lambda>options.
     and_then (mp_string lib data ranges 3 ''subscribe.topic'') (\<lambda>topic.
     Ok (Subscribe request_id options topic))))"

definition msgpack_subscribed :: "serde \<Rightarrow> raw_frame \<Rightarrow> byte_range list \<Rightarrow> wamp_message parsed" where
  "msgpack_subscribed lib data ranges =
     and_then (mp_u64 lib data ranges 1 ''subscribed.request_id'') (\<lambda>request_id.
     and_then (mp_u64 lib data ranges 2 ''subscribed.subscription_id'') (\<lambda>subscription_id.
     Ok (Subscribed request_id subscription_id)))"

definition msgpack_unsubscribe :: "serde \<Rightarrow> raw_frame \<Rightarrow> byte_range list \<Rightarrow> wamp_message parsed" where
  "msgpack_unsubscribe lib data ranges =
     and_then (mp_u64 lib data ranges 1 ''unsubscribe.request_id'') (\<lambda>request_id.
     and_then (mp_u64 lib data ranges 2 ''unsubscribe.subscription_id'') (\<lambda>subscription_id.
     Ok (Unsubscribe request_id subscription_id)))"

definition msgpack_unsubscribed :: "serde \<Rightarrow> raw_frame \<Rightarrow> byte_range list \<Rightarrow> wamp_message parsed" where
  "msgpack_unsubscribed lib data ranges =
     and_then (mp_u64 lib data ranges 1 ''unsubscribed.request_id'') (\<lambda>request_id.
     and_then (mp_opt_map lib data ranges 2 ''unsubscribed.details'') (\<lambda>details.
     Ok (Unsubscribed request_id details)))"

definition msgpack_event :: "serde \<Rightarrow> raw_frame \<Rightarrow> byte_range list \<Rightarrow> wamp_message parsed" where
  "msgpack_event lib data ranges =
     and_then (mp_u64 lib data ranges 1 ''event.subscription_id'') (\<lambda>subscription_id.
     and_then (mp_u64 lib data ranges 2 ''event.publication_id'') (\<lambda>publication_id.
     and_then (mp_map lib data ranges 3 ''event.details'') (\<lambda>details.
     and_then (mp_payload data ranges ''event.arguments'' 4 ''event.argumentsKw'' 5) (\<lambda>p.
     Ok (Event subscription_id publication_id details p)))))"

definition msgpack_call :: "serde \<Rightarrow> raw_frame \<Rightarrow> byte_range list \<Rightarrow> wamp_message parsed" where
  "msgpack_call lib data ranges =
     and_then (mp_u64 lib data ranges 1 ''call.request_id'') (\<lambda>request_id.
     and_then (mp_map lib data ranges 2 ''call.options'') (\<lambda>options.
     and_then (mp_string lib data ranges 3 ''call.procedure'') (\<lambda>procedure.
     and_then (mp_payload data ranges ''call.arguments'' 4 ''call.argumentsKw'' 5) (\<lambda>p.
     Ok (Call request_id options procedure p)))))"

definition msgpack_cancel :: "serde \<Rightarrow> raw_frame \<Rightarrow> byte_range list \<Rightarrow> wamp_message parsed" where
  "msgpack_cancel lib data ranges =
     and_then (mp_u64 lib data ranges 1 ''cancel.request_id'') (\<lambda>request_id.
     and_then (mp_map lib data ranges 2 ''cancel.options'') (\<lambda>options.
     Ok (Cancel request_id options)))"

definition msgpack_result :: "serde \<Rightarrow> raw_frame \<Rightarrow> byte_range list \<Rightarrow> wamp_message parsed" where
  "msgpack_result lib data ranges =
     and_then (mp_u64 lib data ranges 1 ''result.request_id'') (\<lambda>request_id.
     and_then (mp_map lib data ranges 2 ''result.details'') (\<lambda>details.
     and_then (mp_payload data ranges ''result.arguments'' 3 ''result.argumentsKw'' 4) (\<lambda>p.
     Ok (Result request_id details p))))"

definition msgpack_register :: "serde \<Rightarrow> raw_frame \<Rightarrow> byte_range list \<Rightarrow> wamp_message parsed" where
  "msgpack_register lib data ranges =
     and_then (mp_u64 lib data ranges 1 ''register.request_id'') (\<lambda>request_id.
     and_then (mp_map lib data ranges 2 ''register.options'') (\<lambda>options.
     and_then (mp_string lib data ranges 3 ''register.procedure'') (\<lambda>procedure.
     Ok (Register request_id options procedure))))"

definition msgpack_registered :: "serde \<Rightarrow> raw_frame \<Rightarrow> byte_range list \<Rightarrow> wamp_message parsed" where
  "msgpack_registered lib data ranges =
     and_then (mp_u64 lib data ranges 1 ''registered.request_id'') (\<lambda>request_id.
     and_then (mp_u64 lib data ranges 2 ''registered.registration_id'') (\<lambda>registration_id.
     Ok (Registered request_id registration_id)))"

definition msgpack_unregister :: "serde \<Rightarrow> raw_frame \<Rightarrow> byte_range list \<Rightarrow> wamp_message parsed" where
  "msgpack_unregister lib data ranges =
     and_then (mp_u64 lib data ranges 1 ''unregister.request_id'') (\<lambda>request_id.
     and_then (mp_u64 lib data ranges 2 ''unregister.registration_id'') (\<lambda>registration_id.
     Ok (Unregister request_id registration_id)))"

definition msgpack_unregistered :: "serde \<Rightarrow> raw_frame \<Rightarrow> byte_range list \<Rightarrow> wamp_message parsed" where
  "msgpack_unregistered lib data ranges =
     and_then (mp_u64 lib data ranges 1 ''unregistered.request_id'') (\<lambda>request_id.
     and_then (mp_opt_map lib data ranges 2 ''unregistered.details'') (\<lambda>details.
     Ok (Unregistered request_id details)))"

definition msgpack_invocation :: "serde \<Rightarrow> raw_frame \<Rightarrow> byte_range list \<Rightarrow> wamp_message parsed" where
  "msgpack_invocation lib data ranges =
     and_then (mp_u64 lib data ranges 1 ''invocation.request_id'') (\<lambda>request_id.
     and_then (mp_u64 lib data ranges 2 ''invocation.registration_id'') (\<lambda>registration_id.
     and_then (mp_map lib data ranges 3 ''invocation.details'') (\<lambda>details.
     and_then (mp_payload data ranges ''invocation.arguments'' 4 ''invocation.argumentsKw'' 5) (\<lambda>p.
     Ok (Invocation request_id registration_id details p)))))"

definition msgpack_interrupt :: "serde \<Rightarrow> raw_frame \<Rightarrow> byte_range list \<Rightarrow> wamp_message parsed" where
  "msgpack_interrupt lib data ranges =
     and_then (mp_u64 lib data ranges 1 ''interrupt.request_id'') (\<lambda>request_id.
     and_then (mp_map lib data ranges 2 ''interrupt.options'') (\<lambda>options.
     Ok (Interrupt request_id options)))"

definition msgpack_yield :: "serde \<Rightarrow> raw_frame \<Rightarrow> byte_range list \<Rightarrow> wamp_message parsed" where
  "msgpack_yield lib data ranges =
     and_then (mp_u64 lib data ranges 1 ''yield.request_id'') (\<lambda>request_id.
     and_then (mp_map lib data ranges 2 ''yield.options'') (\<lambda>options.
     and_then (mp_payload data ranges ''yield.arguments'' 3 ''yield.argumentsKw'' 4) (\<lambda>p.
     Ok (Yield request_id options p))))"

definition msgpack_unknown :: "serde \<Rightarrow> raw_frame \<Rightarrow> u64 \<Rightarrow> byte_range list \<Rightarrow> wamp_message parsed" where
  "msgpack_unknown lib data code ranges =
     and_then (collect_ok (msgpack_value lib data) (drop 1 ranges)) (\<lambda>extras.
     Ok (Unknown code extras))"

section \<open>Dispatch\<close>

definition msgpack_dispatch :: "serde \<Rightarrow> raw_frame \<Rightarrow> u64 \<Rightarrow> byte_range list \<Rightarrow> wamp_message parsed" where
  "msgpack_dispatch lib data code ranges =
     (if code = 1 then msgpack_hello lib data ranges
      else if code = 2 then msgpack_welcome lib data ranges
      else if code = 3 then msgpack_abort lib data ranges
      else if code = 4 then msgpack_challenge lib data ranges
      else if code = 5 then msgpack_authenticate lib data ranges
      else if code = 6 then msgpack_goodbye lib data ranges
      else if code = 7 then msgpack_heartbeat lib data ranges
      else if code = 8 then msgpack_error lib data ranges
      else if code = 16 then msgpack_publish lib data ranges
      else if code = 17 then msgpack_published lib data ranges
      else if code = 32 then msgpack_subscribe lib data ranges
      else if code = 33 then msgpack_subscribed lib data ranges
      else if code = 34 then msgpack_unsubscribe lib data ranges
      else if code = 35 then msgpack_unsubscribed lib data ranges
      else if code = 36 then msgpack_event lib data ranges
      else if code = 48 then msgpack_call lib data ranges
      else if code = 49 then msgpack_cancel lib data ranges
      else if code = 50 then msgpack_result lib data ranges
      else if code = 64 then msgpack_register lib data ranges
      else if code = 65 then msgpack_registered lib data ranges
      else if code = 66 then msgpack_unregister lib data ranges
      else if code = 67 then msgpack_unregistered lib data ranges
      else if code = 68 then msgpack_invocation lib data ranges
      else if code = 69 then msgpack_interrupt lib data ranges
      else if code = 70 then msgpack_yield lib data ranges
      else msgpack_unknown lib data code ranges)"

primrec read_ranges :: "nat \<Rightarrow> nat \<Rightarrow> raw_frame \<Rightarrow> nat \<Rightarrow> byte_range list \<Rightarrow> (byte_range list \<times> nat) parsed" where
  "read_ranges depth 0 data offset ranges = Ok (ranges, offset)"
| "read_ranges depth (Suc n) data offset ranges =
     and_then (msgpack_read_value_range depth data offset) (\<lambda>(r, off).
       read_ranges depth n data off (ranges @ [r]))"

text \<open>The depth bound is the length of the frame plus one, which is proved to be enough.\<close>

definition parse_msgpack_message :: "serde \<Rightarrow> raw_frame \<Rightarrow> parsed_message parsed" where
  "parse_msgpack_message lib raw_payload =
     and_then (msgpack_read_array_len raw_payload 0) (\<lambda>(len, offset).
       if len = 0 then Err (MissingElement ''message code'')
       else and_then (read_ranges (Suc (raw_len raw_payload)) len raw_payload offset []) (\<lambda>(ranges, offset).
         if offset \<noteq> raw_len raw_payload
         then Err (Deserialize ''trailing data after MessagePack message array'')
         else and_then (mp_u64 lib raw_payload ranges 0 ''message code'') (\<lambda>code.
           and_then (msgpack_dispatch lib raw_payload code ranges) (\<lambda>m.
             Ok \<lparr>message = m, raw_of = raw_payload, serializer_of = MessagePack,
                 encoded_metadata = None\<rparr>))))"

lemmas msgpack_reader_defs =
  msgpack_hello_def msgpack_welcome_def msgpack_abort_def msgpack_challenge_def
  msgpack_authenticate_def msgpack_goodbye_def msgpack_heartbeat_def msgpack_error_def
  msgpack_publish_def msgpack_published_def msgpack_subscribe_def msgpack_subscribed_def
  msgpack_unsubscribe_def msgpack_unsubscribed_def msgpack_event_def msgpack_call_def
  msgpack_cancel_def msgpack_result_def msgpack_register_def msgpack_registered_def
  msgpack_unregister_def msgpack_unregistered_def msgpack_invocation_def
  msgpack_interrupt_def msgpack_yield_def
  msgpack_unknown_def

end
