(* ===== verification/Msgpack_Grammar.thy ===== *)
theory Msgpack_Grammar
  imports Wamp_Msgpack
begin

text \<open>
  The MessagePack format as an inductive grammar, one rule per format of its
  specification, and the proof that \<open>msgpack_skip_value\<close> walks over exactly the
  objects of this grammar: it accepts nothing else, it accepts all of them, it ends,
  and it stays inside the frame.
\<close>

section \<open>The grammar\<close>

inductive mp_object :: "byte list \<Rightarrow> bool"
  and mp_objects :: "nat \<Rightarrow> byte list \<Rightarrow> bool" where
  positive_fixint: "unat b \<le> 0x7f \<Longrightarrow> mp_object [b]"
| negative_fixint: "0xe0 \<le> unat b \<Longrightarrow> mp_object [b]"
| nil: "mp_object [0xc0]"
| false: "mp_object [0xc2]"
| true: "mp_object [0xc3]"
| uint: "(m, w) \<in> {(0xcc, 1), (0xcd, 2), (0xce, 4), (0xcf, 8)} \<Longrightarrow> length xs = w \<Longrightarrow> mp_object (m # xs)"
| int: "(m, w) \<in> {(0xd0, 1), (0xd1, 2), (0xd2, 4), (0xd3, 8)} \<Longrightarrow> length xs = w \<Longrightarrow> mp_object (m # xs)"
| float: "(m, w) \<in> {(0xca, 4), (0xcb, 8)} \<Longrightarrow> length xs = w \<Longrightarrow> mp_object (m # xs)"
| fixstr: "n \<le> 31 \<Longrightarrow> length xs = n \<Longrightarrow> mp_object (of_nat (0xa0 + n) # xs)"
| str: "(m, w) \<in> {(0xd9, 1), (0xda, 2), (0xdb, 4)} \<Longrightarrow> n < 256 ^ w \<Longrightarrow> length xs = n \<Longrightarrow>
    mp_object (m # be_bytes w n @ xs)"
| bin: "(m, w) \<in> {(0xc4, 1), (0xc5, 2), (0xc6, 4)} \<Longrightarrow> n < 256 ^ w \<Longrightarrow> length xs = n \<Longrightarrow>
    mp_object (m # be_bytes w n @ xs)"
| fixarray: "n \<le> 15 \<Longrightarrow> mp_objects n xs \<Longrightarrow> mp_object (of_nat (0x90 + n) # xs)"
| array: "(m, w) \<in> {(0xdc, 2), (0xdd, 4)} \<Longrightarrow> n < 256 ^ w \<Longrightarrow> mp_objects n xs \<Longrightarrow>
    mp_object (m # be_bytes w n @ xs)"
| fixmap: "n \<le> 15 \<Longrightarrow> mp_objects (2 * n) xs \<Longrightarrow> mp_object (of_nat (0x80 + n) # xs)"
| map: "(m, w) \<in> {(0xde, 2), (0xdf, 4)} \<Longrightarrow> n < 256 ^ w \<Longrightarrow> mp_objects (2 * n) xs \<Longrightarrow>
    mp_object (m # be_bytes w n @ xs)"
| fixext: "(m, n) \<in> {(0xd4, 1), (0xd5, 2), (0xd6, 4), (0xd7, 8), (0xd8, 16)} \<Longrightarrow> length xs = n \<Longrightarrow>
    mp_object (m # t # xs)"
| ext: "(m, w) \<in> {(0xc7, 1), (0xc8, 2), (0xc9, 4)} \<Longrightarrow> n < 256 ^ w \<Longrightarrow> length xs = n \<Longrightarrow>
    mp_object (m # be_bytes w n @ t # xs)"
| none: "mp_objects 0 []"
| more: "mp_object x \<Longrightarrow> mp_objects n xs \<Longrightarrow> mp_objects (Suc n) (x @ xs)"

inductive_cases mp_objects_SucE: "mp_objects (Suc n) bs"
inductive_cases mp_objects_0E: "mp_objects 0 bs"

section \<open>The marker table\<close>

text \<open>What follows a marker: a number of bytes, a length and that many bytes plus
  some, a number of objects, or a length and that many times \<open>k\<close> objects.\<close>

datatype mp_shape = Skip nat | LenSkip nat nat | Rep nat | LenRep nat nat | Reserved

definition shape :: "nat \<Rightarrow> mp_shape" where
  "shape m =
     (if m \<le> 0x7f \<or> 0xe0 \<le> m \<or> m = 0xc0 \<or> m = 0xc2 \<or> m = 0xc3 then Skip 0
      else if m = 0xcc then Skip 1
      else if m = 0xcd then Skip 2
      else if m = 0xce then Skip 4
      else if m = 0xcf then Skip 8
      else if m = 0xd0 then Skip 1
      else if m = 0xd1 then Skip 2
      else if m = 0xd2 then Skip 4
      else if m = 0xd3 then Skip 8
      else if m = 0xca then Skip 4
      else if m = 0xcb then Skip 8
      else if 0xa0 \<le> m \<and> m \<le> 0xbf then Skip (m - 0xa0)
      else if m = 0xd9 then LenSkip 1 0
      else if m = 0xda then LenSkip 2 0
      else if m = 0xdb then LenSkip 4 0
      else if m = 0xc4 then LenSkip 1 0
      else if m = 0xc5 then LenSkip 2 0
      else if m = 0xc6 then LenSkip 4 0
      else if 0x90 \<le> m \<and> m \<le> 0x9f then Rep (m - 0x90)
      else if m = 0xdc then LenRep 2 1
      else if m = 0xdd then LenRep 4 1
      else if 0x80 \<le> m \<and> m \<le> 0x8f then Rep (2 * (m - 0x80))
      else if m = 0xde then LenRep 2 2
      else if m = 0xdf then LenRep 4 2
      else if m = 0xd4 then Skip 2
      else if m = 0xd5 then Skip 3
      else if m = 0xd6 then Skip 5
      else if m = 0xd7 then Skip 9
      else if m = 0xd8 then Skip 17
      else if m = 0xc7 then LenSkip 1 1
      else if m = 0xc8 then LenSkip 2 1
      else if m = 0xc9 then LenSkip 4 1
      else Reserved)"

definition read_len :: "nat \<Rightarrow> raw_frame \<Rightarrow> nat \<Rightarrow> (nat \<times> nat) parsed" where
  "read_len w data off =
     (if w = 1 then len8 data off (\<lambda>n o'. Ok (n, o'))
      else if w = 2 then len16 data off (\<lambda>n o'. Ok (n, o'))
      else len32 data off (\<lambda>n o'. Ok (n, o')))"

lemma lens_read_len:
  shows "len8 data off k = and_then (read_len 1 data off) (\<lambda>(n, o'). k n o')"
    and "len16 data off k = and_then (read_len 2 data off) (\<lambda>(n, o'). k n o')"
    and "len32 data off k = and_then (read_len 4 data off) (\<lambda>(n, o'). k n o')"
  subgoal by (cases "read_u8 data off") (auto simp: read_len_def len8_def)
  subgoal by (cases "read_u16 data off") (auto simp: read_len_def len16_def)
  subgoal by (cases "read_u32 data off") (auto simp: read_len_def len32_def u32_to_usize_def)
  done

lemma unat_and_nibble: "unat (b AND 0x0f :: byte) = unat b mod 16"
proof -
  have "b AND 0x0f = take_bit 4 b"
    by (simp add: take_bit_eq_mask mask_eq_exp_minus_1)
  then show ?thesis by (simp add: unsigned_take_bit_eq take_bit_eq_mod unat_mod_distrib)
qed

lemma unat_and_fixstr: "unat (b AND 0x1f :: byte) = unat b mod 32"
proof -
  have "b AND 0x1f = take_bit 5 b"
    by (simp add: take_bit_eq_mask mask_eq_exp_minus_1)
  then show ?thesis by (simp add: unsigned_take_bit_eq take_bit_eq_mod unat_mod_distrib)
qed

lemma and_then_assoc: "and_then (and_then m f) g = and_then m (\<lambda>x. and_then (f x) g)"
  by (cases m) simp_all

lemma repeat_twice: "repeat_ok n (\<lambda>o'. and_then (f o') f) = repeat_ok (2 * n) f"
proof (induction n)
  case 0
  then show ?case by (simp add: fun_eq_iff)
next
  case (Suc n)
  have two: "2 * Suc n = Suc (Suc (2 * n))" by simp
  show ?case
    unfolding two repeat_ok.simps fun_eq_iff Suc.IH by (simp add: and_then_assoc)
qed

definition walk_shape :: "(nat \<Rightarrow> nat parsed) \<Rightarrow> raw_frame \<Rightarrow> mp_shape \<Rightarrow> nat \<Rightarrow> nat parsed" where
  "walk_shape skip data sh off =
     (case sh of
        Skip k \<Rightarrow> skip_bytes data off k
      | LenSkip w k \<Rightarrow> and_then (read_len w data off) (\<lambda>(n, o'). skip_bytes data o' (k + n))
      | Rep n \<Rightarrow> repeat_ok n skip off
      | LenRep w k \<Rightarrow> and_then (read_len w data off) (\<lambda>(n, o'). repeat_ok (k * n) skip o')
      | Reserved \<Rightarrow> Err (Deserialize ''encountered reserved MessagePack marker 0xc1''))"

lemma walk_shape_if:
  "walk_shape skip data (if c then a else b) off =
     (if c then walk_shape skip data a off else walk_shape skip data b off)"
  by simp

lemma skip_bytes_0 [simp]: "skip_bytes data off 0 = Ok off"
  by (simp add: skip_bytes_def)

lemma low_bits_nat:
  fixes n :: nat
  shows "0x90 \<le> n \<Longrightarrow> n \<le> 0x9f \<Longrightarrow> n mod 16 = n - 0x90"
    and "0x80 \<le> n \<Longrightarrow> n \<le> 0x8f \<Longrightarrow> n mod 16 = n - 0x80"
    and "0xa0 \<le> n \<Longrightarrow> n \<le> 0xbf \<Longrightarrow> n mod 32 = n - 0xa0"
  by (auto simp: mod_if)

lemma marker_low_bits:
  fixes b :: byte
  shows "0x90 \<le> unat b \<Longrightarrow> unat b \<le> 0x9f \<Longrightarrow> unat (b AND 0x0f) = unat b - 0x90"
    and "0x80 \<le> unat b \<Longrightarrow> unat b \<le> 0x8f \<Longrightarrow> unat (b AND 0x0f) = unat b - 0x80"
    and "0xa0 \<le> unat b \<Longrightarrow> unat b \<le> 0xbf \<Longrightarrow> unat (b AND 0x1f) = unat b - 0xa0"
  by (simp_all only: unat_and_nibble unat_and_fixstr low_bits_nat)

lemma msgpack_skip_value_shape:
  "msgpack_skip_value (Suc depth) data off =
     and_then (read_u8 data off) (\<lambda>(marker, o').
       walk_shape (msgpack_skip_value depth data) data (shape (unat marker)) o')"
  unfolding msgpack_skip_value.simps Let_def
  by (rule and_then_cong_left [OF refl], simp only: split_beta shape_def walk_shape_if)
     (simp add: walk_shape_def marker_low_bits repeat_twice lens_read_len skip_ext_def
        numeral_2_eq_2 numeral_3_eq_3 split del: if_split cong: if_cong)

section \<open>The grammar by marker\<close>

text \<open>An object is its marker followed by what the marker's shape asks for.\<close>

definition shape_body :: "mp_shape \<Rightarrow> byte list \<Rightarrow> bool" where
  "shape_body sh xs =
     (case sh of
        Skip k \<Rightarrow> length xs = k
      | LenSkip w k \<Rightarrow> \<exists>n ys. xs = be_bytes w n @ ys \<and> n < 256 ^ w \<and> length ys = k + n
      | Rep n \<Rightarrow> mp_objects n xs
      | LenRep w k \<Rightarrow> \<exists>n ys. xs = be_bytes w n @ ys \<and> n < 256 ^ w \<and> mp_objects (k * n) ys
      | Reserved \<Rightarrow> False)"

lemma shape_marks:
  "shape 0xc0 = Skip 0"
  "shape 0xc2 = Skip 0"
  "shape 0xc3 = Skip 0"
  "shape 0xcc = Skip 1"
  "shape 0xcd = Skip 2"
  "shape 0xce = Skip 4"
  "shape 0xcf = Skip 8"
  "shape 0xd0 = Skip 1"
  "shape 0xd1 = Skip 2"
  "shape 0xd2 = Skip 4"
  "shape 0xd3 = Skip 8"
  "shape 0xca = Skip 4"
  "shape 0xcb = Skip 8"
  "shape 0xd9 = LenSkip 1 0"
  "shape 0xda = LenSkip 2 0"
  "shape 0xdb = LenSkip 4 0"
  "shape 0xc4 = LenSkip 1 0"
  "shape 0xc5 = LenSkip 2 0"
  "shape 0xc6 = LenSkip 4 0"
  "shape 0xdc = LenRep 2 1"
  "shape 0xdd = LenRep 4 1"
  "shape 0xde = LenRep 2 2"
  "shape 0xdf = LenRep 4 2"
  "shape 0xd4 = Skip 2"
  "shape 0xd5 = Skip 3"
  "shape 0xd6 = Skip 5"
  "shape 0xd7 = Skip 9"
  "shape 0xd8 = Skip 17"
  "shape 0xc7 = LenSkip 1 1"
  "shape 0xc8 = LenSkip 2 1"
  "shape 0xc9 = LenSkip 4 1"
  by (simp_all add: shape_def)

lemma shape_ranges:
  "m \<le> 0x7f \<Longrightarrow> shape m = Skip 0"
  "0xe0 \<le> m \<Longrightarrow> shape m = Skip 0"
  "n \<le> 31 \<Longrightarrow> shape (0xa0 + n) = Skip n"
  "n \<le> 15 \<Longrightarrow> shape (0x90 + n) = Rep n"
  "n \<le> 15 \<Longrightarrow> shape (0x80 + n) = Rep (2 * n)"
  by (auto simp: shape_def)

lemma unat_of_nat_marker: "n \<le> 255 \<Longrightarrow> unat (of_nat n :: byte) = n"
  by (rule unat_of_nat_byte) simp

lemma shape_bodyI:
  "length xs = k \<Longrightarrow> shape_body (Skip k) xs"
  "n < 256 ^ w \<Longrightarrow> length ys = k + n \<Longrightarrow> shape_body (LenSkip w k) (be_bytes w n @ ys)"
  "mp_objects n xs \<Longrightarrow> shape_body (Rep n) xs"
  "n < 256 ^ w \<Longrightarrow> mp_objects (k * n) ys \<Longrightarrow> shape_body (LenRep w k) (be_bytes w n @ ys)"
  by (auto simp: shape_body_def)

lemma mp_object_shape: "mp_object bs \<Longrightarrow> \<exists>b xs. bs = b # xs \<and> shape_body (shape (unat b)) xs"
proof (induction bs rule: mp_object_mp_objects.inducts(1) [where ?P2.0 = "\<lambda>_ _. True"])
  case (fixstr n xs)
  then have "unat (of_nat (0xa0 + n) :: byte) = 0xa0 + n" by (intro unat_of_nat_marker) simp
  with fixstr show ?case by (simp add: shape_ranges shape_bodyI del: of_nat_add)
next
  case (fixarray n xs)
  then have "unat (of_nat (0x90 + n) :: byte) = 0x90 + n" by (intro unat_of_nat_marker) simp
  with fixarray show ?case by (simp add: shape_ranges shape_bodyI del: of_nat_add)
next
  case (fixmap n xs)
  then have "unat (of_nat (0x80 + n) :: byte) = 0x80 + n" by (intro unat_of_nat_marker) simp
  with fixmap show ?case by (simp add: shape_ranges shape_bodyI del: of_nat_add)
qed (auto simp: shape_marks shape_ranges intro!: shape_bodyI)

lemma mp_object_markers:
  "m \<in> {0xcc, 0xd0} \<Longrightarrow> length xs = 1 \<Longrightarrow> mp_object (m # xs)"
  "m \<in> {0xcd, 0xd1} \<Longrightarrow> length xs = 2 \<Longrightarrow> mp_object (m # xs)"
  "m \<in> {0xce, 0xd2, 0xca} \<Longrightarrow> length xs = 4 \<Longrightarrow> mp_object (m # xs)"
  "m \<in> {0xcf, 0xd3, 0xcb} \<Longrightarrow> length xs = 8 \<Longrightarrow> mp_object (m # xs)"
  "m \<in> {0xd9, 0xc4} \<Longrightarrow> n < 256 ^ 1 \<Longrightarrow> length ys = n \<Longrightarrow> mp_object (m # be_bytes 1 n @ ys)"
  "m \<in> {0xda, 0xc5} \<Longrightarrow> n < 256 ^ 2 \<Longrightarrow> length ys = n \<Longrightarrow> mp_object (m # be_bytes 2 n @ ys)"
  "m \<in> {0xdb, 0xc6} \<Longrightarrow> n < 256 ^ 4 \<Longrightarrow> length ys = n \<Longrightarrow> mp_object (m # be_bytes 4 n @ ys)"
  by (auto intro: mp_object_mp_objects.intros)

lemma mp_object_fixext:
  assumes "(m, n) \<in> {(0xd4, 2), (0xd5, 3), (0xd6, 5), (0xd7, 9), (0xd8, 17)}" and "length xs = n"
  shows "mp_object (m # xs)"
proof -
  obtain t ys where xs: "xs = t # ys" using assms by (cases xs) auto
  then have "(m, length ys) \<in> {(0xd4, 1), (0xd5, 2), (0xd6, 4), (0xd7, 8), (0xd8, 16)}"
    using assms by auto
  then show ?thesis unfolding xs by (rule mp_object_mp_objects.fixext) simp
qed

lemma mp_object_ext:
  assumes "(m, w) \<in> {(0xc7, 1), (0xc8, 2), (0xc9, 4)}" and "n < 256 ^ w" and "length ys = 1 + n"
  shows "mp_object (m # be_bytes w n @ ys)"
proof -
  obtain t zs where ys: "ys = t # zs" using assms(3) by (cases ys) auto
  show ?thesis unfolding ys using assms ys by (intro mp_object_mp_objects.ext) auto
qed

lemma mp_object_short:
  "0xa0 \<le> n \<Longrightarrow> n \<le> 0xbf \<Longrightarrow> length xs = n - 0xa0 \<Longrightarrow> mp_object (of_nat n # xs)"
  "0x90 \<le> n \<Longrightarrow> n \<le> 0x9f \<Longrightarrow> mp_objects (n - 0x90) xs \<Longrightarrow> mp_object (of_nat n # xs)"
  "0x80 \<le> n \<Longrightarrow> n \<le> 0x8f \<Longrightarrow> mp_objects (2 * (n - 0x80)) xs \<Longrightarrow> mp_object (of_nat n # xs)"
  using mp_object_mp_objects.fixstr [of "n - 0xa0" xs] mp_object_mp_objects.fixarray [of "n - 0x90" xs]
    mp_object_mp_objects.fixmap [of "n - 0x80" xs]
  by auto

lemma mp_object_single:
  assumes "n < 256" and "n \<le> 0x7f \<or> 0xe0 \<le> n \<or> n = 0xc0 \<or> n = 0xc2 \<or> n = 0xc3"
  shows "mp_object [of_nat n]"
  using assms
  by (auto intro: mp_object_mp_objects.intros)

text \<open>The markers with a fixed meaning, by what follows them.\<close>

definition table_markers :: "nat set" where
  "table_markers = {0xcc, 0xcd, 0xce, 0xcf, 0xd0, 0xd1, 0xd2, 0xd3, 0xca, 0xcb, 0xd9, 0xda, 0xdb,
     0xc4, 0xc5, 0xc6, 0xdc, 0xdd, 0xde, 0xdf, 0xd4, 0xd5, 0xd6, 0xd7, 0xd8, 0xc7, 0xc8, 0xc9}"

lemma shape_reserved:
  assumes "\<not> (n \<le> 0x7f \<or> 0xe0 \<le> n \<or> n = 0xc0 \<or> n = 0xc2 \<or> n = 0xc3)"
    and "\<not> (0x80 \<le> n \<and> n \<le> 0xbf)" and "n \<notin> table_markers"
  shows "shape n = Reserved"
  using assms unfolding table_markers_def shape_def by simp

lemma mp_object_table:
  assumes "n \<in> table_markers" and "shape_body (shape n) xs"
  shows "mp_object (of_nat n # xs)"
  using assms unfolding table_markers_def
  by (elim insertE emptyE; clarsimp simp only:; simp add: shape_marks; simp add: shape_body_def)
     (use mp_object_markers mp_object_fixext mp_object_ext mp_object_mp_objects.array mp_object_mp_objects.map in fastforce)+

lemma shape_mp_object:
  assumes n: "n < 256" and body: "shape_body (shape n) xs"
  shows "mp_object (of_nat n # xs)"
proof -
  have "shape n \<noteq> Reserved" using body by (auto simp: shape_body_def)
  then consider (single) "n \<le> 0x7f \<or> 0xe0 \<le> n \<or> n = 0xc0 \<or> n = 0xc2 \<or> n = 0xc3"
    | (str) "0xa0 \<le> n" "n \<le> 0xbf" | (arr) "0x90 \<le> n" "n \<le> 0x9f" | (map) "0x80 \<le> n" "n \<le> 0x8f"
    | (table) "n \<in> table_markers"
    using shape_reserved [of n] by linarith
  then show ?thesis
  proof cases
    case single
    then have "shape n = Skip 0" by (simp add: shape_def)
    then show ?thesis using body mp_object_single [OF n single] by (simp add: shape_body_def)
  next
    case str
    then have "shape n = Skip (n - 0xa0)" using shape_ranges(3) [of "n - 0xa0"] by simp
    then show ?thesis using body mp_object_short(1) [OF str] by (simp add: shape_body_def)
  next
    case arr
    then have "shape n = Rep (n - 0x90)" using shape_ranges(4) [of "n - 0x90"] by simp
    then show ?thesis using body mp_object_short(2) [OF arr] by (simp add: shape_body_def)
  next
    case map
    then have "shape n = Rep (2 * (n - 0x80))" using shape_ranges(5) [of "n - 0x80"] by simp
    then show ?thesis using body mp_object_short(3) [OF map] by (simp add: shape_body_def)
  next
    case table
    then show ?thesis using body by (rule mp_object_table)
  qed
qed

section \<open>The walk over a frame\<close>

lemma read_u8_view:
  assumes "frame_wf f"
  shows "read_u8 f off =
    (if off < raw_len f then Ok (into_bytes f ! off, Suc off) else Err eod)"
  using assms by (simp add: read_u8_def read_byte_view raw_len_into_bytes)

lemma read_len_Ok:
  assumes wf: "frame_wf f" and w: "w \<in> {1, 2, 4}"
  shows "read_len w f off = Ok (n, o') \<longleftrightarrow>
    o' = off + w \<and> o' \<le> raw_len f \<and> n < 256 ^ w \<and> seg (into_bytes f) off o' = be_bytes w n"
proof -
  let ?B = "into_bytes f"
  note [simp] = raw_len_into_bytes [OF wf]
  have seg_cons: "seg ?B off (off + k) = ?B ! off # seg ?B (Suc off) (off + k)"
    if "off < length ?B" "0 < k" for off k
    using that by (simp add: seg_Cons)
  consider "w = 1" | "w = 2" | "w = 4" using w by auto
  then show ?thesis
  proof cases
    case 1
    have "seg ?B off (off + 1) = [?B ! off]" if "off < length ?B"
      using that by (simp add: seg_Cons)
    then show ?thesis
      using 1 wf be_bytes_u8 [of n "?B ! off"]
      by (auto simp: read_len_def len8_def read_u8_view Suc_le_eq)
  next
    case 2
    have "seg ?B off (off + 2) = [?B ! off, ?B ! Suc off]" if "Suc off < length ?B"
      using that by (simp add: seg_Cons)
    then show ?thesis
      using 2 wf be_bytes_u16 [of n "?B ! off" "?B ! Suc off"]
        unsigned_less [of "u16_from_be_bytes (?B ! off) (?B ! Suc off)", where ?'a = nat]
      by (auto simp: read_len_def len16_def read_u16_def read_byte_view outcome_simps split: if_splits)
  next
    case 3
    let ?v = "u32_from_be_bytes (?B ! off) (?B ! Suc off) (?B ! (off + 2)) (?B ! (off + 3))"
    have v: "unat ?v < 4294967296" using unsigned_less [of ?v, where ?'a = nat] by simp
    then have "u32_to_usize ?v = Ok (unat ?v)" by (simp add: u32_to_usize_def usize_max_def)
    moreover have "seg ?B off (off + 4) = [?B ! off, ?B ! Suc off, ?B ! (off + 2), ?B ! (off + 3)]"
      if "off + 3 < length ?B"
      using that by (simp add: seg_Cons numeral_eq_Suc)
    ultimately show ?thesis
      using 3 wf v be_bytes_u32 [of n "?B ! off" "?B ! Suc off" "?B ! (off + 2)" "?B ! (off + 3)"]
      by (auto simp: read_len_def len32_def read_u32_def read_byte_view outcome_simps split: if_splits)
  qed
qed

lemma read_len_no_panic: "frame_wf f \<Longrightarrow> read_len w f off \<noteq> Panic"
  by (auto simp: read_len_def len8_def len16_def len32_def read_u8_view read_u16_def read_u32_def
      u32_to_usize_def outcome_simps raw.read_no_panic)

lemma shape_len_width: "shape m = LenSkip w k \<or> shape m = LenRep w k \<Longrightarrow> w \<in> {1, 2, 4}"
  by (auto simp: shape_def split: if_splits)

subsection \<open>Soundness\<close>

text \<open>What a walk that returns has passed over.\<close>

definition walked :: "raw_frame \<Rightarrow> nat \<Rightarrow> nat \<Rightarrow> bool" where
  "walked f off off' =
     (off < off' \<and> off' \<le> raw_len f \<and> mp_object (seg (into_bytes f) off off'))"

lemma skip_bytes_Ok:
  "off \<le> raw_len f \<Longrightarrow> skip_bytes f off k = Ok o' \<longleftrightarrow> o' = off + k \<and> o' \<le> raw_len f"
  by (auto simp: skip_bytes_def)

lemma repeat_walked:
  assumes step: "\<And>o1 o2. skip o1 = Ok o2 \<Longrightarrow> walked f o1 o2"
    and "repeat_ok n skip off = Ok off'" and "off \<le> raw_len f"
  shows "off \<le> off' \<and> off' \<le> raw_len f \<and> mp_objects n (seg (into_bytes f) off off')"
  using assms(2,3)
proof (induction n arbitrary: off)
  case 0
  then show ?case by (simp add: mp_object_mp_objects.none)
next
  case (Suc n)
  then obtain o1 where o1: "skip off = Ok o1" "repeat_ok n skip o1 = Ok off'"
    by (auto simp: outcome_simps)
  from step [OF o1(1)] have w: "off < o1" "o1 \<le> raw_len f" "mp_object (seg (into_bytes f) off o1)"
    by (auto simp: walked_def)
  from Suc.IH [OF o1(2) w(2)] have IH: "o1 \<le> off'" "off' \<le> raw_len f"
    "mp_objects n (seg (into_bytes f) o1 off')" by auto
  have "mp_objects (Suc n) (seg (into_bytes f) off o1 @ seg (into_bytes f) o1 off')"
    using w(3) IH(3) by (rule mp_object_mp_objects.more)
  with w IH show ?case by (simp add: seg_append)
qed

lemma walk_shape_sound:
  assumes wf: "frame_wf f" and step: "\<And>o1 o2. skip o1 = Ok o2 \<Longrightarrow> walked f o1 o2"
    and w: "\<And>w k. sh = LenSkip w k \<or> sh = LenRep w k \<Longrightarrow> w \<in> {1, 2, 4}"
    and run: "walk_shape skip f sh off = Ok off'" and off: "off \<le> raw_len f"
  shows "off \<le> off' \<and> off' \<le> raw_len f \<and> shape_body sh (seg (into_bytes f) off off')"
proof (cases sh)
  case (Skip k)
  with run off show ?thesis
    by (auto simp: walk_shape_def skip_bytes_Ok shape_body_def raw_len_into_bytes [OF wf])
next
  case (LenSkip x k)
  then obtain n o1 where o1: "read_len x f off = Ok (n, o1)" and "skip_bytes f o1 (k + n) = Ok off'"
    using run by (auto simp: walk_shape_def outcome_simps)
  have x: "x \<in> {1, 2, 4}" using w LenSkip by blast
  from o1 read_len_Ok [OF wf x] have r: "off \<le> o1" "o1 \<le> raw_len f" "n < 256 ^ x"
    "seg (into_bytes f) off o1 = be_bytes x n" by auto
  have s: "off' = o1 + (k + n)" "off' \<le> raw_len f"
    using \<open>skip_bytes f o1 (k + n) = Ok off'\<close> r(2) by (auto simp: skip_bytes_Ok)
  have "seg (into_bytes f) off off' = be_bytes x n @ seg (into_bytes f) o1 off'"
    using r s seg_append [of off o1 off' "into_bytes f"] by simp
  with r s LenSkip show ?thesis
    by (auto simp: raw_len_into_bytes [OF wf] intro!: shape_bodyI)
next
  case (Rep n)
  with run repeat_walked [OF step _ off] show ?thesis
    by (auto simp: walk_shape_def shape_body_def)
next
  case (LenRep x k)
  then obtain n o1 where o1: "read_len x f off = Ok (n, o1)" and rep: "repeat_ok (k * n) skip o1 = Ok off'"
    using run by (auto simp: walk_shape_def outcome_simps)
  have x: "x \<in> {1, 2, 4}" using w LenRep by blast
  from o1 read_len_Ok [OF wf x] have r: "off \<le> o1" "o1 \<le> raw_len f" "n < 256 ^ x"
    "seg (into_bytes f) off o1 = be_bytes x n" by auto
  from repeat_walked [OF step rep r(2)] have s: "o1 \<le> off'" "off' \<le> raw_len f"
    "mp_objects (k * n) (seg (into_bytes f) o1 off')" by auto
  have "seg (into_bytes f) off off' = be_bytes x n @ seg (into_bytes f) o1 off'"
    using r s seg_append [of off o1 off' "into_bytes f"] by simp
  with r s LenRep show ?thesis by (auto intro!: shape_bodyI)
next
  case Reserved
  with run show ?thesis by (simp add: walk_shape_def)
qed

lemma msgpack_skip_value_sound:
  assumes wf: "frame_wf f"
  shows "msgpack_skip_value d f off = Ok off' \<Longrightarrow> walked f off off'"
proof (induction d arbitrary: off off')
  case 0
  then show ?case by simp
next
  case (Suc d)
  from Suc.prems have off: "off < raw_len f"
    and run: "walk_shape (msgpack_skip_value d f) f (shape (unat (into_bytes f ! off))) (Suc off) = Ok off'"
    by (auto simp: msgpack_skip_value_shape read_u8_view [OF wf] split: if_splits simp del: msgpack_skip_value.simps)
  let ?b = "into_bytes f ! off"
  have s: "Suc off \<le> off'" "off' \<le> raw_len f"
    "shape_body (shape (unat ?b)) (seg (into_bytes f) (Suc off) off')"
    using walk_shape_sound [OF wf _ _ run] Suc.IH shape_len_width [of "unat ?b"] off by auto
  then have "mp_object (of_nat (unat ?b) # seg (into_bytes f) (Suc off) off')"
    by (intro shape_mp_object) auto
  moreover have "seg (into_bytes f) off off' = ?b # seg (into_bytes f) (Suc off) off'"
    using off s by (simp add: seg_Cons raw_len_into_bytes [OF wf])
  ultimately show ?case using s by (simp add: walked_def)
qed

subsection \<open>Completeness\<close>

lemma mp_object_nonempty: "mp_object bs \<Longrightarrow> bs \<noteq> []"
  using mp_object_shape by blast

lemma repeat_complete:
  assumes step: "\<And>ys o1. mp_object ys \<Longrightarrow> length ys \<le> length xs \<Longrightarrow>
       o1 + length ys \<le> raw_len f \<Longrightarrow> seg (into_bytes f) o1 (o1 + length ys) = ys \<Longrightarrow>
       skip o1 = Ok (o1 + length ys)"
    and "mp_objects n xs" and "off + length xs \<le> raw_len f"
    and "seg (into_bytes f) off (off + length xs) = xs"
  shows "repeat_ok n skip off = Ok (off + length xs)"
  using assms(2,3,4,1)
proof (induction n arbitrary: off xs)
  case 0
  then show ?case by (auto elim: mp_objects_0E)
next
  case (Suc n)
  from Suc.prems(1) obtain x ys where xs: "xs = x @ ys" "mp_object x" "mp_objects n ys"
    by (auto elim: mp_objects_SucE)
  have parts: "seg (into_bytes f) off (off + length x) = x"
    "seg (into_bytes f) (off + length x) (off + length x + length ys) = ys"
  proof -
    obtain zs where "drop off (into_bytes f) = x @ ys @ zs"
      using Suc.prems(3) unfolding seg_prefix xs(1) by auto
    moreover from this have "drop (off + length x) (into_bytes f) = ys @ zs"
      by (metis add.commute append_eq_conv_conj drop_drop)
    ultimately show "seg (into_bytes f) off (off + length x) = x"
      "seg (into_bytes f) (off + length x) (off + length x + length ys) = ys"
      unfolding seg_prefix by auto
  qed
  have "skip off = Ok (off + length x)"
    using Suc.prems(4) [OF xs(2) _ _ parts(1)] Suc.prems(2) xs(1) by simp
  moreover have "repeat_ok n skip (off + length x) = Ok (off + length x + length ys)"
    using Suc.IH [OF xs(3) _ parts(2)] Suc.prems(2,4) xs(1) by simp
  ultimately show ?case using xs(1) by (simp add: add.assoc)
qed

lemma seg_tail:
  assumes "seg B off (off + length (x # xs)) = x # xs" and "off + length (x # xs) \<le> length B"
  shows "B ! off = x" and "seg B (Suc off) (Suc off + length xs) = xs"
proof -
  have "seg B off (off + length (x # xs)) = B ! off # seg B (Suc off) (off + length (x # xs))"
    using assms(2) by (intro seg_Cons) auto
  with assms(1) show "B ! off = x" "seg B (Suc off) (Suc off + length xs) = xs" by auto
qed

lemma seg_split:
  assumes "seg B off (off + length (xs @ ys)) = xs @ ys"
  shows "seg B off (off + length xs) = xs"
    and "seg B (off + length xs) (off + length xs + length ys) = ys"
proof -
  obtain zs where zs: "drop off B = xs @ ys @ zs"
    using assms unfolding seg_prefix by auto
  moreover from zs have "drop (off + length xs) B = ys @ zs"
    by (metis add.commute append_eq_conv_conj drop_drop)
  ultimately show "seg B off (off + length xs) = xs"
    "seg B (off + length xs) (off + length xs + length ys) = ys"
    unfolding seg_prefix by auto
qed

lemma walk_shape_complete:
  assumes wf: "frame_wf f"
    and step: "\<And>ys o1. mp_object ys \<Longrightarrow> length ys \<le> length xs \<Longrightarrow>
       o1 + length ys \<le> raw_len f \<Longrightarrow> seg (into_bytes f) o1 (o1 + length ys) = ys \<Longrightarrow>
       skip o1 = Ok (o1 + length ys)"
    and w: "\<And>w k. sh = LenSkip w k \<or> sh = LenRep w k \<Longrightarrow> w \<in> {1, 2, 4}"
    and body: "shape_body sh xs" and off: "off + length xs \<le> raw_len f"
    and seg: "seg (into_bytes f) off (off + length xs) = xs"
  shows "walk_shape skip f sh off = Ok (off + length xs)"
proof (cases sh)
  case (Skip k)
  with body off show ?thesis by (simp add: walk_shape_def shape_body_def skip_bytes_def)
next
  case (LenSkip x k)
  then obtain n ys where xs: "xs = be_bytes x n @ ys" "n < 256 ^ x" "length ys = k + n"
    using body by (auto simp: shape_body_def)
  have "read_len x f off = Ok (n, off + x)"
    using seg_split [of "into_bytes f" off "be_bytes x n" ys] seg off w xs LenSkip
    by (subst read_len_Ok [OF wf]) auto
  with LenSkip xs off show ?thesis by (simp add: walk_shape_def skip_bytes_def)
next
  case (Rep n)
  with body have "mp_objects n xs" by (simp add: shape_body_def)
  then have "repeat_ok n skip off = Ok (off + length xs)"
    using off seg by (intro repeat_complete step)
  with Rep show ?thesis by (simp add: walk_shape_def)
next
  case (LenRep x k)
  then obtain n ys where xs: "xs = be_bytes x n @ ys" "n < 256 ^ x" "mp_objects (k * n) ys"
    using body by (auto simp: shape_body_def)
  note parts = seg_split [of "into_bytes f" off "be_bytes x n" ys]
  have "read_len x f off = Ok (n, off + x)"
    using parts seg off w xs LenRep by (subst read_len_Ok [OF wf]) auto
  moreover have "repeat_ok (k * n) skip (off + x) = Ok (off + x + length ys)"
    using parts(2) seg off xs by (intro repeat_complete step) auto
  ultimately show ?thesis using LenRep xs by (simp add: walk_shape_def)
next
  case Reserved
  with body show ?thesis by (simp add: shape_body_def)
qed

lemma msgpack_skip_value_complete:
  assumes wf: "frame_wf f"
  shows "mp_object bs \<Longrightarrow> length bs \<le> d \<Longrightarrow> off + length bs \<le> raw_len f \<Longrightarrow>
    seg (into_bytes f) off (off + length bs) = bs \<Longrightarrow>
    msgpack_skip_value d f off = Ok (off + length bs)"
proof (induction d arbitrary: bs off)
  case 0
  then show ?case using mp_object_nonempty by auto
next
  case (Suc d)
  obtain b xs where bs: "bs = b # xs" "shape_body (shape (unat b)) xs"
    using mp_object_shape [OF Suc.prems(1)] by blast
  have tail: "into_bytes f ! off = b" "seg (into_bytes f) (Suc off) (Suc off + length xs) = xs"
    using seg_tail [of "into_bytes f" off b xs] Suc.prems(3,4) bs(1) raw_len_into_bytes [OF wf] by auto
  have "walk_shape (msgpack_skip_value d f) f (shape (unat b)) (Suc off) = Ok (Suc off + length xs)"
  proof (rule walk_shape_complete [OF wf _ _ bs(2) _ tail(2)])
    fix ys o1
    assume "mp_object ys" "length ys \<le> length xs" "o1 + length ys \<le> raw_len f"
      "seg (into_bytes f) o1 (o1 + length ys) = ys"
    then show "msgpack_skip_value d f o1 = Ok (o1 + length ys)"
      using Suc.IH Suc.prems(2) bs(1) by simp
  next
    show "\<And>w k. shape (unat b) = LenSkip w k \<or> shape (unat b) = LenRep w k \<Longrightarrow> w \<in> {1, 2, 4}"
      by (rule shape_len_width)
    show "Suc off + length xs \<le> raw_len f" using Suc.prems(3) bs(1) by simp
  qed
  then show ?case
    using Suc.prems(3) tail(1) bs(1)
    by (simp add: msgpack_skip_value_shape read_u8_view [OF wf] del: msgpack_skip_value.simps)
qed

subsection \<open>Depth\<close>

lemma repeat_no_panic:
  fixes off :: nat
  assumes "\<And>o1. off \<le> o1 \<Longrightarrow> skip o1 \<noteq> Panic" and "\<And>o1 o2. skip o1 = Ok o2 \<Longrightarrow> o1 \<le> o2"
  shows "repeat_ok n skip off \<noteq> Panic"
  using assms
proof (induction n arbitrary: off)
  case 0
  then show ?case by simp
next
  case (Suc n)
  have "skip off \<noteq> Panic" by (rule Suc.prems(1)) simp
  moreover have "repeat_ok n skip x \<noteq> Panic" if "skip off = Ok x" for x
    using Suc.prems(2) [OF that] Suc.prems by (intro Suc.IH) auto
  ultimately show ?case by (auto simp: outcome_simps)
qed

lemma walk_shape_no_panic:
  assumes wf: "frame_wf f" and "\<And>o1. off \<le> o1 \<Longrightarrow> skip o1 \<noteq> Panic"
    and "\<And>o1 o2. skip o1 = Ok o2 \<Longrightarrow> o1 \<le> o2"
    and w: "\<And>w k. sh = LenSkip w k \<or> sh = LenRep w k \<Longrightarrow> w \<in> {1, 2, 4}"
  shows "walk_shape skip f sh off \<noteq> Panic"
proof (cases sh)
  case (LenRep x k)
  then have "off \<le> o1" if "read_len x f off = Ok (n, o1)" for n o1
    using that w read_len_Ok [OF wf] by fastforce
  then have "repeat_ok (k * n) skip o1 \<noteq> Panic" if "read_len x f off = Ok (n, o1)" for n o1
    using that assms(2,3) by (intro repeat_no_panic) (auto dest: order_trans)
  with LenRep show ?thesis
    by (auto simp: walk_shape_def outcome_simps read_len_no_panic [OF wf])
qed (use assms in \<open>auto simp: walk_shape_def outcome_simps read_len_no_panic [OF wf] skip_bytes_def
      repeat_no_panic\<close>)

lemma msgpack_skip_value_no_panic:
  assumes wf: "frame_wf f"
  shows "raw_len f - off < d \<Longrightarrow> msgpack_skip_value d f off \<noteq> Panic"
proof (induction d arbitrary: off)
  case 0
  then show ?case by simp
next
  case (Suc d)
  have "walk_shape (msgpack_skip_value d f) f (shape (unat b)) (Suc off) \<noteq> Panic"
    if "off < raw_len f" for b :: byte
  proof (rule walk_shape_no_panic [OF wf])
    show "msgpack_skip_value d f o1 \<noteq> Panic" if "Suc off \<le> o1" for o1
      using Suc that \<open>off < raw_len f\<close> by auto
    show "o1 \<le> o2" if "msgpack_skip_value d f o1 = Ok o2" for o1 o2
      using msgpack_skip_value_sound [OF wf that] by (simp add: walked_def)
  qed (rule shape_len_width)
  then show ?case
    by (auto simp: msgpack_skip_value_shape read_u8_view [OF wf] simp del: msgpack_skip_value.simps)
qed

subsection \<open>Frames with the same bytes\<close>

lemma msgpack_skip_value_cong:
  assumes "frame_wf f" and "frame_wf g" and "into_bytes f = into_bytes g"
  shows "msgpack_skip_value d f off = msgpack_skip_value d g off"
proof (induction d arbitrary: off)
  case 0
  then show ?case by simp
next
  case (Suc d)
  have len: "raw_len f = raw_len g" using assms by (rule raw.len_cong)
  have read: "read_byte f = read_byte g" using raw.read_cong [OF assms] by (simp add: fun_eq_iff)
  have skip: "skip_bytes f = skip_bytes g" by (simp add: fun_eq_iff skip_bytes_def len)
  have rl: "read_len w f = read_len w g" for w
    by (simp add: fun_eq_iff read_len_def len8_def len16_def len32_def read_u8_def read_u16_def
        read_u32_def read)
  have sub: "msgpack_skip_value d f = msgpack_skip_value d g" using Suc by (simp add: fun_eq_iff)
  show ?case
    unfolding msgpack_skip_value_shape walk_shape_def skip rl read_u8_def read sub by (rule refl)
qed

lemma msgpack_skip_value_iff:
  assumes wf: "frame_wf f"
  shows "msgpack_skip_value (Suc (raw_len f)) f off = Ok off' \<longleftrightarrow> walked f off off'"
proof
  assume "msgpack_skip_value (Suc (raw_len f)) f off = Ok off'"
  then show "walked f off off'" by (rule msgpack_skip_value_sound [OF wf])
next
  assume w: "walked f off off'"
  then have len: "length (seg (into_bytes f) off off') = off' - off"
    by (simp add: walked_def raw_len_into_bytes [OF wf])
  show "msgpack_skip_value (Suc (raw_len f)) f off = Ok off'"
    using msgpack_skip_value_complete [OF wf, of "seg (into_bytes f) off off'" "Suc (raw_len f)" off] w len
    by (simp add: walked_def del: msgpack_skip_value.simps)
qed

end
