(* ===== verification/Msgpack_Messages.thy ===== *)
theory Msgpack_Messages
  imports Msgpack_Grammar
begin

text \<open>
  What the MessagePack parser guarantees of a whole message: the accepted frames are
  single well-formed MessagePack arrays, the payload it hands on is a verbatim part
  of the frame, the message has the code on the wire, segmentation of the frame is
  invisible, and no input makes it panic.
\<close>

lemma map_ok_and_then: "map_ok h (and_then m g) = and_then m (\<lambda>x. map_ok h (g x))"
  by (cases m) auto

section \<open>The ranges of a frame\<close>

definition ranges_ok :: "raw_frame \<Rightarrow> byte_range list \<Rightarrow> bool" where
  "ranges_ok f rs = (\<forall>(a, b) \<in> set rs. walked f a b)"

lemma ranges_okD: "ranges_ok f rs \<Longrightarrow> (a, b) \<in> set rs \<Longrightarrow> walked f a b"
  by (auto simp: ranges_ok_def)

lemma read_ranges_Ok:
  assumes wf: "frame_wf f"
  shows "read_ranges d n f off rs = Ok (rs', off') \<Longrightarrow> off \<le> raw_len f \<Longrightarrow> ranges_ok f rs \<Longrightarrow>
    ranges_ok f rs' \<and> length rs' = length rs + n \<and> off \<le> off' \<and> off' \<le> raw_len f
    \<and> mp_objects n (seg (into_bytes f) off off')"
proof (induction n arbitrary: off rs)
  case 0
  then show ?case by (auto intro: mp_object_mp_objects.none)
next
  case (Suc n)
  then obtain o1 where skip: "msgpack_skip_value d f off = Ok o1"
    and rest: "read_ranges d n f o1 (rs @ [(off, o1)]) = Ok (rs', off')"
    by (auto simp: msgpack_read_value_range_def outcome_simps)
  have w: "walked f off o1" using skip by (rule msgpack_skip_value_sound [OF wf])
  then have ok: "ranges_ok f (rs @ [(off, o1)])" "o1 \<le> raw_len f" "off < o1"
    using Suc.prems(3) by (auto simp: ranges_ok_def walked_def)
  from Suc.IH [OF rest ok(2,1)] have IH: "ranges_ok f rs'" "length rs' = length rs + Suc n" "o1 \<le> off'"
    "off' \<le> raw_len f" "mp_objects n (seg (into_bytes f) o1 off')" by auto
  have "mp_objects (Suc n) (seg (into_bytes f) off o1 @ seg (into_bytes f) o1 off')"
    using w IH(5) by (auto simp: walked_def intro: mp_object_mp_objects.more)
  with IH ok(3) show ?case by (simp add: seg_append)
qed

lemma read_ranges_no_panic:
  assumes wf: "frame_wf f"
  shows "raw_len f < d \<Longrightarrow> read_ranges d n f off rs \<noteq> Panic"
proof (induction n arbitrary: off rs)
  case 0
  then show ?case by simp
next
  case (Suc n)
  have "msgpack_skip_value d f off \<noteq> Panic"
    using Suc.prems by (intro msgpack_skip_value_no_panic [OF wf]) simp
  with Suc show ?case
    by (auto simp: msgpack_read_value_range_def outcome_simps)
qed

lemma read_ranges_cong:
  assumes "frame_wf f" and "frame_wf g" and "into_bytes f = into_bytes g"
  shows "read_ranges d n f off rs = read_ranges d n g off rs"
  by (induction n arbitrary: off rs)
     (simp_all add: msgpack_read_value_range_def msgpack_skip_value_cong [OF assms])

section \<open>The array header\<close>

lemma array_len_shape:
  "msgpack_read_array_len f off =
     and_then (map_err (\<lambda>_. ExpectedArray) (read_u8 f off)) (\<lambda>(marker, o').
       if 0x90 \<le> unat marker \<and> unat marker \<le> 0x9f then Ok (unat marker - 0x90, o')
       else if unat marker = 0xdc then read_len 2 f o'
       else if unat marker = 0xdd then read_len 4 f o'
       else Err ExpectedArray)"
  unfolding msgpack_read_array_len_def Let_def
  by (rule and_then_cong_left [OF refl])
     (auto simp: marker_low_bits read_len_def split: prod.splits)

lemma array_len_Ok:
  assumes wf: "frame_wf f" and hdr: "msgpack_read_array_len f 0 = Ok (n, off)"
  shows "0 < off \<and> off \<le> raw_len f \<and>
    (\<forall>xs. mp_objects n xs \<longrightarrow> mp_object (seg (into_bytes f) 0 off @ xs))"
proof -
  let ?b = "into_bytes f ! 0"
  have len: "0 < raw_len f"
    using hdr by (auto simp: array_len_shape read_u8_view [OF wf] split: if_splits)
  have cons: "seg (into_bytes f) 0 off = ?b # seg (into_bytes f) (Suc 0) off" if "0 < off"
    using that len by (simp add: seg_Cons raw_len_into_bytes [OF wf])
  have obj: "mp_object (?b # ys)" if "shape_body (shape (unat ?b)) ys" for ys
    using shape_mp_object [OF unat_byte_lt that] by simp
  consider (short) "0x90 \<le> unat ?b" "unat ?b \<le> 0x9f" "n = unat ?b - 0x90" "off = Suc 0"
    | (a16) "unat ?b = 0xdc" "read_len 2 f (Suc 0) = Ok (n, off)"
    | (a32) "unat ?b = 0xdd" "read_len 4 f (Suc 0) = Ok (n, off)"
    using hdr len by (auto simp: array_len_shape read_u8_view [OF wf] split: if_splits)
  then show ?thesis
  proof cases
    case short
    then have "shape (unat ?b) = Rep n" using shape_ranges(4) [of "unat ?b - 0x90"] by simp
    with short len cons obj show ?thesis by (auto intro: shape_bodyI)
  next
    case a16
    then have r: "off = Suc 0 + 2" "off \<le> raw_len f" "n < 256 ^ 2" "seg (into_bytes f) (Suc 0) off = be_bytes 2 n"
      using read_len_Ok [OF wf, of 2] by auto
    have "mp_object (?b # be_bytes 2 n @ xs)" if "mp_objects n xs" for xs
      using a16 r that by (intro obj) (auto simp: shape_marks intro!: shape_bodyI)
    with r cons show ?thesis by auto
  next
    case a32
    then have r: "off = Suc 0 + 4" "off \<le> raw_len f" "n < 256 ^ 4" "seg (into_bytes f) (Suc 0) off = be_bytes 4 n"
      using read_len_Ok [OF wf, of 4] by auto
    have "mp_object (?b # be_bytes 4 n @ xs)" if "mp_objects n xs" for xs
      using a32 r that by (intro obj) (auto simp: shape_marks intro!: shape_bodyI)
    with r cons show ?thesis by auto
  qed
qed

lemma array_len_is_array:
  assumes wf: "frame_wf f" and hdr: "msgpack_read_array_len f 0 = Ok (n, off)"
  shows "msgpack_is_array (into_bytes f)"
  using hdr
  by (auto simp: array_len_shape read_u8_view [OF wf] msgpack_is_array_def first_byte_def nth_opt_def
      raw_len_into_bytes [OF wf] split: if_splits)

lemma array_len_no_panic: "frame_wf f \<Longrightarrow> msgpack_read_array_len f off \<noteq> Panic"
  by (auto simp: array_len_shape read_u8_view outcome_simps read_len_no_panic split: if_splits)

lemma array_len_cong:
  assumes "frame_wf f" and "frame_wf g" and "into_bytes f = into_bytes g"
  shows "msgpack_read_array_len f off = msgpack_read_array_len g off"
proof -
  have read: "read_byte f = read_byte g" using raw.read_cong [OF assms] by (simp add: fun_eq_iff)
  show ?thesis
    unfolding msgpack_read_array_len_def len16_def len32_def read_u8_def read_u16_def read_u32_def read
    by (rule refl)
qed

section \<open>Fields\<close>

lemma slice_walked:
  assumes "frame_wf f" and "walked f a b"
  shows "slice_or_copy f (a, b) = Ok (seg (into_bytes f) a b)"
  using assms raw.slice_in [of f a b] by (simp add: walked_def seg_def raw_len_into_bytes)

lemma mp_fields_cong:
  assumes eq: "frame_wf f" "frame_wf g" "into_bytes f = into_bytes g" and ok: "ranges_ok f rs"
  shows "mp_string lib f rs i l = mp_string lib g rs i l"
    and "mp_u64 lib f rs i l = mp_u64 lib g rs i l"
    and "mp_map lib f rs i l = mp_map lib g rs i l"
    and "mp_opt_map lib f rs i l = mp_opt_map lib g rs i l"
    and "mp_opt_u64 lib f rs i l = mp_opt_u64 lib g rs i l"
    and "mp_payload f rs l i l' j = mp_payload g rs l i l' j"
    and "collect_ok (msgpack_value lib f) (drop 1 rs) = collect_ok (msgpack_value lib g) (drop 1 rs)"
proof -
  have slice: "slice_or_copy f r = slice_or_copy g r" if "r \<in> set rs" for r
    using raw.slice_cong [OF eq, of "fst r" "snd r"] ranges_okD [OF ok, of "fst r" "snd r"] that
    by (simp add: walked_def)
  have nth: "slice_or_copy f r = slice_or_copy g r" if "nth_opt rs i = Some r" for r i
    using slice nth_opt_in_set [OF that] by blast
  note one = mp_string_def mp_u64_def mp_map_def range_at_def msgpack_string_def msgpack_u64_def
    msgpack_required_map_def mp_opt_map_def mp_opt_u64_def msgpack_optional_map_def
    msgpack_optional_u64_def
  have fields: "mp_string lib f rs i l = mp_string lib g rs i l \<and> mp_u64 lib f rs i l = mp_u64 lib g rs i l
      \<and> mp_map lib f rs i l = mp_map lib g rs i l \<and> mp_opt_map lib f rs i l = mp_opt_map lib g rs i l
      \<and> mp_opt_u64 lib f rs i l = mp_opt_u64 lib g rs i l"
  proof (cases "nth_opt rs i")
    case None
    then show ?thesis by (simp add: one)
  next
    case (Some r)
    show ?thesis by (simp add: one Some nth [OF Some] cong: if_cong)
  qed
  then show "mp_string lib f rs i l = mp_string lib g rs i l"
    "mp_u64 lib f rs i l = mp_u64 lib g rs i l"
    "mp_map lib f rs i l = mp_map lib g rs i l"
    "mp_opt_map lib f rs i l = mp_opt_map lib g rs i l"
    "mp_opt_u64 lib f rs i l = mp_opt_u64 lib g rs i l"
    by simp_all
  have part: "msgpack_payload_part f k e (nth_opt rs i) = msgpack_payload_part g k e (nth_opt rs i)" for k e i
    unfolding msgpack_payload_part_def using nth [of i] by (cases "nth_opt rs i") (simp_all cong: if_cong)
  show "mp_payload f rs l i l' j = mp_payload g rs l i l' j"
    unfolding mp_payload_def msgpack_payload_def part by (rule refl)
  show "collect_ok (msgpack_value lib f) (drop 1 rs) = collect_ok (msgpack_value lib g) (drop 1 rs)"
    by (intro collect_ok_cong) (simp add: msgpack_value_def slice in_set_dropD)
qed

lemma msgpack_dispatch_cong:
  assumes "frame_wf f" "frame_wf g" "into_bytes f = into_bytes g" "ranges_ok f rs"
  shows "msgpack_dispatch lib f code rs = msgpack_dispatch lib g code rs"
  unfolding msgpack_dispatch_def msgpack_reader_defs mp_fields_cong [OF assms] by (rule refl)

section \<open>Codes\<close>

lemma msgpack_code_session:
  shows "msgpack_hello lib f rs = Ok m \<Longrightarrow> message_code m = 1"
    and "msgpack_welcome lib f rs = Ok m \<Longrightarrow> message_code m = 2"
    and "msgpack_abort lib f rs = Ok m \<Longrightarrow> message_code m = 3"
    and "msgpack_challenge lib f rs = Ok m \<Longrightarrow> message_code m = 4"
    and "msgpack_authenticate lib f rs = Ok m \<Longrightarrow> message_code m = 5"
    and "msgpack_goodbye lib f rs = Ok m \<Longrightarrow> message_code m = 6"
    and "msgpack_heartbeat lib f rs = Ok m \<Longrightarrow> message_code m = 7"
    and "msgpack_error lib f rs = Ok m \<Longrightarrow> message_code m = 8"
  by (auto simp: msgpack_reader_defs outcome_simps)

lemma msgpack_code_pubsub:
  shows "msgpack_publish lib f rs = Ok m \<Longrightarrow> message_code m = 16"
    and "msgpack_published lib f rs = Ok m \<Longrightarrow> message_code m = 17"
    and "msgpack_subscribe lib f rs = Ok m \<Longrightarrow> message_code m = 32"
    and "msgpack_subscribed lib f rs = Ok m \<Longrightarrow> message_code m = 33"
    and "msgpack_unsubscribe lib f rs = Ok m \<Longrightarrow> message_code m = 34"
    and "msgpack_unsubscribed lib f rs = Ok m \<Longrightarrow> message_code m = 35"
    and "msgpack_event lib f rs = Ok m \<Longrightarrow> message_code m = 36"
  by (auto simp: msgpack_reader_defs outcome_simps)

lemma msgpack_code_rpc:
  shows "msgpack_call lib f rs = Ok m \<Longrightarrow> message_code m = 48"
    and "msgpack_cancel lib f rs = Ok m \<Longrightarrow> message_code m = 49"
    and "msgpack_result lib f rs = Ok m \<Longrightarrow> message_code m = 50"
    and "msgpack_register lib f rs = Ok m \<Longrightarrow> message_code m = 64"
    and "msgpack_registered lib f rs = Ok m \<Longrightarrow> message_code m = 65"
    and "msgpack_unregister lib f rs = Ok m \<Longrightarrow> message_code m = 66"
    and "msgpack_unregistered lib f rs = Ok m \<Longrightarrow> message_code m = 67"
    and "msgpack_invocation lib f rs = Ok m \<Longrightarrow> message_code m = 68"
    and "msgpack_interrupt lib f rs = Ok m \<Longrightarrow> message_code m = 69"
    and "msgpack_yield lib f rs = Ok m \<Longrightarrow> message_code m = 70"
    and "msgpack_unknown lib f code rs = Ok m \<Longrightarrow> message_code m = code"
  by (auto simp: msgpack_reader_defs outcome_simps)

lemmas msgpack_codes = msgpack_code_session msgpack_code_pubsub msgpack_code_rpc

lemma msgpack_dispatch_code: "msgpack_dispatch lib f code rs = Ok m \<Longrightarrow> message_code m = code"
  unfolding msgpack_dispatch_def by (auto dest: msgpack_codes split: if_splits)

section \<open>Payloads\<close>

text \<open>A payload of a frame: each part is a verbatim piece of it, one MessagePack object
  of the right kind.\<close>

definition payload_of_frame :: "byte list \<Rightarrow> payload \<Rightarrow> bool" where
  "payload_of_frame bytes p =
     ((\<forall>bs. args p = Some bs \<longrightarrow> (\<exists>us vs. bytes = us @ bs @ vs) \<and> mp_object bs \<and> msgpack_is_array bs)
    \<and> (\<forall>bs. kwargs p = Some bs \<longrightarrow> (\<exists>us vs. bytes = us @ bs @ vs) \<and> mp_object bs \<and> msgpack_is_map bs)
    \<and> transparent p = None)"

lemma payload_part_Ok:
  assumes wf: "frame_wf f" and ok: "ranges_ok f rs"
    and part: "msgpack_payload_part f kind e (nth_opt rs i) = Ok (Some bs)"
  shows "(\<exists>us vs. into_bytes f = us @ bs @ vs) \<and> mp_object bs \<and> kind bs"
proof -
  obtain a b where r: "nth_opt rs i = Some (a, b)"
    using part by (cases "nth_opt rs i") (auto simp: msgpack_payload_part_def)
  have w: "walked f a b" using ranges_okD [OF ok nth_opt_in_set [OF r]] .
  have "bs = seg (into_bytes f) a b" "kind bs"
    using part slice_walked [OF wf w] r by (auto simp: msgpack_payload_part_def split: if_splits)
  then show ?thesis using w seg_infix [of "into_bytes f" a b] by (simp add: walked_def)
qed

lemma mp_payload_Ok:
  assumes "frame_wf f" and "ranges_ok f rs" and "mp_payload f rs al i kl j = Ok p"
  shows "payload_of_frame (into_bytes f) p"
proof -
  obtain a k where a: "msgpack_payload_part f msgpack_is_array (ExpectedList al) (nth_opt rs i) = Ok a"
    and k: "msgpack_payload_part f msgpack_is_map (ExpectedMap kl) (nth_opt rs j) = Ok k"
    and p: "p = \<lparr>args = a, kwargs = k, transparent = None\<rparr>"
    using assms(3) by (auto simp: mp_payload_def msgpack_payload_def outcome_simps)
  show ?thesis
    using payload_part_Ok [OF assms(1,2), of msgpack_is_array _ i]
      payload_part_Ok [OF assms(1,2), of msgpack_is_map _ j] a k
    unfolding payload_of_frame_def p by auto
qed

lemma msgpack_dispatch_payload:
  assumes "msgpack_dispatch lib f code rs = Ok m" and "message_payload m = Some p"
  shows "\<exists>al i kl j. mp_payload f rs al i kl j = Ok p"
  using assms unfolding msgpack_dispatch_def
  by (auto simp: msgpack_reader_defs outcome_simps split: if_splits) blast+

section \<open>No panic\<close>

lemma slice_ranges_no_panic:
  "frame_wf f \<Longrightarrow> ranges_ok f rs \<Longrightarrow> nth_opt rs i = Some r \<Longrightarrow> slice_or_copy f r \<noteq> Panic"
  using slice_walked [of f "fst r" "snd r"] ranges_okD [of f rs "fst r" "snd r"]
  by (auto dest!: nth_opt_in_set)

lemma map_from_slice_no_panic: "msgpack_map_from_slice lib bs l \<noteq> Panic"
  by (auto simp: msgpack_map_from_slice_def outcome_simps split: val.splits)

lemma mp_fields_no_panic:
  assumes wf: "frame_wf f" and ok: "ranges_ok f rs"
  shows "mp_string lib f rs i l \<noteq> Panic" and "mp_u64 lib f rs i l \<noteq> Panic"
    and "mp_map lib f rs i l \<noteq> Panic" and "mp_opt_map lib f rs i l \<noteq> Panic"
    and "mp_opt_u64 lib f rs i l \<noteq> Panic" and "mp_payload f rs l i l' j \<noteq> Panic"
    and "msgpack_unknown lib f code rs \<noteq> Panic"
proof -
  note sl = slice_ranges_no_panic [OF wf ok]
  show "mp_string lib f rs i l \<noteq> Panic" "mp_u64 lib f rs i l \<noteq> Panic" "mp_map lib f rs i l \<noteq> Panic"
    using sl by (auto simp: mp_string_def mp_u64_def mp_map_def range_at_def msgpack_string_def
        msgpack_u64_def msgpack_required_map_def outcome_simps map_from_slice_no_panic split: if_splits)
  show "mp_opt_map lib f rs i l \<noteq> Panic" "mp_opt_u64 lib f rs i l \<noteq> Panic"
    using sl by (auto simp: mp_opt_map_def mp_opt_u64_def msgpack_optional_map_def
        msgpack_optional_u64_def msgpack_u64_def outcome_simps map_from_slice_no_panic
        split: if_splits option.splits)
  have part: "msgpack_payload_part f k e (nth_opt rs i) \<noteq> Panic" for k e i
    using sl by (auto simp: msgpack_payload_part_def outcome_simps split: if_splits option.splits)
  then show "mp_payload f rs l i l' j \<noteq> Panic"
    by (auto simp: mp_payload_def msgpack_payload_def outcome_simps)
  have "msgpack_value lib f r \<noteq> Panic" if "r \<in> set (drop 1 rs)" for r
    using slice_walked [OF wf ranges_okD [OF ok, of "fst r" "snd r"]] in_set_dropD [OF that]
    by (simp add: msgpack_value_def outcome_simps)
  then show "msgpack_unknown lib f code rs \<noteq> Panic"
    using collect_ok_no_panic [of "drop 1 rs" "msgpack_value lib f"]
    by (auto simp: msgpack_unknown_def outcome_simps)
qed

lemma msgpack_dispatch_no_panic:
  assumes "frame_wf f" and "ranges_ok f rs"
  shows "msgpack_dispatch lib f code rs \<noteq> Panic"
  unfolding msgpack_dispatch_def
  by (simp add: msgpack_reader_defs [unfolded msgpack_unknown_def] mp_fields_no_panic [OF assms] outcome_simps
      del: msgpack_unknown_def)

section \<open>Whole messages\<close>

lemma parse_msgpack_Ok:
  assumes wf: "frame_wf f" and ok: "parse_msgpack_message lib f = Ok pm"
  obtains n off rs where "msgpack_read_array_len f 0 = Ok (n, off)" "0 < n" "off \<le> raw_len f"
    "read_ranges (Suc (raw_len f)) n f off [] = Ok (rs, raw_len f)"
    "ranges_ok f rs" "length rs = n" "mp_objects n (seg (into_bytes f) off (raw_len f))"
    "mp_u64 lib f rs 0 ''message code'' = Ok (message_code (message pm))"
    "msgpack_dispatch lib f (message_code (message pm)) rs = Ok (message pm)"
    "raw_of pm = f" "serializer_of pm = MessagePack" "encoded_metadata pm = None"
proof -
  from ok obtain n off rs code m where hdr: "msgpack_read_array_len f 0 = Ok (n, off)" and n: "0 < n"
    and rs: "read_ranges (Suc (raw_len f)) n f off [] = Ok (rs, raw_len f)"
    and code: "mp_u64 lib f rs 0 ''message code'' = Ok code"
    and m: "msgpack_dispatch lib f code rs = Ok m"
    and pm: "pm = \<lparr>message = m, raw_of = f, serializer_of = MessagePack, encoded_metadata = None\<rparr>"
    by (auto simp: parse_msgpack_message_def outcome_simps split: if_splits)
  have off: "off \<le> raw_len f" using array_len_Ok [OF wf hdr] by simp
  have rng: "ranges_ok f rs \<and> length rs = n \<and> mp_objects n (seg (into_bytes f) off (raw_len f))"
    using read_ranges_Ok [OF wf rs off] by (simp add: ranges_ok_def)
  show thesis
    using that [OF hdr n off rs] rng code m pm msgpack_dispatch_code [OF m] by simp
qed

text \<open>A GOODBYE with empty details and empty arguments, received in three segments, and
  what the parser makes of it.\<close>

definition goodbye_segments :: raw_frame where
  "goodbye_segments = from_segments [[0x94, 0x06], [0x80, 0xa1], [0x78, 0x90]]"

definition goodbye_parsed :: parsed_message where
  "goodbye_parsed =
     \<lparr>message = Goodbye [] [0x78] \<lparr>args = Some [0x90], kwargs = None, transparent = None\<rparr>,
      raw_of = goodbye_segments, serializer_of = MessagePack, encoded_metadata = None\<rparr>"

lemma goodbye_segments_wf: "frame_wf goodbye_segments"
  by (simp add: goodbye_segments_def)

lemma goodbye_segments_parse: "parse_msgpack_message small_serde goodbye_segments = Ok goodbye_parsed"
proof -
  have ev: "frame_wf goodbye_segments" "raw_len goodbye_segments = 6"
    "into_bytes goodbye_segments = [0x94, 0x06, 0x80, 0xa1, 0x78, 0x90]"
    by (simp_all add: goodbye_segments_def from_segments_def)
  note u8 = read_u8_view [OF ev(1)]
  have hdr: "msgpack_read_array_len goodbye_segments 0 = Ok (4, 1)"
    by (simp add: array_len_shape u8 ev)
  have seven: "(7::nat) = Suc 6" and four: "(4::nat) = Suc (Suc (Suc (Suc 0)))" by simp_all
  have sh: "shape 6 = Skip 0" "shape 0x80 = Rep 0" "shape 0xa1 = Skip 1" "shape 0x90 = Rep 0"
    by (simp_all add: shape_def)
  have walk: "msgpack_skip_value 7 goodbye_segments 1 = Ok 2" "msgpack_skip_value 7 goodbye_segments 2 = Ok 3"
    "msgpack_skip_value 7 goodbye_segments 3 = Ok 5" "msgpack_skip_value 7 goodbye_segments 5 = Ok 6"
    unfolding seven msgpack_skip_value_shape u8 ev
    by (simp_all add: sh ev walk_shape_def skip_bytes_def)
  have rs: "read_ranges 7 4 goodbye_segments 1 [] = Ok ([(1, 2), (2, 3), (3, 5), (5, 6)], 6)"
    by (simp only: four read_ranges.simps msgpack_read_value_range_def walk map_ok.simps and_then.simps
        prod.case append.simps)
  have sl: "slice_or_copy goodbye_segments (1, 2) = Ok [0x06]" "slice_or_copy goodbye_segments (2, 3) = Ok [0x80]"
    "slice_or_copy goodbye_segments (3, 5) = Ok [0xa1, 0x78]" "slice_or_copy goodbye_segments (5, 6) = Ok [0x90]"
    by (simp_all add: slice_or_copy_view [OF ev(1)] range_wf_def ev)
  have lib: "rmp_u64_de small_serde [0x06] = Inr 6" "rmp_value_de small_serde [0x80] = Inr (VMap [])"
    "rmp_string_de small_serde [0xa1, 0x78] = Inr [0x78]"
    by (simp_all add: small_serde_def small_value_def small_text_def as_u64_def as_text_def)
  show ?thesis
    by (simp add: parse_msgpack_message_def hdr ev rs [unfolded One_nat_def] msgpack_dispatch_def
        msgpack_goodbye_def mp_u64_def mp_map_def mp_string_def range_at_def msgpack_u64_def
        msgpack_required_map_def msgpack_string_def sl [unfolded One_nat_def] msgpack_is_nil_def
        first_byte_def msgpack_map_from_slice_def msgpack_is_map_def mp_payload_def msgpack_payload_def
        msgpack_payload_part_def msgpack_is_array_def lib goodbye_parsed_def)
qed

text \<open>C9: The MessagePack walk is exact. Started at any offset of any frame, contiguous or in
  segments, \<open>msgpack_skip_value\<close> returns an end offset if and only if the bytes from the
  start to that end lie in the frame and are exactly one object of the MessagePack
  grammar; so it never skips too little or too much, accepts every format of the
  specification and rejects everything else.\<close>

theorem msgpack_skip_value_exact:
  assumes "frame_wf f"
  shows "msgpack_skip_value (Suc (raw_len f)) f off = Ok off' \<longleftrightarrow>
    off < off' \<and> off' \<le> raw_len f \<and> mp_object (seg (into_bytes f) off off')"
  using msgpack_skip_value_iff [OF assms] unfolding walked_def .

theorem msgpack_skip_value_exact_witness:
  "msgpack_skip_value (Suc (raw_len goodbye_segments)) goodbye_segments 3 = Ok 5 \<longleftrightarrow>
    3 < (5::nat) \<and> 5 \<le> raw_len goodbye_segments \<and> mp_object (seg (into_bytes goodbye_segments) 3 5)"
  by (rule msgpack_skip_value_exact [OF goodbye_segments_wf])

text \<open>The three headers of a MessagePack array of \<open>n\<close> elements.\<close>

definition array_header :: "nat \<Rightarrow> byte list \<Rightarrow> bool" where
  "array_header n hdr =
     (n \<le> 15 \<and> hdr = [of_nat (0x90 + n)]
      \<or> n < 256 ^ 2 \<and> hdr = 0xdc # be_bytes 2 n
      \<or> n < 256 ^ 4 \<and> hdr = 0xdd # be_bytes 4 n)"

lemma byte_of_unat: "unat b = n \<Longrightarrow> b = (of_nat n :: byte)"
  by auto

lemma seg_self: "seg xs a a = []"
  by (simp add: seg_def)

lemma array_len_header:
  assumes wf: "frame_wf f" and hdr: "msgpack_read_array_len f 0 = Ok (n, off)"
  shows "array_header n (seg (into_bytes f) 0 off)"
proof -
  let ?b = "into_bytes f ! 0"
  have len: "0 < raw_len f"
    using hdr by (auto simp: array_len_shape read_u8_view [OF wf] split: if_splits)
  have cons: "seg (into_bytes f) 0 off = ?b # seg (into_bytes f) (Suc 0) off" if "0 < off"
    using that len by (simp add: seg_Cons raw_len_into_bytes [OF wf])
  consider (short) "0x90 \<le> unat ?b" "unat ?b \<le> 0x9f" "n = unat ?b - 0x90" "off = Suc 0"
    | (a16) "unat ?b = 0xdc" "read_len 2 f (Suc 0) = Ok (n, off)"
    | (a32) "unat ?b = 0xdd" "read_len 4 f (Suc 0) = Ok (n, off)"
    using hdr len by (auto simp: array_len_shape read_u8_view [OF wf] split: if_splits)
  then show ?thesis
  proof cases
    case short
    then have "unat ?b = 0x90 + n" by simp
    from byte_of_unat [OF this] short cons have "seg (into_bytes f) 0 off = [of_nat (0x90 + n)]" by (simp only: seg_self zero_less_Suc)
    moreover have "n \<le> 15" using short by simp
    ultimately show ?thesis unfolding array_header_def by blast
  next
    case a16
    then have r: "off = Suc 0 + 2" "n < 256 ^ 2" "seg (into_bytes f) (Suc 0) off = be_bytes 2 n"
      using read_len_Ok [OF wf, of 2] by auto
    have "?b = 0xdc" using byte_of_unat [OF a16(1)] by simp
    with r cons show ?thesis unfolding array_header_def by simp
  next
    case a32
    then have r: "off = Suc 0 + 4" "n < 256 ^ 4" "seg (into_bytes f) (Suc 0) off = be_bytes 4 n"
      using read_len_Ok [OF wf, of 4] by auto
    have "?b = 0xdd" using byte_of_unat [OF a32(1)] by simp
    with r cons show ?thesis unfolding array_header_def by simp
  qed
qed

text \<open>The first range starts right behind the header.\<close>

lemma read_ranges_keeps: "read_ranges d n f off rs = Ok (rs', off') \<Longrightarrow> \<exists>more. rs' = rs @ more"
proof (induction n arbitrary: off rs)
  case (Suc n)
  then obtain o1 where "read_ranges d n f o1 (rs @ [(off, o1)]) = Ok (rs', off')"
    by (auto simp: msgpack_read_value_range_def outcome_simps)
  from Suc.IH [OF this] show ?case by auto
qed simp

lemma read_ranges_first:
  assumes wf: "frame_wf f" and run: "read_ranges d (Suc n) f off [] = Ok (rs, off')" and off: "off \<le> raw_len f"
  shows "\<exists>o1. nth_opt rs 0 = Some (off, o1) \<and> walked f off o1 \<and> off \<le> o1 \<and> o1 \<le> off' \<and> off' \<le> raw_len f
    \<and> mp_objects n (seg (into_bytes f) o1 off')"
proof -
  obtain o1 where skip: "msgpack_skip_value d f off = Ok o1" and rest: "read_ranges d n f o1 [(off, o1)] = Ok (rs, off')"
    using run by (auto simp: msgpack_read_value_range_def outcome_simps)
  have w: "walked f off o1" using skip by (rule msgpack_skip_value_sound [OF wf])
  then have ok: "ranges_ok f [(off, o1)]" "o1 \<le> raw_len f" "off \<le> o1" by (auto simp: ranges_ok_def walked_def)
  from read_ranges_Ok [OF wf rest ok(2,1)] read_ranges_keeps [OF rest] w ok show ?thesis by (auto simp: nth_opt_def)
qed

text \<open>C12: Whatever the serialization library answers, a frame that
  \<open>parse_msgpack_message\<close> accepts is one MessagePack array from its first byte to its
  last: the header of an array of \<open>n + 1\<close> elements, right behind it the first element, an
  object of its own, and then exactly \<open>n\<close> further objects. The code of the message
  returned is the integer the library reads from that first element. The frame itself is kept.\<close>

theorem parse_msgpack_accepts_one_object:
  assumes wf: "frame_wf f" and ok: "parse_msgpack_message lib f = Ok pm"
  shows "mp_object (into_bytes f) \<and> msgpack_is_array (into_bytes f) \<and> raw_of pm = f \<and>
    (\<exists>n hdr x rest. array_header (Suc n) hdr \<and> into_bytes f = hdr @ x @ rest \<and> mp_object x \<and> mp_objects n rest \<and>
      rmp_u64_de lib x = Inr (message_code (message pm)))"
proof -
  from parse_msgpack_Ok [OF assms] obtain n off rs where
    hdr: "msgpack_read_array_len f 0 = Ok (n, off)" and n: "0 < n" and off: "off \<le> raw_len f" and
    run: "read_ranges (Suc (raw_len f)) n f off [] = Ok (rs, raw_len f)" and
    objs: "mp_objects n (seg (into_bytes f) off (raw_len f))" and
    code: "mp_u64 lib f rs 0 ''message code'' = Ok (message_code (message pm))" and raw: "raw_of pm = f"
    by metis
  obtain m where m: "n = Suc m" using n by (cases n) auto
  obtain o1 where o1: "nth_opt rs 0 = Some (off, o1)" "walked f off o1" "off \<le> o1" "o1 \<le> raw_len f"
    "mp_objects m (seg (into_bytes f) o1 (raw_len f))"
    using read_ranges_first [OF wf run [unfolded m] off] by auto
  have all: "seg (into_bytes f) 0 off @ seg (into_bytes f) off o1 @ seg (into_bytes f) o1 (raw_len f) = into_bytes f"
    using off o1 by (simp add: seg_append raw_len_into_bytes [OF wf])
  have obj: "mp_object (into_bytes f)"
    using array_len_Ok [OF wf hdr] objs off seg_append [of 0 off "raw_len f" "into_bytes f"] by (auto simp: raw_len_into_bytes [OF wf])
  have "rmp_u64_de lib (seg (into_bytes f) off o1) = Inr (message_code (message pm))"
    using code o1(1) slice_walked [OF wf o1(2)]
    by (auto simp: mp_u64_def range_at_def msgpack_u64_def outcome_simps split: if_splits)
  with o1 obj raw all array_len_is_array [OF wf hdr] array_len_header [OF wf hdr [unfolded m]] show ?thesis unfolding walked_def by metis
qed

theorem parse_msgpack_accepts_one_object_witness:
  "mp_object (into_bytes goodbye_segments) \<and> msgpack_is_array (into_bytes goodbye_segments)
   \<and> raw_of goodbye_parsed = goodbye_segments \<and>
   (\<exists>n hdr x rest. array_header (Suc n) hdr \<and> into_bytes goodbye_segments = hdr @ x @ rest \<and> mp_object x \<and> mp_objects n rest \<and>
      rmp_u64_de small_serde x = Inr (message_code (message goodbye_parsed)))"
  by (rule parse_msgpack_accepts_one_object [OF goodbye_segments_wf goodbye_segments_parse])

text \<open>Zero-copy payloads are verbatim. When a message that carries a payload is
  parsed, its arguments are one MessagePack array and its keyword arguments one
  MessagePack map, each a contiguous part of the frame taken byte by byte (also when the
  frame arrived in segments), and no transparent payload is made up.\<close>

theorem parse_msgpack_payload_verbatim:
  assumes "frame_wf f" and "parse_msgpack_message lib f = Ok pm"
    and "message_payload (message pm) = Some p"
  shows "payload_of_frame (into_bytes f) p"
proof -
  from parse_msgpack_Ok [OF assms(1,2)] obtain rs where "ranges_ok f rs"
    "msgpack_dispatch lib f (message_code (message pm)) rs = Ok (message pm)" by metis
  then show ?thesis
    using msgpack_dispatch_payload [OF _ assms(3)] mp_payload_Ok [OF assms(1)] by blast
qed

theorem parse_msgpack_payload_verbatim_witness:
  "payload_of_frame (into_bytes goodbye_segments) \<lparr>args = Some [0x90], kwargs = None, transparent = None\<rparr>"
  by (rule parse_msgpack_payload_verbatim [OF goodbye_segments_wf goodbye_segments_parse])
     (simp add: goodbye_parsed_def)

lemma parse_msgpack_cong:
  assumes eq: "frame_wf f" "frame_wf g" "into_bytes f = into_bytes g"
  shows "map_ok message (parse_msgpack_message lib f) = map_ok message (parse_msgpack_message lib g)"
proof (cases "msgpack_read_array_len f 0")
  case (Ok p)
  obtain n off where p: "p = (n, off)" by force
  have len: "raw_len f = raw_len g" by (rule raw.len_cong [OF eq])
  note cong = array_len_cong [OF eq] read_ranges_cong [OF eq] len
  have hdr: "msgpack_read_array_len f 0 = Ok (n, off)" using Ok p by simp
  have off: "off \<le> raw_len f" using array_len_Ok [OF eq(1) hdr] by simp
  show ?thesis
  proof (cases "read_ranges (Suc (raw_len f)) n f off []")
    case rs: (Ok q)
    then obtain rs e where q: "read_ranges (Suc (raw_len f)) n f off [] = Ok (rs, e)" by (cases q) auto
    have "ranges_ok f rs"
      using read_ranges_Ok [OF eq(1) q off] by (simp add: ranges_ok_def)
    note cong' = mp_fields_cong [OF eq this] msgpack_dispatch_cong [OF eq this]
    have step: "map_ok message (and_then (msgpack_dispatch lib h code rs) (\<lambda>m.
        Ok \<lparr>message = m, raw_of = h, serializer_of = MessagePack, encoded_metadata = None\<rparr>)) =
      msgpack_dispatch lib h code rs" for h code
      by (cases "msgpack_dispatch lib h code rs") auto
    show ?thesis
      using q hdr
      by (auto simp: parse_msgpack_message_def cong cong' map_ok_and_then step)
  qed (use hdr in \<open>simp_all add: parse_msgpack_message_def cong\<close>)
qed (simp_all add: parse_msgpack_message_def array_len_cong [OF eq])

text \<open>C13: How the frame was split is invisible. Parsing a frame received in any list of
  segments gives the same message, or the same error, as parsing the concatenation of
  the segments as one buffer.\<close>

theorem parse_msgpack_segmentation_invisible:
  "map_ok message (parse_msgpack_message lib (from_segments segs)) =
   map_ok message (parse_msgpack_message lib (Contiguous (concat segs)))"
  by (rule parse_msgpack_cong) simp_all

text \<open>C14: No bytes make the MessagePack parser panic: no index or slice is out of bounds,
  whatever the frame and whatever the library answers, and the walk ends within a
  recursion depth of the length of the frame.\<close>

theorem parse_msgpack_never_panics:
  "parse_msgpack_message lib (from_segments segs) \<noteq> Panic
   \<and> parse_msgpack_message lib (Contiguous bytes) \<noteq> Panic"
proof -
  have "parse_msgpack_message lib f \<noteq> Panic" if wf: "frame_wf f" for f
  proof -
    have ok: "ranges_ok f rs" if "msgpack_read_array_len f 0 = Ok (n, off)"
      "read_ranges (Suc (raw_len f)) n f off [] = Ok (rs, e)" for n off rs e
      using read_ranges_Ok [OF wf that(2)] array_len_Ok [OF wf that(1)] by (simp add: ranges_ok_def)
    show ?thesis
      using array_len_no_panic [OF wf] read_ranges_no_panic [OF wf] ok
        mp_fields_no_panic(2) [OF wf] msgpack_dispatch_no_panic [OF wf]
      by (auto simp: parse_msgpack_message_def outcome_simps)
  qed
  then show ?thesis by simp
qed

section \<open>The depth of the recursion\<close>

text \<open>Arrays of one element nested \<open>n\<close> deep.\<close>

definition nested_arrays :: "nat \<Rightarrow> raw_frame" where
  "nested_arrays n = Contiguous (replicate n 0x91 @ [0xc0])"

lemma nested_arrays_byte:
  "read_u8 (nested_arrays n) off =
     (if off < n then Ok (0x91, Suc off) else if off = n then Ok (0xc0, Suc off) else Err eod)"
proof -
  have wf: "frame_wf (nested_arrays n)" and bytes: "into_bytes (nested_arrays n) = replicate n 0x91 @ [0xc0]"
    by (simp_all add: nested_arrays_def)
  consider "off < n" | "off = n" | "n < off" by linarith
  then show ?thesis by cases (simp_all add: read_u8_view [OF wf] raw_len_into_bytes [OF wf] bytes nth_append)
qed

lemma nested_arrays_walk:
  "off \<le> n \<Longrightarrow> msgpack_skip_value d (nested_arrays n) off = (if n - off < d then Ok (Suc n) else Panic)"
proof (induction d arbitrary: off)
  case 0
  then show ?case by simp
next
  case (Suc d)
  have "shape 0x91 = Rep 1" "shape 0xc0 = Skip 0" by (simp_all add: shape_def)
  with Suc show ?case
    by (auto simp: msgpack_skip_value_shape nested_arrays_byte walk_shape_def skip_bytes_def
        simp del: msgpack_skip_value.simps)
qed

text \<open>The recursion of \<open>msgpack_skip_value\<close> is as deep as the frame says. On \<open>n\<close> nested
  one-element arrays, a frame of \<open>n + 1\<close> bytes, the walk succeeds exactly when more
  than \<open>n\<close> nested calls are allowed: the code has no depth limit of its own, so a peer
  chooses the stack depth one byte per call.\<close>

theorem msgpack_recursion_depth_unbounded:
  "raw_len (nested_arrays n) = Suc n \<and>
   msgpack_skip_value depth (nested_arrays n) 0 = (if n < depth then Ok (Suc n) else Panic)"
  using nested_arrays_walk [of 0 n depth] by (simp add: nested_arrays_def)

end
