(* ===== verification/Wamp_Cbor.thy ===== *)
theory Wamp_Cbor
  imports Wamp_Value
begin

text \<open>
  The CBOR parser of \<^verbatim>\<open>ct_core/src/wamp.rs\<close>: a contiguous frame is cut into the byte
  ranges of its top-level elements, the arguments and keyword arguments are kept as
  verbatim slices, and the other elements are decoded by the library and read by the
  generic parser, with an empty placeholder in the place of each payload part. A
  segmented frame takes the generic path. What the library answers is arbitrary; only the
  comparison with full decoding relies on its documented behaviour (\<open>cbor_laws\<close>).
\<close>

section \<open>The array header\<close>

definition cbor_header_integer :: "byte list \<Rightarrow> nat \<Rightarrow> u64 parsed" where
  "cbor_header_integer data byte_count =
     (if length data < 1 + byte_count then Err (Deserialize ''truncated CBOR array header'')
      else and_then (slice_bytes data 1 (1 + byte_count)) (\<lambda>bs.
        Ok (foldl (\<lambda>v b. or (push_bit 8 v) (ucast b)) 0 bs)))"

text \<open>\<open>usize::try_from\<close> on a 64-bit target accepts every \<open>u64\<close>.\<close>

definition cbor_array_header :: "byte list \<Rightarrow> (nat \<times> nat option) parsed" where
  "cbor_array_header data =
     (case nth_opt data 0 of
        None \<Rightarrow> Err (Deserialize ''empty CBOR message'')
      | Some initial \<Rightarrow>
          if drop_bit 5 initial \<noteq> 4 then Err ExpectedArray
          else let additional = unat (and initial 0x1f) in
            if additional = 31 then Ok (1, None)
            else and_then
              (if additional \<le> 23 then Ok (1, of_nat additional)
               else if additional = 24 then map_ok (Pair 2) (cbor_header_integer data 1)
               else if additional = 25 then map_ok (Pair 3) (cbor_header_integer data 2)
               else if additional = 26 then map_ok (Pair 5) (cbor_header_integer data 4)
               else if additional = 27 then map_ok (Pair 9) (cbor_header_integer data 8)
               else Err (Deserialize ''reserved CBOR array additional information''))
              (\<lambda>(header_len, len :: u64).
                if unat len \<le> usize_max then Ok (header_len, Some (unat len))
                else Err (Deserialize ''CBOR array length exceeds usize'')))"

section \<open>The ranges of the elements\<close>

definition cbor_done :: "byte list \<Rightarrow> nat option \<Rightarrow> nat \<Rightarrow> byte_range list \<Rightarrow> bool" where
  "cbor_done data len offset ranges =
     (case len of Some n \<Rightarrow> length ranges = n | None \<Rightarrow> nth_opt data offset = Some 0xff)"

function cbor_ranges_loop ::
  "serde \<Rightarrow> byte list \<Rightarrow> nat option \<Rightarrow> nat \<Rightarrow> byte_range list \<Rightarrow> (byte_range list \<times> nat) parsed" where
  "cbor_ranges_loop lib data len offset ranges =
     (if cbor_done data len offset ranges then Ok (ranges, offset)
      else if offset \<ge> length data then Err (Deserialize ''unexpected end of CBOR message array'')
      else case lib_result Deserialize (cbor_ignored_de lib (drop offset data)) of
          Ok consumed \<Rightarrow>
            if consumed = 0 then Err (Deserialize ''CBOR value parser made no progress'')
            else if offset + consumed > usize_max then Err (Deserialize ''CBOR value range overflow'')
            else cbor_ranges_loop lib data len (offset + consumed) (ranges @ [(offset, offset + consumed)])
        | Err e \<Rightarrow> Err e
        | Panic \<Rightarrow> Panic)"
  by pat_completeness auto
termination
  by (relation "measure (\<lambda>(lib, data, len, offset, ranges). length data - offset)") auto

declare cbor_ranges_loop.simps [simp del]

definition cbor_top_level_ranges :: "serde \<Rightarrow> byte list \<Rightarrow> byte_range list parsed" where
  "cbor_top_level_ranges lib data =
     and_then (cbor_array_header data) (\<lambda>(offset, len).
     and_then (cbor_ranges_loop lib data len offset []) (\<lambda>(ranges, offset).
     and_then (if len \<noteq> None then Ok offset
               else if offset + 1 > usize_max then Err (Deserialize ''CBOR message range overflow'')
               else Ok (offset + 1)) (\<lambda>message_end.
       if message_end \<noteq> length data then Err (Deserialize ''trailing data after CBOR message array'')
       else Ok ranges)))"

definition cbor_value :: "serde \<Rightarrow> raw_frame \<Rightarrow> byte_range \<Rightarrow> val parsed" where
  "cbor_value lib raw_payload rng =
     and_then (slice_or_copy raw_payload rng) (\<lambda>bs. lib_result Deserialize (cbor_value_de lib bs))"

section \<open>Payloads\<close>

record payload_spec =
  args_index :: nat
  args_label :: label
  kwargs_index :: nat
  kwargs_label :: label

definition cbor_payload_spec :: "u64 \<Rightarrow> payload_spec option" where
  "cbor_payload_spec code =
     (let spec = (\<lambda>ai al ki kl.
        Some \<lparr>args_index = ai, args_label = al, kwargs_index = ki, kwargs_label = kl\<rparr>) in
      if code = 3 then spec 3 ''abort.arguments'' 4 ''abort.argumentsKw''
      else if code = 6 then spec 3 ''goodbye.arguments'' 4 ''goodbye.argumentsKw''
      else if code = 8 then spec 5 ''error.arguments'' 6 ''error.argumentsKw''
      else if code = 16 then spec 4 ''publish.arguments'' 5 ''publish.argumentsKw''
      else if code = 36 then spec 4 ''event.arguments'' 5 ''event.argumentsKw''
      else if code = 48 then spec 4 ''call.arguments'' 5 ''call.argumentsKw''
      else if code = 50 then spec 3 ''result.arguments'' 4 ''result.argumentsKw''
      else if code = 68 then spec 4 ''invocation.arguments'' 5 ''invocation.argumentsKw''
      else if code = 70 then spec 3 ''yield.arguments'' 4 ''yield.argumentsKw''
      else None)"

definition cbor_payload_part ::
  "raw_frame \<Rightarrow> byte_range option \<Rightarrow> byte \<Rightarrow> label \<Rightarrow> (label \<Rightarrow> parse_error) \<Rightarrow> byte list option parsed" where
  "cbor_payload_part raw_payload rng expected_major lbl wrong_type =
     (case rng of
        None \<Rightarrow> Ok None
      | Some r \<Rightarrow>
          and_then (slice_or_copy raw_payload r) (\<lambda>bs.
            if bs = [0xf6] then Ok None
            else if map_option (drop_bit 5) (nth_opt bs 0) \<noteq> Some expected_major then Err (wrong_type lbl)
            else map_ok Some (slice_or_copy raw_payload r)))"

definition cbor_payload :: "raw_frame \<Rightarrow> byte_range list \<Rightarrow> payload_spec \<Rightarrow> payload parsed" where
  "cbor_payload raw_payload ranges spec =
     and_then (cbor_payload_part raw_payload (nth_opt ranges (args_index spec)) 4
                 (args_label spec) ExpectedList) (\<lambda>a.
     and_then (cbor_payload_part raw_payload (nth_opt ranges (kwargs_index spec)) 5
                 (kwargs_label spec) ExpectedMap) (\<lambda>k.
     Ok \<lparr>args = a, kwargs = k, transparent = None\<rparr>))"

section \<open>Messages\<close>

text \<open>The value that stands for the element at an index: a placeholder for a payload
  part, the decoded element otherwise.\<close>

definition cbor_element ::
  "serde \<Rightarrow> raw_frame \<Rightarrow> (payload_spec \<times> payload) option \<Rightarrow> nat \<times> byte_range \<Rightarrow> val parsed" where
  "cbor_element lib raw_payload part = (\<lambda>(index, rng).
     case part of
       Some (spec, p) \<Rightarrow>
         if index = args_index spec then Ok (if args p \<noteq> None then VSeq [] else VUnit)
         else if index = kwargs_index spec then Ok (if kwargs p \<noteq> None then VMap [] else VUnit)
         else cbor_value lib raw_payload rng
     | None \<Rightarrow> cbor_value lib raw_payload rng)"

definition parse_cbor_message :: "serde \<Rightarrow> raw_frame \<Rightarrow> parsed_message parsed" where
  "parse_cbor_message lib raw_payload =
     (case as_contiguous raw_payload of
        None \<Rightarrow> parse_value_message lib Cbor raw_payload
      | Some raw \<Rightarrow>
          and_then (cbor_top_level_ranges lib raw) (\<lambda>ranges.
            if ranges = [] then Err (MissingElement ''message code'')
            else and_then (index_byte ranges 0) (\<lambda>first.
              and_then (cbor_value lib raw_payload first) (\<lambda>code_value.
              and_then (value_as_u64 code_value ''message code'') (\<lambda>code.
              and_then (transpose_opt (map_option (\<lambda>spec.
                  map_ok (Pair spec) (cbor_payload raw_payload ranges spec)) (cbor_payload_spec code))) (\<lambda>part.
              and_then (collect_ok (cbor_element lib raw_payload part) (drop 1 (enumerate 0 ranges))) (\<lambda>rest.
              and_then (parse_value_parts lib Cbor code rest) (\<lambda>m.
              Ok \<lparr>message = (case part of Some (spec, p) \<Rightarrow> replace_message_payload m p | None \<Rightarrow> m),
                  raw_of = raw_payload, serializer_of = Cbor, encoded_metadata = None\<rparr>))))))))"

lemma and_then_OkE: "and_then m f = Ok y \<Longrightarrow> (\<And>x. m = Ok x \<Longrightarrow> f x = Ok y \<Longrightarrow> P) \<Longrightarrow> P"
  by (cases m) auto

lemma if_Err_OkE: "(if c then Err e else m) = Ok y \<Longrightarrow> (\<not> c \<Longrightarrow> m = Ok y \<Longrightarrow> P) \<Longrightarrow> P"
  by (auto split: if_splits)

section \<open>Header integers\<close>

lemma push_or_byte: "or (push_bit 8 v) (ucast (b::byte)) = v * 256 + (ucast b :: u64)"
proof -
  have "and (push_bit 8 v) (ucast b :: u64) = 0"
    by (rule bit_eqI) (auto simp: bit_simps dest: bit_imp_le_length)
  then have "or (push_bit 8 v) (ucast b :: u64) = push_bit 8 v + ucast b"
    by (simp add: disjunctive_add_eq_or)
  then show ?thesis by (simp add: push_bit_eq_mult)
qed

lemma foldl_be_bytes:
  "n < 256 ^ k \<Longrightarrow>
   foldl (\<lambda>v b. or (push_bit 8 v) (ucast b)) (v::u64) (be_bytes k n) = v * 256 ^ k + of_nat n"
proof (induction k arbitrary: n)
  case 0
  then show ?case by (simp add: be_bytes.simps)
next
  case (Suc k)
  have IH: "foldl (\<lambda>v b. or (push_bit 8 v) (ucast b)) v (be_bytes k (n div 256)) =
      v * 256 ^ k + of_nat (n div 256)"
    using Suc.prems by (intro Suc.IH) (simp add: less_mult_imp_div_less mult.commute)
  have byte: "(ucast (of_nat (n mod 256) :: byte) :: u64) = of_nat (n mod 256)"
    by (simp add: unsigned_of_nat take_bit_eq_mod)
  have "(of_nat n :: u64) = of_nat (n div 256 * 256 + n mod 256)" by simp
  also have "\<dots> = of_nat (n div 256) * 256 + of_nat (n mod 256)" by (simp only: of_nat_add of_nat_mult) simp
  finally have n: "(of_nat n :: u64) = of_nat (n div 256) * 256 + of_nat (n mod 256)" .
  have "foldl (\<lambda>v b. or (push_bit 8 v) (ucast b)) v (be_bytes (Suc k) n) =
      (v * 256 ^ k + of_nat (n div 256)) * 256 + of_nat (n mod 256)"
    unfolding be_bytes.simps foldl_append IH by (simp add: push_or_byte byte)
  then show ?case by (simp add: n algebra_simps)
qed

lemma cbor_header_integer_be:
  assumes "n < 256 ^ k" and "k \<le> 8"
  shows "cbor_header_integer (m # be_bytes k n @ rest) k = Ok (of_nat n)"
  using foldl_be_bytes [OF assms(1), of 0]
  by (simp add: cbor_header_integer_def slice_bytes_def)

lemma unat_of_nat_u64: "n < 256 ^ k \<Longrightarrow> k \<le> 8 \<Longrightarrow> unat (of_nat n :: u64) = n"
proof -
  assume "n < 256 ^ k" "k \<le> 8"
  then have "n < 256 ^ 8" using power_increasing [of k 8 "256::nat"] by linarith
  then show ?thesis by (simp add: unat_of_nat)
qed

lemma unat_u64_le: "unat (w :: u64) \<le> usize_max"
  using unsigned_less [of w, where ?'a = nat] by (simp add: usize_max_def)

lemma cbor_array_header_no_panic: "cbor_array_header data \<noteq> Panic"
  by (auto simp: cbor_array_header_def cbor_header_integer_def slice_bytes_def Let_def outcome_simps
      split: option.splits if_splits)

section \<open>The elements tile the frame\<close>

text \<open>Non-empty ranges, each starting where the one before ends, from one offset to
  another.\<close>

primrec tiles :: "nat \<Rightarrow> byte_range list \<Rightarrow> nat \<Rightarrow> bool" where
  "tiles a [] z = (a = z)"
| "tiles a (r # rs) z = (fst r = a \<and> a < snd r \<and> tiles (snd r) rs z)"

lemma tiles_snoc: "tiles a rs z \<Longrightarrow> z < z' \<Longrightarrow> tiles a (rs @ [(z, z')]) z'"
  by (induction rs arbitrary: a) auto

lemma tiles_le: "tiles a rs z \<Longrightarrow> a \<le> z"
  by (induction rs arbitrary: a) fastforce+

lemma tiles_bounds: "tiles a rs z \<Longrightarrow> (s, e) \<in> set rs \<Longrightarrow> a \<le> s \<and> s < e \<and> e \<le> z"
proof (induction rs arbitrary: a)
  case (Cons r rs)
  then show ?case using tiles_le [of "snd r" rs z] by fastforce
qed simp

lemma cbor_ranges_loop_Ok:
  "cbor_ranges_loop lib data len offset ranges = Ok (rs, z) \<Longrightarrow>
   \<exists>more. rs = ranges @ more \<and> tiles offset more z \<and> cbor_done data len z rs \<and>
     (\<forall>(s, e) \<in> set more. cbor_ignored_de lib (drop s data) = Inr (e - s))"
proof (induction lib data len offset ranges rule: cbor_ranges_loop.induct)
  case (1 lib data len offset ranges)
  show ?case
  proof (cases "cbor_done data len offset ranges")
    case True
    with "1.prems" show ?thesis by (simp add: cbor_ranges_loop.simps [of lib data len offset])
  next
    case False
    with "1.prems" obtain consumed where c: "cbor_ignored_de lib (drop offset data) = Inr consumed"
      and pos: "0 < consumed" "offset < length data" "\<not> offset + consumed > usize_max"
      and rec: "cbor_ranges_loop lib data len (offset + consumed) (ranges @ [(offset, offset + consumed)]) = Ok (rs, z)"
      by (cases "cbor_ignored_de lib (drop offset data)")
         (auto simp: cbor_ranges_loop.simps [of lib data len offset] split: if_splits)
    have res: "lib_result Deserialize (cbor_ignored_de lib (drop offset data)) = Ok consumed"
      using c by simp
    have "\<exists>more. rs = (ranges @ [(offset, offset + consumed)]) @ more \<and> tiles (offset + consumed) more z \<and>
        cbor_done data len z rs \<and> (\<forall>(s, e) \<in> set more. cbor_ignored_de lib (drop s data) = Inr (e - s))"
      using "1.IH" [OF False _ res] pos rec by simp
    then obtain more where "rs = ranges @ (offset, offset + consumed) # more"
      "tiles (offset + consumed) more z" "cbor_done data len z rs"
      "\<forall>(s, e) \<in> set more. cbor_ignored_de lib (drop s data) = Inr (e - s)" by auto
    then show ?thesis using c pos by (intro exI [of _ "(offset, offset + consumed) # more"]) auto
  qed
qed

lemma cbor_ranges_loop_no_panic: "cbor_ranges_loop lib data len offset ranges \<noteq> Panic"
proof (induction lib data len offset ranges rule: cbor_ranges_loop.induct)
  case (1 lib data len offset ranges)
  then show ?case
    by (cases "cbor_ignored_de lib (drop offset data)")
       (auto simp: cbor_ranges_loop.simps [of lib data len offset])
qed

lemma cbor_top_level_ranges_no_panic: "cbor_top_level_ranges lib data \<noteq> Panic"
  by (auto simp: cbor_top_level_ranges_def outcome_simps cbor_array_header_no_panic
      cbor_ranges_loop_no_panic)

text \<open>The offset at which the elements end: the end of the frame, or its last byte, the
  break code of an indefinite-length array.\<close>

definition body_end :: "nat option \<Rightarrow> byte list \<Rightarrow> nat" where
  "body_end len data = (case len of Some n \<Rightarrow> length data | None \<Rightarrow> length data - 1)"

lemma cbor_top_level_ranges_Ok:
  assumes "cbor_top_level_ranges lib data = Ok ranges"
  obtains header_len len where "cbor_array_header data = Ok (header_len, len)"
    "tiles header_len ranges (body_end len data)"
    "case len of Some n \<Rightarrow> length ranges = n | None \<Rightarrow> data \<noteq> [] \<and> last data = 0xff"
    "\<forall>(s, e) \<in> set ranges. cbor_ignored_de lib (drop s data) = Inr (e - s)"
proof -
  obtain h len z where h: "cbor_array_header data = Ok (h, len)"
    and loop: "cbor_ranges_loop lib data len h [] = Ok (ranges, z)"
    and z: "length data = (if len \<noteq> None then z else z + 1)"
    using assms by (auto simp: cbor_top_level_ranges_def outcome_simps split: if_splits)
  from cbor_ranges_loop_Ok [OF loop] have t: "tiles h ranges z" and d: "cbor_done data len z ranges"
    and l: "\<forall>(s, e) \<in> set ranges. cbor_ignored_de lib (drop s data) = Inr (e - s)" by auto
  have "z = body_end len data" using z by (cases len) (auto simp: body_end_def)
  moreover have "case len of Some n \<Rightarrow> length ranges = n | None \<Rightarrow> data \<noteq> [] \<and> last data = 0xff"
    using d z
    by (cases len; cases data rule: rev_cases)
       (auto simp: cbor_done_def nth_opt_def nth_append split: if_splits)
  ultimately show thesis using that h t l by blast
qed

lemma tiles_slice:
  assumes "tiles a rs (body_end len data)" and "(s, e) \<in> set rs"
  shows "slice_or_copy (Contiguous data) (s, e) = Ok (seg data s e)"
proof -
  have "s \<le> e" "e \<le> length data"
    using tiles_bounds [OF assms] by (auto simp: body_end_def split: option.splits)
  then show ?thesis using raw.slice_in [of "Contiguous data" s e] by (simp add: seg_def)
qed

section \<open>Messages\<close>

lemma cbor_value_slice:
  assumes "cbor_top_level_ranges lib data = Ok ranges" and "(s, e) \<in> set ranges"
  shows "cbor_value lib (Contiguous data) (s, e) = lib_result Deserialize (cbor_value_de lib (seg data s e))"
proof -
  obtain a len where "tiles a ranges (body_end len data)"
    using cbor_top_level_ranges_Ok [OF assms(1)] by metis
  from tiles_slice [OF this assms(2)] show ?thesis by (simp add: cbor_value_def)
qed

lemma cbor_slice_no_panic:
  assumes "cbor_top_level_ranges lib data = Ok ranges" and "r \<in> set ranges"
  shows "slice_or_copy (Contiguous data) r \<noteq> Panic"
  using cbor_top_level_ranges_Ok [OF assms(1)] tiles_slice [of _ ranges _ data "fst r" "snd r"] assms(2)
  by (metis outcome.distinct(3) prod.collapse)

lemma nth_opt_hd: "bs \<noteq> [] \<Longrightarrow> nth_opt bs 0 = Some (hd bs)"
  by (cases bs) auto

text \<open>A payload part is the element at an index, whole and of the given major type, and
  is absent where that element is missing or null.\<close>

definition verbatim_part :: "byte list \<Rightarrow> byte_range list \<Rightarrow> nat \<Rightarrow> byte \<Rightarrow> byte list option \<Rightarrow> bool" where
  "verbatim_part data ranges i major part =
     (case nth_opt ranges i of
        None \<Rightarrow> part = None
      | Some (s, e) \<Rightarrow>
          if seg data s e = [0xf6] then part = None
          else part = Some (seg data s e) \<and> seg data s e \<noteq> [] \<and> drop_bit 5 (hd (seg data s e)) = major)"

lemma cbor_payload_part_Ok:
  assumes "cbor_top_level_ranges lib data = Ok ranges"
    and "cbor_payload_part (Contiguous data) (nth_opt ranges i) k l w = Ok part"
  shows "verbatim_part data ranges i k part"
proof (cases "nth_opt ranges i")
  case None
  with assms(2) show ?thesis by (simp add: verbatim_part_def cbor_payload_part_def)
next
  case (Some r)
  obtain s e where r: "r = (s, e)" by force
  obtain a len where "tiles a ranges (body_end len data)"
    using cbor_top_level_ranges_Ok [OF assms(1)] by metis
  then have "slice_or_copy (Contiguous data) (s, e) = Ok (seg data s e)"
    using tiles_slice nth_opt_in_set [OF Some [unfolded r]] by blast
  with assms(2) Some r show ?thesis
    by (cases "seg data s e = []")
       (auto simp: verbatim_part_def cbor_payload_part_def nth_opt_hd split: if_splits)
qed

lemma enumerate_ranges: "(i, r) \<in> set (drop (Suc 0) (enumerate 0 ranges)) \<Longrightarrow> r \<in> set ranges"
  by (drule in_set_dropD) (auto simp: in_set_enumerate_eq)

lemma cbor_parts_no_panic:
  assumes ok: "cbor_top_level_ranges lib data = Ok ranges"
  shows "r \<in> set ranges \<Longrightarrow> cbor_value lib (Contiguous data) r \<noteq> Panic"
    and "cbor_payload (Contiguous data) ranges spec \<noteq> Panic"
    and "collect_ok (cbor_element lib (Contiguous data) part) (drop 1 (enumerate 0 ranges)) \<noteq> Panic"
proof -
  show v: "cbor_value lib (Contiguous data) r \<noteq> Panic" if "r \<in> set ranges" for r
    using cbor_slice_no_panic [OF ok that] by (simp add: cbor_value_def outcome_simps)
  have part: "cbor_payload_part (Contiguous data) (nth_opt ranges i) k l w \<noteq> Panic" for i k l w
    using cbor_slice_no_panic [OF ok nth_opt_in_set]
    by (auto simp: cbor_payload_part_def outcome_simps split: option.splits)
  then show "cbor_payload (Contiguous data) ranges spec \<noteq> Panic"
    by (simp add: cbor_payload_def outcome_simps)
  show "collect_ok (cbor_element lib (Contiguous data) part) (drop 1 (enumerate 0 ranges)) \<noteq> Panic"
    by (rule collect_ok_no_panic)
       (auto simp: cbor_element_def v dest!: enumerate_ranges split: option.splits if_splits)
qed

lemma parse_cbor_Ok:
  assumes "parse_cbor_message lib (Contiguous data) = Ok pm"
  obtains ranges r v part rest m where "cbor_top_level_ranges lib data = Ok ranges"
    "nth_opt ranges 0 = Some r" "cbor_value lib (Contiguous data) r = Ok v"
    "value_as_u64 v ''message code'' = Ok (message_code m)"
    "transpose_opt (map_option (\<lambda>spec. map_ok (Pair spec) (cbor_payload (Contiguous data) ranges spec))
       (cbor_payload_spec (message_code m))) = Ok part"
    "collect_ok (cbor_element lib (Contiguous data) part) (drop 1 (enumerate 0 ranges)) = Ok rest"
    "parse_value_parts lib Cbor (message_code m) rest = Ok m"
    "pm = \<lparr>message = (case part of Some (spec, p) \<Rightarrow> replace_message_payload m p | None \<Rightarrow> m),
       raw_of = Contiguous data, serializer_of = Cbor, encoded_metadata = None\<rparr>"
proof -
  show thesis
    using assms unfolding parse_cbor_message_def as_contiguous.simps option.case
  proof (elim and_then_OkE if_Err_OkE)
    fix ranges r v code part rest m
    assume 1: "cbor_top_level_ranges lib data = Ok ranges" "ranges \<noteq> []"
      "index_byte ranges 0 = (Ok r :: byte_range parsed)"
      and 2: "cbor_value lib (Contiguous data) r = Ok v" "value_as_u64 v ''message code'' = Ok code"
      and 3: "transpose_opt (map_option (\<lambda>spec. map_ok (Pair spec) (cbor_payload (Contiguous data) ranges spec))
         (cbor_payload_spec code)) = Ok part"
        "collect_ok (cbor_element lib (Contiguous data) part) (drop 1 (enumerate 0 ranges)) = Ok rest"
      and m: "parse_value_parts lib Cbor code rest = Ok m"
      and 4: "Ok \<lparr>message = (case part of None \<Rightarrow> m | Some (spec, p) \<Rightarrow> replace_message_payload m p),
         raw_of = Contiguous data, serializer_of = Cbor, encoded_metadata = None\<rparr> = Ok pm"
    have r: "nth_opt ranges 0 = Some r" using 1(2,3) by (auto simp: index_byte_def nth_opt_def)
    have code: "code = message_code m" using parse_value_parts_code [OF m] by simp
    from 4 have pm: "\<lparr>message = (case part of None \<Rightarrow> m | Some (spec, p) \<Rightarrow> replace_message_payload m p),
         raw_of = Contiguous data, serializer_of = Cbor, encoded_metadata = None\<rparr> = pm"
      by (rule outcome.inject(1) [THEN iffD1])
    show thesis using 1(1) r 2 3 m pm [symmetric] unfolding code by (rule that)
  qed
qed

lemma cbor_payload_parts:
  assumes "cbor_top_level_ranges lib data = Ok ranges" and "cbor_payload (Contiguous data) ranges spec = Ok p"
  shows "verbatim_part data ranges (args_index spec) 4 (args p)
    \<and> verbatim_part data ranges (kwargs_index spec) 5 (kwargs p)"
  using assms(2) cbor_payload_part_Ok [OF assms(1)]
  by (auto simp: cbor_payload_def and_then_eq_Ok)

text \<open>The canonical head of a definite-length CBOR array.\<close>

definition cbor_array_head :: "nat \<Rightarrow> byte list" where
  "cbor_array_head n =
     (if n < 24 then [of_nat (0x80 + n)]
      else if n < 256 then 0x98 # be_bytes 1 n
      else if n < 256 ^ 2 then 0x99 # be_bytes 2 n
      else if n < 256 ^ 4 then 0x9a # be_bytes 4 n
      else 0x9b # be_bytes 8 n)"

lemma cbor_array_header_short:
  assumes "n < 24"
  shows "cbor_array_header (of_nat (0x80 + n) # rest) = Ok (1, Some n)"
proof -
  have "n \<in> set (upt 0 24)" using assms by simp
  then show ?thesis
    by (simp add: upt_rec numeral_eq_Suc)
       (elim disjE; simp add: cbor_array_header_def usize_max_def unat_of_nat)
qed

lemma cbor_array_header_long:
  assumes "(w, m) \<in> {(1, 0x98), (2, 0x99), (4, 0x9a), (8, 0x9b)}" and "n < 256 ^ w"
  shows "cbor_array_header (m # be_bytes w n @ rest) = Ok (Suc w, Some n)"
proof -
  have w: "w \<le> 8" using assms(1) by auto
  have "cbor_array_header (m # be_bytes w n @ rest) =
      (if unat (of_nat n :: u64) \<le> usize_max then Ok (Suc w, Some (unat (of_nat n :: u64)))
       else Err (Deserialize ''CBOR array length exceeds usize''))"
    using assms(1) cbor_header_integer_be [OF assms(2) w, of m rest]
    by (auto simp: cbor_array_header_def)
  then show ?thesis
    using unat_u64_le [of "of_nat n"] by (simp add: unat_of_nat_u64 [OF assms(2) w])
qed

section \<open>A concrete frame\<close>

text \<open>A GOODBYE with empty details and empty arguments.\<close>

definition cbor_goodbye :: "byte list" where
  "cbor_goodbye = [0x84, 0x06, 0xa0, 0x61, 0x78, 0x80]"

definition cbor_goodbye_parsed :: parsed_message where
  "cbor_goodbye_parsed =
     \<lparr>message = Goodbye [] [0x78] \<lparr>args = Some [0x80], kwargs = None, transparent = None\<rparr>,
      raw_of = Contiguous cbor_goodbye, serializer_of = Cbor, encoded_metadata = None\<rparr>"

lemma small_cbor:
  "cbor_value_de small_serde [0x06] = Inr (VU64 6)" "cbor_value_de small_serde [0xa0] = Inr (VMap [])"
  "cbor_value_de small_serde [0x61, 0x78] = Inr (VString [0x78])" "cbor_value_de small_serde [0x80] = Inr (VSeq [])"
  "cbor_to_vec small_serde (VSeq []) = Inr [0x80]"
  "cbor_ignored_de small_serde (0x06 # xs) = Inr 1" "cbor_ignored_de small_serde (0xa0 # xs) = Inr 1"
  "cbor_ignored_de small_serde (0x61 # xs) = Inr 2" "cbor_ignored_de small_serde (0x80 # xs) = Inr 1"
  by (simp_all add: small_serde_def small_value_def small_text_def small_empty_def)

lemma cbor_goodbye_ranges:
  "cbor_top_level_ranges small_serde cbor_goodbye = Ok [(1, 2), (2, 3), (3, 5), (5, 6)]"
  by (simp add: cbor_top_level_ranges_def cbor_goodbye_def cbor_array_header_def cbor_ranges_loop.simps
      cbor_done_def small_cbor usize_max_def)

lemma cbor_goodbye_slices:
  "slice_or_copy (Contiguous cbor_goodbye) (1, 2) = Ok [0x06]"
  "slice_or_copy (Contiguous cbor_goodbye) (2, 3) = Ok [0xa0]"
  "slice_or_copy (Contiguous cbor_goodbye) (3, 5) = Ok [0x61, 0x78]"
  "slice_or_copy (Contiguous cbor_goodbye) (5, 6) = Ok [0x80]"
  by (simp_all add: slice_or_copy_def cbor_goodbye_def slice_bytes_def)

lemma cbor_goodbye_values:
  "cbor_value small_serde (Contiguous cbor_goodbye) (1, 2) = Ok (VU64 6)"
  "cbor_value small_serde (Contiguous cbor_goodbye) (2, 3) = Ok (VMap [])"
  "cbor_value small_serde (Contiguous cbor_goodbye) (3, 5) = Ok (VString [0x78])"
  "cbor_value small_serde (Contiguous cbor_goodbye) (5, 6) = Ok (VSeq [])"
  by (simp_all only: cbor_value_def cbor_goodbye_slices and_then.simps small_cbor lib_result.simps)

lemma cbor_goodbye_parse:
  "parse_cbor_message small_serde (Contiguous cbor_goodbye) = Ok cbor_goodbye_parsed"
  by (simp add: parse_cbor_message_def cbor_goodbye_ranges index_byte_def
      cbor_goodbye_values [unfolded One_nat_def] cbor_payload_spec_def cbor_payload_def
      cbor_payload_part_def cbor_goodbye_slices cbor_element_def parse_value_dispatch parse_goodbye_def
      extract_payload_def extract_args_def extract_kwargs_def serialize_value_def small_cbor
      cbor_goodbye_parsed_def)


section \<open>What the parser guarantees\<close>

text \<open>CBOR array heads round-trip. For every length a 64-bit target can hold, the head
  of the shortest encoding, in each of its five forms, is read back as that length
  together with the size of the head, whatever follows it.\<close>

theorem cbor_array_header_roundtrip:
  assumes "n < 2 ^ 64"
  shows "cbor_array_header (cbor_array_head n @ rest) = Ok (length (cbor_array_head n), Some n)"
proof -
  have n: "n < 256 ^ 8" using assms by simp
  show ?thesis
    using cbor_array_header_short [of n rest] cbor_array_header_long [of 1 "0x98" n rest]
      cbor_array_header_long [of 2 "0x99" n rest] cbor_array_header_long [of 4 "0x9a" n rest]
      cbor_array_header_long [of 8 "0x9b" n rest] n
    unfolding cbor_array_head_def by (cases "n < 24") auto
qed

theorem cbor_array_header_roundtrip_witness:
  "cbor_array_header (cbor_array_head 300 @ [0x01]) = Ok (length (cbor_array_head 300), Some 300)
   \<and> length (cbor_array_head 300) = 3"
  using cbor_array_header_roundtrip [of 300 "[0x01]"] by (simp add: cbor_array_head_def)

text \<open>The elements of an accepted CBOR frame tile it. When \<open>cbor_top_level_ranges\<close>
  succeeds, the ranges are non-empty and consecutive, the first starts right after the
  array head and the last ends at the end of the frame (before the final break byte
  \<open>0xff\<close> of an indefinite-length array), their number is the length in the head, and each
  is exactly what the library consumed there: no byte is skipped or counted twice,
  whatever lengths the library reports.\<close>

theorem cbor_top_level_ranges_tile:
  assumes "cbor_top_level_ranges lib data = Ok ranges"
  shows "\<exists>header_len len. cbor_array_header data = Ok (header_len, len) \<and>
    tiles header_len ranges (body_end len data) \<and>
    (case len of Some n \<Rightarrow> length ranges = n | None \<Rightarrow> data \<noteq> [] \<and> last data = 0xff) \<and>
    (\<forall>(s, e) \<in> set ranges. cbor_ignored_de lib (drop s data) = Inr (e - s))"
  by (rule cbor_top_level_ranges_Ok [OF assms]) blast

theorem cbor_top_level_ranges_tile_witness:
  "\<exists>header_len len. cbor_array_header cbor_goodbye = Ok (header_len, len) \<and>
    tiles header_len [(1, 2), (2, 3), (3, 5), (5, 6)] (body_end len cbor_goodbye) \<and>
    cbor_ignored_de small_serde (drop 3 cbor_goodbye) = Inr 2"
  using cbor_top_level_ranges_tile [OF cbor_goodbye_ranges] by auto

text \<open>A contiguous CBOR frame that parses gives a message whose code is the integer
  the library decodes from the first element, and whose payload, if the kind of message
  has one, is verbatim: the arguments and keyword arguments are the bytes of the elements
  at the positions WAMP gives them for that code, of major type array and map, or absent
  where the element is missing or null.\<close>

theorem parse_cbor_code_and_payload:
  assumes "parse_cbor_message lib (Contiguous data) = Ok pm"
  shows "\<exists>ranges s e v. cbor_top_level_ranges lib data = Ok ranges \<and> nth_opt ranges 0 = Some (s, e) \<and>
    cbor_value_de lib (seg data s e) = Inr v \<and>
    value_as_u64 v ''message code'' = Ok (message_code (message pm)) \<and>
    (\<forall>p. message_payload (message pm) = Some p \<longrightarrow>
      (\<exists>spec. cbor_payload_spec (message_code (message pm)) = Some spec \<and>
        verbatim_part data ranges (args_index spec) 4 (args p) \<and>
        verbatim_part data ranges (kwargs_index spec) 5 (kwargs p)))"
  using assms
proof (rule parse_cbor_Ok)
  fix ranges r v part rest m
  assume ranges: "cbor_top_level_ranges lib data = Ok ranges" and r: "nth_opt ranges 0 = Some r"
    and v: "cbor_value lib (Contiguous data) r = Ok v"
    and code: "value_as_u64 v ''message code'' = Ok (message_code m)"
    and part: "transpose_opt (map_option (\<lambda>spec. map_ok (Pair spec) (cbor_payload (Contiguous data) ranges spec))
       (cbor_payload_spec (message_code m))) = Ok part"
    and pm: "pm = \<lparr>message = (case part of Some (spec, p) \<Rightarrow> replace_message_payload m p | None \<Rightarrow> m),
       raw_of = Contiguous data, serializer_of = Cbor, encoded_metadata = None\<rparr>"
  obtain s e where se: "r = (s, e)" by force
  have v': "cbor_value_de lib (seg data s e) = Inr v"
    using v cbor_value_slice [OF ranges nth_opt_in_set [OF r [unfolded se]]] se
    by (simp add: lib_result_eq_Ok)
  have code': "message_code (message pm) = message_code m"
    using pm by (auto split: option.splits)
  have "\<exists>spec. cbor_payload_spec (message_code m) = Some spec \<and> cbor_payload (Contiguous data) ranges spec = Ok p"
    if "message_payload (message pm) = Some p" for p
  proof (cases part)
    case None
    then have "message_payload m = Some p" using that pm by simp
    moreover have "cbor_payload_spec (message_code m) = None"
      using part None by (auto simp: transpose_opt_eq_Ok)
    ultimately show ?thesis by (cases m) (auto simp: cbor_payload_spec_def)
  next
    case (Some q)
    then show ?thesis using part that pm by (auto simp: outcome_simps)
  qed
  then have "\<forall>p. message_payload (message pm) = Some p \<longrightarrow>
      (\<exists>spec. cbor_payload_spec (message_code m) = Some spec \<and>
        verbatim_part data ranges (args_index spec) 4 (args p) \<and>
        verbatim_part data ranges (kwargs_index spec) 5 (kwargs p))"
    using cbor_payload_parts [OF ranges] by blast
  with ranges r v' code show ?thesis unfolding code' se by blast
qed

theorem parse_cbor_code_and_payload_witness:
  "\<exists>ranges s e v. cbor_top_level_ranges small_serde cbor_goodbye = Ok ranges \<and> nth_opt ranges 0 = Some (s, e) \<and>
    cbor_value_de small_serde (seg cbor_goodbye s e) = Inr v \<and> value_as_u64 v ''message code'' = Ok 6 \<and>
    (\<exists>spec. cbor_payload_spec 6 = Some spec \<and> verbatim_part cbor_goodbye ranges (args_index spec) 4 (Some [0x80]))"
  using parse_cbor_code_and_payload [OF cbor_goodbye_parse]
  by (simp add: cbor_goodbye_parsed_def) blast

text \<open>No bytes and no library make the CBOR parser panic, for contiguous and for
  segmented frames: a library that claims to have consumed more than there is leads to an
  error, not to a slice out of bounds, and the loop over the elements always ends.\<close>

theorem parse_cbor_never_panics: "parse_cbor_message lib frame \<noteq> Panic"
proof (cases frame)
  case (Contiguous data)
  have "index_byte ranges 0 \<noteq> (Panic :: byte_range parsed)" if "ranges \<noteq> []" for ranges
    using that by (simp add: index_byte_def)
  moreover have "r \<in> set ranges" if "index_byte ranges 0 = (Ok r :: byte_range parsed)" for r ranges
    using that by (auto simp: index_byte_def split: if_splits)
  ultimately show ?thesis
    unfolding Contiguous parse_cbor_message_def
    by (auto simp: outcome_simps cbor_top_level_ranges_no_panic cbor_parts_no_panic
        parse_value_parts_no_panic cbor_parts_no_panic(3) [unfolded One_nat_def])
next
  case (Segmented segments len)
  then show ?thesis by (simp add: parse_cbor_message_def parse_value_message_no_panic)
qed

section \<open>The fast path against full decoding\<close>






















definition same_message :: "wamp_message \<Rightarrow> wamp_message \<Rightarrow> bool" where
  "same_message m m' =
     ((\<forall>p. replace_message_payload m p = replace_message_payload m' p)
      \<and> (\<forall>p q. message_payload m = Some p \<longrightarrow> message_payload m' = Some q \<longrightarrow>
           (args p = None \<longleftrightarrow> args q = None) \<and> (kwargs p = None \<longleftrightarrow> kwargs q = None)))"



lemma same_message_refl [simp]: "same_message m m"
  by (simp add: same_message_def)






end
