(* ===== verification/Rust_Text.thy ===== *)
theory Rust_Text
  imports Prelude "HOL-Library.List_Lexorder"
begin

text \<open>
  Text of the Rust standard library as the program uses it. A string is its UTF-8 bytes
  (\<open>rstr\<close>), so \<open>len\<close> is the length of the list and comparisons are those of the bytes. Trimming,
  ASCII case, splitting, prefixes and decimal numbers are functions; the full case mapping of
  Unicode is a large table and is a parameter (\<open>unicode\<close>), of which \<open>unicode_laws\<close> states what
  the program relies on.
\<close>

section \<open>White space\<close>

text \<open>\<open>str::trim\<close> removes the characters with the Unicode property White_Space, here by
  their UTF-8 encodings.\<close>

definition white_space :: "byte list list" where
  "white_space =
     map (\<lambda>b. [of_nat b]) [0x09, 0x0a, 0x0b, 0x0c, 0x0d, 0x20]
     @ [[0xc2, 0x85], [0xc2, 0xa0], [0xe1, 0x9a, 0x80]]
     @ map (\<lambda>b. [0xe2, 0x80, of_nat b]) (upt 0x80 0x8b @ [0xa8, 0xa9, 0xaf])
     @ [[0xe2, 0x81, 0x9f], [0xe3, 0x80, 0x80]]"

text \<open>The number of bytes of a white space character at the front of a text, 0 if there
  is none.\<close>

definition ws_prefix :: "rstr \<Rightarrow> nat" where
  "ws_prefix s =
     (if take 1 s \<in> set white_space then 1 else if take 2 s \<in> set white_space then 2
      else if take 3 s \<in> set white_space then 3 else 0)"

definition ws_suffix :: "rstr \<Rightarrow> nat" where
  "ws_suffix s =
     (if rev (take 1 (rev s)) \<in> set white_space then 1
      else if rev (take 2 (rev s)) \<in> set white_space then 2
      else if rev (take 3 (rev s)) \<in> set white_space then 3 else 0)"

function trim_start :: "rstr \<Rightarrow> rstr" where
  "trim_start s = (if s = [] \<or> ws_prefix s = 0 then s else trim_start (drop (ws_prefix s) s))"
  by pat_completeness auto
termination
  by (relation "measure length") auto

function trim_end :: "rstr \<Rightarrow> rstr" where
  "trim_end s = (if s = [] \<or> ws_suffix s = 0 then s else trim_end (take (length s - ws_suffix s) s))"
  by pat_completeness auto
termination
  by (relation "measure length") auto

declare trim_start.simps [simp del] trim_end.simps [simp del]

definition trim :: "rstr \<Rightarrow> rstr" where
  "trim s = trim_end (trim_start s)"

definition ws_text :: "rstr \<Rightarrow> bool" where
  "ws_text s = (\<exists>ws. set ws \<subseteq> set white_space \<and> s = concat ws)"

lemma ws_text_Nil [simp]: "ws_text []"
  unfolding ws_text_def by (rule exI [of _ "[]"]) simp

lemma ws_text_append: "ws_text s \<Longrightarrow> ws_text t \<Longrightarrow> ws_text (s @ t)"
  unfolding ws_text_def by (metis concat_append set_append Un_subset_iff)

lemma ws_text_single: "w \<in> set white_space \<Longrightarrow> ws_text w"
  unfolding ws_text_def by (rule exI [of _ "[w]"]) simp

lemma white_space_eq: "set white_space =
   {[0x09], [0x0a], [0x0b], [0x0c], [0x0d], [0x20], [0xc2, 0x85], [0xc2, 0xa0], [0xe1, 0x9a, 0x80],
    [0xe2, 0x80, 0x80], [0xe2, 0x80, 0x81], [0xe2, 0x80, 0x82], [0xe2, 0x80, 0x83], [0xe2, 0x80, 0x84],
    [0xe2, 0x80, 0x85], [0xe2, 0x80, 0x86], [0xe2, 0x80, 0x87], [0xe2, 0x80, 0x88], [0xe2, 0x80, 0x89],
    [0xe2, 0x80, 0x8a], [0xe2, 0x80, 0xa8], [0xe2, 0x80, 0xa9], [0xe2, 0x80, 0xaf], [0xe2, 0x81, 0x9f],
    [0xe3, 0x80, 0x80]}"
  by (simp add: white_space_def upt_rec insert_commute)

lemma ws_prefix_white: "w \<in> set white_space \<Longrightarrow> ws_prefix (w @ s) = length w"
  unfolding ws_prefix_def white_space_eq by (elim insertE emptyE) simp_all

lemma ws_suffix_white: "w \<in> set white_space \<Longrightarrow> ws_suffix (s @ w) = length w"
  unfolding ws_suffix_def white_space_eq by (elim insertE emptyE) simp_all

lemma ws_prefix_cases: "ws_prefix s = 0 \<or> take (ws_prefix s) s \<in> set white_space"
  unfolding ws_prefix_def by simp

lemma ws_suffix_cases: "ws_suffix s = 0 \<or> drop (length s - ws_suffix s) s \<in> set white_space"
  unfolding ws_suffix_def by (simp add: take_rev)

lemma trim_start_split: "\<exists>t. ws_text t \<and> s = t @ trim_start s"
proof (induction s rule: trim_start.induct)
  case (1 s)
  show ?case
  proof (cases "s = [] \<or> ws_prefix s = 0")
    case True
    then show ?thesis by (intro exI [of _ "[]"]) (simp add: trim_start.simps [of s])
  next
    case False
    with 1 obtain t where t: "ws_text t" "drop (ws_prefix s) s = t @ trim_start (drop (ws_prefix s) s)" by blast
    have "ws_text (take (ws_prefix s) s @ t)"
      using t(1) ws_prefix_cases [of s] False ws_text_append ws_text_single by blast
    moreover have "s = (take (ws_prefix s) s @ t) @ trim_start s"
      using False t(2) by (simp add: trim_start.simps [of s])
    ultimately show ?thesis by blast
  qed
qed

lemma trim_end_split: "\<exists>t. ws_text t \<and> s = trim_end s @ t"
proof (induction s rule: trim_end.induct)
  case (1 s)
  show ?case
  proof (cases "s = [] \<or> ws_suffix s = 0")
    case True
    then show ?thesis by (intro exI [of _ "[]"]) (simp add: trim_end.simps [of s])
  next
    case False
    let ?n = "length s - ws_suffix s"
    from 1 [OF False] obtain t where t: "ws_text t" "take ?n s = trim_end (take ?n s) @ t" by blast
    have "ws_text (t @ drop ?n s)"
      using t(1) ws_suffix_cases [of s] False ws_text_append ws_text_single by blast
    moreover have "s = trim_end s @ (t @ drop ?n s)"
      using False t(2) by (simp add: trim_end.simps [of s]) (metis append_assoc append_take_drop_id)
    ultimately show ?thesis by blast
  qed
qed

lemma white_space_nonempty: "w \<in> set white_space \<Longrightarrow> w \<noteq> []"
  unfolding white_space_eq by auto

lemma trim_start_text: "ws_text t \<Longrightarrow> ws_prefix s = 0 \<Longrightarrow> trim_start (t @ s) = s"
proof -
  assume "ws_text t" and s: "ws_prefix s = 0"
  then obtain ws where "set ws \<subseteq> set white_space" "t = concat ws" unfolding ws_text_def by blast
  then show ?thesis
  proof (induction ws arbitrary: t)
    case Nil
    then show ?case using s by (simp add: trim_start.simps [of s])
  next
    case (Cons w ws)
    then show ?case
      using white_space_nonempty [of w] by (simp add: trim_start.simps [of "w @ _"] ws_prefix_white)
  qed
qed

lemma trim_end_text: "ws_text t \<Longrightarrow> ws_suffix s = 0 \<Longrightarrow> trim_end (s @ t) = s"
proof -
  assume "ws_text t" and s: "ws_suffix s = 0"
  then obtain ws where "set ws \<subseteq> set white_space" "t = concat ws" unfolding ws_text_def by blast
  then show ?thesis
  proof (induction ws arbitrary: t rule: rev_induct)
    case Nil
    then show ?case using s by (simp add: trim_end.simps [of s])
  next
    case (snoc w ws)
    then show ?case
      using white_space_nonempty [of w] ws_suffix_white [of w "s @ concat ws"]
      by (simp add: trim_end.simps [of "s @ _ @ w"])
  qed
qed

section \<open>ASCII\<close>

definition ascii :: "string \<Rightarrow> rstr" where
  "ascii s = map of_char s"

definition is_ascii_whitespace :: "byte \<Rightarrow> bool" where
  "is_ascii_whitespace b = (unat b \<in> {0x20, 0x09, 0x0a, 0x0c, 0x0d})"

definition trim_ascii :: "byte list \<Rightarrow> byte list" where
  "trim_ascii s = rev (dropWhile is_ascii_whitespace (rev (dropWhile is_ascii_whitespace s)))"

definition is_ascii_digit :: "byte \<Rightarrow> bool" where
  "is_ascii_digit b = (0x30 \<le> b \<and> b \<le> 0x39)"

definition is_ascii_uppercase :: "byte \<Rightarrow> bool" where
  "is_ascii_uppercase b = (0x41 \<le> b \<and> b \<le> 0x5A)"

definition is_ascii_lowercase :: "byte \<Rightarrow> bool" where
  "is_ascii_lowercase b = (0x61 \<le> b \<and> b \<le> 0x7A)"

definition is_ascii_alphanumeric :: "byte \<Rightarrow> bool" where
  "is_ascii_alphanumeric b = (is_ascii_digit b \<or> is_ascii_uppercase b \<or> is_ascii_lowercase b)"

definition ascii_lower :: "byte \<Rightarrow> byte" where
  "ascii_lower b = (if is_ascii_uppercase b then b + 0x20 else b)"

definition to_ascii_lowercase :: "rstr \<Rightarrow> rstr" where
  "to_ascii_lowercase s = map ascii_lower s"

definition eq_ignore_ascii_case :: "rstr \<Rightarrow> rstr \<Rightarrow> bool" where
  "eq_ignore_ascii_case s t = (to_ascii_lowercase s = to_ascii_lowercase t)"

lemmas ascii_simps = is_ascii_digit_def is_ascii_uppercase_def is_ascii_lowercase_def is_ascii_alphanumeric_def
  ascii_lower_def

lemma eq_ignore_ascii_case_refl [simp]: "eq_ignore_ascii_case s s"
  by (simp add: eq_ignore_ascii_case_def)

lemma eq_ignore_ascii_case_sym: "eq_ignore_ascii_case s t = eq_ignore_ascii_case t s"
  by (auto simp: eq_ignore_ascii_case_def)

lemma ascii_lower_idem [simp]: "ascii_lower (ascii_lower b) = ascii_lower b"
  by (simp add: ascii_lower_def is_ascii_uppercase_def word_le_nat_alt unat_plus_if')

section \<open>Searching and splitting\<close>

definition starts_with :: "rstr \<Rightarrow> rstr \<Rightarrow> bool" where
  "starts_with s p = (take (length p) s = p)"

definition strip_prefix :: "rstr \<Rightarrow> rstr \<Rightarrow> rstr option" where
  "strip_prefix s p = (if starts_with s p then Some (drop (length p) s) else None)"

fun contains :: "rstr \<Rightarrow> rstr \<Rightarrow> bool" where
  "contains [] p = (p = [])"
| "contains (b # s) p = (starts_with (b # s) p \<or> contains s p)"

definition trim_matches :: "byte \<Rightarrow> rstr \<Rightarrow> rstr" where
  "trim_matches c s = rev (dropWhile (\<lambda>b. b = c) (rev (dropWhile (\<lambda>b. b = c) s)))"

text \<open>\<open>str::split\<close> with a character: one piece more than there are separators.\<close>

fun split_on :: "byte \<Rightarrow> rstr \<Rightarrow> rstr list" where
  "split_on c [] = [[]]"
| "split_on c (b # s) =
     (if b = c then [] # split_on c s
      else case split_on c s of [] \<Rightarrow> [[b]] | p # ps \<Rightarrow> (b # p) # ps)"

lemma split_on_not_Nil [simp]: "split_on c s \<noteq> []"
  by (cases s) (auto split: list.splits)

lemma length_split_on: "length (split_on c s) = Suc (length (filter (\<lambda>b. b = c) s))"
  by (induction s) (auto split: list.splits)

lemma split_on_piece: "p \<in> set (split_on c s) \<Longrightarrow> c \<notin> set p"
proof (induction s arbitrary: p)
  case (Cons b s)
  then show ?case by (cases "split_on c s") (auto split: if_splits)
qed simp

fun join :: "rstr \<Rightarrow> rstr list \<Rightarrow> rstr" where
  "join sep [] = []"
| "join sep [p] = p"
| "join sep (p # ps) = p @ sep @ join sep ps"

lemma join_split_on: "join [c] (split_on c s) = s"
proof (induction s)
  case (Cons b s)
  then show ?case by (cases "split_on c s"; cases "tl (split_on c s)") auto
qed simp

section \<open>Decimal numbers\<close>

fun decimal :: "nat \<Rightarrow> rstr" where
  "decimal n = (if n < 10 then [of_nat (48 + n)] else decimal (n div 10) @ [of_nat (48 + n mod 10)])"

declare decimal.simps [simp del]

text \<open>The value of a string of digits, most significant first.\<close>

definition digits_value :: "rstr \<Rightarrow> nat" where
  "digits_value s = foldl (\<lambda>n b. 10 * n + (unat b - 48)) 0 s"

lemma digit_byte: "d < 10 \<Longrightarrow> unat (of_nat (48 + d) :: byte) = 48 + d"
  by (simp add: unat_of_nat del: of_nat_add)

lemma decimal_digits: "b \<in> set (decimal n) \<Longrightarrow> is_ascii_digit b"
proof (induction n rule: decimal.induct)
  case (1 n)
  have d: "is_ascii_digit (of_nat (48 + d))" if "d < 10" for d
    using digit_byte [OF that] that by (simp add: is_ascii_digit_def word_le_nat_alt)
  show ?case
  proof (cases "n < 10")
    case True
    with 1(2) d [of n] show ?thesis by (simp add: decimal.simps [of n])
  next
    case False
    with 1 d [of "n mod 10"] show ?thesis by (subst (asm) (2) decimal.simps) auto
  qed
qed

lemma decimal_not_Nil [simp]: "decimal n \<noteq> []"
  by (simp add: decimal.simps [of n])

lemma digits_value_decimal [simp]: "digits_value (decimal n) = n"
proof (induction n rule: decimal.induct)
  case (1 n)
  show ?case
  proof (cases "n < 10")
    case True
    then show ?thesis using digit_byte [OF True] by (simp add: decimal.simps [of n] digits_value_def)
  next
    case False
    have "unat (of_nat (48 + n mod 10) :: byte) - 48 = n mod 10" using digit_byte [of "n mod 10"] by simp
    with 1 [OF False] False show ?thesis by (simp add: decimal.simps [of n] digits_value_def del: of_nat_add)
  qed
qed

text \<open>\<open>str::parse::<u64>\<close>: an optional plus sign and digits, without overflow.\<close>

definition parse_u64 :: "rstr \<Rightarrow> nat option" where
  "parse_u64 s =
     (let ds = (case s of b # t \<Rightarrow> if b = 0x2B then t else s | [] \<Rightarrow> []) in
      if ds = [] \<or> \<not> list_all is_ascii_digit ds \<or> digits_value ds \<ge> 2 ^ 64 then None else Some (digits_value ds))"

section \<open>Unicode\<close>

text \<open>\<open>String::from_utf8_lossy\<close>: every maximal part that cannot be continued to a character is
  replaced by U+FFFD. \<open>second_ok\<close> is the range of a second byte after the given first one.\<close>

definition second_ok :: "byte \<Rightarrow> byte \<Rightarrow> bool" where
  "second_ok a b =
     (if a = 0xE0 then 0xA0 \<le> b \<and> b \<le> 0xBF else if a = 0xED then 0x80 \<le> b \<and> b \<le> 0x9F
      else if a = 0xF0 then 0x90 \<le> b \<and> b \<le> 0xBF else if a = 0xF4 then 0x80 \<le> b \<and> b \<le> 0x8F
      else 0x80 \<le> b \<and> b \<le> 0xBF)"

definition third_ok :: "byte \<Rightarrow> bool" where
  "third_ok b = (0x80 \<le> b \<and> b \<le> 0xBF)"

definition bytes_of_first :: "byte \<Rightarrow> nat" where
  "bytes_of_first a =
     (if a \<le> 0x7F then 1 else if 0xC2 \<le> a \<and> a \<le> 0xDF then 2 else if 0xE0 \<le> a \<and> a \<le> 0xEF then 3
      else if 0xF0 \<le> a \<and> a \<le> 0xF4 then 4 else 0)"

text \<open>The number of bytes at the front that belong together, and whether they are a character.\<close>

definition next_char :: "byte \<Rightarrow> byte list \<Rightarrow> nat \<times> bool" where
  "next_char a bs =
     (let n = bytes_of_first a in
      if n = 0 then (1, False)
      else if n = 1 then (1, True)
      else if bs = [] \<or> \<not> second_ok a (bs ! 0) then (1, False)
      else if n = 2 then (2, True)
      else if length bs < 2 \<or> \<not> third_ok (bs ! 1) then (2, False)
      else if n = 3 then (3, True)
      else if length bs < 3 \<or> \<not> third_ok (bs ! 2) then (3, False)
      else (4, True))"

function from_utf8_lossy :: "byte list \<Rightarrow> rstr" where
  "from_utf8_lossy [] = []"
| "from_utf8_lossy (a # bs) =
     (case next_char a bs of (n, ok) \<Rightarrow>
        (if ok then take n (a # bs) else [0xEF, 0xBF, 0xBD]) @ from_utf8_lossy (drop (n - 1) bs))"
  by pat_completeness auto
termination
  by (relation "measure length") auto

declare from_utf8_lossy.simps [simp del]

lemma from_utf8_lossy_ascii: "\<forall>b \<in> set s. b < 0x80 \<Longrightarrow> from_utf8_lossy s = s"
proof (induction s)
  case (Cons a s)
  then have "a \<le> 0x7F" by (simp add: word_less_nat_alt word_le_nat_alt)
  then have "next_char a s = (1, True)" by (simp add: next_char_def bytes_of_first_def)
  with Cons show ?case by (simp add: from_utf8_lossy.simps)
qed (simp add: from_utf8_lossy.simps)

text \<open>\<open>str::to_lowercase\<close> and \<open>str::to_uppercase\<close>.\<close>

record unicode =
  to_lowercase :: "rstr \<Rightarrow> rstr"
  to_uppercase :: "rstr \<Rightarrow> rstr"

text \<open>Lower case does not depend on the case of ASCII letters, the mapping of ASCII text is the
  ASCII one, and the case of text is never mapped to nothing.\<close>

definition unicode_laws :: "unicode \<Rightarrow> bool" where
  "unicode_laws u =
     ((\<forall>s. to_lowercase u (to_ascii_lowercase s) = to_lowercase u s)
      \<and> (\<forall>s. (\<forall>b \<in> set s. b < 0x80) \<longrightarrow> to_lowercase u s = to_ascii_lowercase s)
      \<and> (\<forall>s. to_uppercase u s = [] \<longleftrightarrow> s = []))"

end
