(* ===== verification/Wamp_Json.thy ===== *)
theory Wamp_Json
  imports Wamp_Cbor Rust_Text
begin

text \<open>
  The JSON parser of \<^verbatim>\<open>ct_core/src/wamp.rs\<close>. The frame is flattened, the library splits the
  top-level array into borrowed raw texts (positions in the payload), the typed fields
  are parsed by the library, and arguments and keyword arguments are sliced out of the
  payload at the borrowed positions.
\<close>

section \<open>Raw values and texts\<close>

text \<open>A borrowed \<^verbatim>\<open>RawValue\<close> is its start and length in the payload.\<close>

type_synonym raw_value = "nat \<times> nat"

definition raw_get :: "byte list \<Rightarrow> raw_value \<Rightarrow> rstr" where
  "raw_get raw_payload raw = take (snd raw) (drop (fst raw) raw_payload)"

definition slice_raw :: "byte list \<Rightarrow> raw_value \<Rightarrow> byte list parsed" where
  "slice_raw raw_payload raw = slice_bytes raw_payload (fst raw) (fst raw + snd raw)"

text \<open>The first byte of the first character that is not ASCII white space; it decides
  the comparison with a bracket or brace, which are single bytes in UTF-8.\<close>

definition first_non_ws :: "rstr \<Rightarrow> byte option" where
  "first_non_ws s = nth_opt (dropWhile is_ascii_whitespace s) 0"

definition is_json_null :: "rstr \<Rightarrow> bool" where
  "is_json_null s = (trim s = [0x6e, 0x75, 0x6c, 0x6c])"

section \<open>Typed fields\<close>

definition json_get :: "raw_value list \<Rightarrow> nat \<Rightarrow> label \<Rightarrow> raw_value parsed" where
  "json_get fds index lbl = ok_or (nth_opt fds index) (MissingElement lbl)"

definition json_string :: "serde \<Rightarrow> rstr \<Rightarrow> label \<Rightarrow> rstr parsed" where
  "json_string lib raw lbl =
     (if is_json_null raw then Err (ExpectedString lbl)
      else lib_result Deserialize (json_string_de lib raw))"

definition json_u64 :: "serde \<Rightarrow> rstr \<Rightarrow> label \<Rightarrow> u64 parsed" where
  "json_u64 lib raw lbl = lib_result (\<lambda>_. ExpectedIdentifier lbl) (json_u64_de lib raw)"

definition json_optional_u64 :: "serde \<Rightarrow> rstr option \<Rightarrow> label \<Rightarrow> u64 option parsed" where
  "json_optional_u64 lib raw lbl =
     (case raw of
        None \<Rightarrow> Ok None
      | Some raw \<Rightarrow> if is_json_null raw then Ok None else map_ok Some (json_u64 lib raw lbl))"

definition json_map :: "serde \<Rightarrow> rstr \<Rightarrow> label \<Rightarrow> value_map parsed" where
  "json_map lib raw lbl =
     (if is_json_null raw then Ok []
      else if first_non_ws raw \<noteq> Some 0x7b then Err (ExpectedMap lbl)
      else and_then (lib_result Deserialize (json_value_de lib raw)) (\<lambda>v.
        case v of VMap entries \<Rightarrow> Ok entries | VUnit \<Rightarrow> Ok [] | _ \<Rightarrow> Err (ExpectedMap lbl)))"

definition json_optional_map :: "serde \<Rightarrow> rstr option \<Rightarrow> label \<Rightarrow> value_map parsed" where
  "json_optional_map lib raw lbl =
     (case raw of None \<Rightarrow> Ok [] | Some raw \<Rightarrow> json_map lib raw lbl)"

text \<open>One part of the payload: absent or null, or its bytes if its text opens with the
  expected bracket.\<close>

definition json_payload_part ::
  "byte list \<Rightarrow> raw_value option \<Rightarrow> byte \<Rightarrow> parse_error \<Rightarrow> byte list option parsed" where
  "json_payload_part raw_payload raw bracket wrong =
     (case raw of
        None \<Rightarrow> Ok None
      | Some r \<Rightarrow>
          if is_json_null (raw_get raw_payload r) then Ok None
          else if first_non_ws (raw_get raw_payload r) = Some bracket then map_ok Some (slice_raw raw_payload r)
          else Err wrong)"

definition json_payload ::
  "byte list \<Rightarrow> label \<Rightarrow> raw_value option \<Rightarrow> label \<Rightarrow> raw_value option \<Rightarrow> payload parsed" where
  "json_payload raw_payload al a kl k =
     and_then (json_payload_part raw_payload a 0x5b (ExpectedList al)) (\<lambda>a'.
     and_then (json_payload_part raw_payload k 0x7b (ExpectedMap kl)) (\<lambda>k'.
     Ok \<lparr>args = a', kwargs = k', transparent = None\<rparr>))"

section \<open>One reader per message\<close>

definition json_hello :: "serde \<Rightarrow> byte list \<Rightarrow> raw_value list \<Rightarrow> wamp_message parsed" where
  "json_hello lib raw_payload fds =
     and_then (json_get fds 1 ''hello.realm'') (\<lambda>realm_raw.
     and_then (json_get fds 2 ''hello.details'') (\<lambda>details_raw.
     and_then (json_string lib (raw_get raw_payload realm_raw) ''hello.realm'') (\<lambda>realm.
     and_then (json_map lib (raw_get raw_payload details_raw) ''hello.details'') (\<lambda>details.
     Ok (Hello realm details)))))"

definition json_welcome :: "serde \<Rightarrow> byte list \<Rightarrow> raw_value list \<Rightarrow> wamp_message parsed" where
  "json_welcome lib raw_payload fds =
     and_then (json_get fds 1 ''welcome.session_id'') (\<lambda>session_id_raw.
     and_then (json_get fds 2 ''welcome.details'') (\<lambda>details_raw.
     and_then (json_u64 lib (raw_get raw_payload session_id_raw) ''welcome.session_id'') (\<lambda>session_id.
     and_then (json_map lib (raw_get raw_payload details_raw) ''welcome.details'') (\<lambda>details.
     Ok (Welcome session_id details)))))"

definition json_abort :: "serde \<Rightarrow> byte list \<Rightarrow> raw_value list \<Rightarrow> wamp_message parsed" where
  "json_abort lib raw_payload fds =
     and_then (json_get fds 1 ''abort.details'') (\<lambda>details_raw.
     and_then (json_get fds 2 ''abort.reason'') (\<lambda>reason_raw.
     and_then (json_payload raw_payload ''abort.arguments'' (nth_opt fds 3) ''abort.argumentsKw'' (nth_opt fds 4)) (\<lambda>p.
     and_then (json_map lib (raw_get raw_payload details_raw) ''abort.details'') (\<lambda>details.
     and_then (json_string lib (raw_get raw_payload reason_raw) ''abort.reason'') (\<lambda>reason.
     Ok (Abort details reason p))))))"

definition json_challenge :: "serde \<Rightarrow> byte list \<Rightarrow> raw_value list \<Rightarrow> wamp_message parsed" where
  "json_challenge lib raw_payload fds =
     and_then (json_get fds 1 ''challenge.auth_method'') (\<lambda>auth_method_raw.
     and_then (json_get fds 2 ''challenge.extra'') (\<lambda>extra_raw.
     and_then (json_string lib (raw_get raw_payload auth_method_raw) ''challenge.auth_method'') (\<lambda>auth_method.
     and_then (json_map lib (raw_get raw_payload extra_raw) ''challenge.extra'') (\<lambda>extra.
     Ok (Challenge auth_method extra)))))"

definition json_authenticate :: "serde \<Rightarrow> byte list \<Rightarrow> raw_value list \<Rightarrow> wamp_message parsed" where
  "json_authenticate lib raw_payload fds =
     and_then (json_get fds 1 ''authenticate.signature'') (\<lambda>signature_raw.
     and_then (json_string lib (raw_get raw_payload signature_raw) ''authenticate.signature'') (\<lambda>signature.
     and_then (json_optional_map lib (map_option (raw_get raw_payload) (nth_opt fds 2)) ''authenticate.extra'') (\<lambda>extra.
     Ok (Authenticate signature extra))))"

definition json_goodbye :: "serde \<Rightarrow> byte list \<Rightarrow> raw_value list \<Rightarrow> wamp_message parsed" where
  "json_goodbye lib raw_payload fds =
     and_then (json_get fds 1 ''goodbye.details'') (\<lambda>details_raw.
     and_then (json_get fds 2 ''goodbye.reason'') (\<lambda>reason_raw.
     and_then (json_payload raw_payload ''goodbye.arguments'' (nth_opt fds 3) ''goodbye.argumentsKw'' (nth_opt fds 4)) (\<lambda>p.
     and_then (json_map lib (raw_get raw_payload details_raw) ''goodbye.details'') (\<lambda>details.
     and_then (json_string lib (raw_get raw_payload reason_raw) ''goodbye.reason'') (\<lambda>reason.
     Ok (Goodbye details reason p))))))"

definition json_heartbeat :: "serde \<Rightarrow> byte list \<Rightarrow> raw_value list \<Rightarrow> wamp_message parsed" where
  "json_heartbeat lib raw_payload fds =
     and_then (json_get fds 1 ''heartbeat.details'') (\<lambda>details_raw.
     and_then (json_optional_u64 lib (map_option (raw_get raw_payload) (nth_opt fds 2)) ''heartbeat.ping'') (\<lambda>ping.
     and_then (json_optional_u64 lib (map_option (raw_get raw_payload) (nth_opt fds 3)) ''heartbeat.incoming'') (\<lambda>incoming.
     and_then (json_optional_u64 lib (map_option (raw_get raw_payload) (nth_opt fds 4)) ''heartbeat.outgoing'') (\<lambda>outgoing.
     and_then (json_map lib (raw_get raw_payload details_raw) ''heartbeat.details'') (\<lambda>details.
     Ok (Heartbeat details ping incoming outgoing))))))"

definition json_error :: "serde \<Rightarrow> byte list \<Rightarrow> raw_value list \<Rightarrow> wamp_message parsed" where
  "json_error lib raw_payload fds =
     and_then (json_get fds 1 ''error.request_type'') (\<lambda>request_type_raw.
     and_then (json_get fds 2 ''error.request_id'') (\<lambda>request_id_raw.
     and_then (json_get fds 3 ''error.details'') (\<lambda>details_raw.
     and_then (json_get fds 4 ''error.uri'') (\<lambda>err_raw.
     and_then (json_payload raw_payload ''error.arguments'' (nth_opt fds 5) ''error.argumentsKw'' (nth_opt fds 6)) (\<lambda>p.
     and_then (json_u64 lib (raw_get raw_payload request_type_raw) ''error.request_type'') (\<lambda>request_type.
     and_then (json_u64 lib (raw_get raw_payload request_id_raw) ''error.request_id'') (\<lambda>request_id.
     and_then (json_map lib (raw_get raw_payload details_raw) ''error.details'') (\<lambda>details.
     and_then (json_string lib (raw_get raw_payload err_raw) ''error.uri'') (\<lambda>err.
     Ok (Error request_type request_id details err p))))))))))"

definition json_publish :: "serde \<Rightarrow> byte list \<Rightarrow> raw_value list \<Rightarrow> wamp_message parsed" where
  "json_publish lib raw_payload fds =
     and_then (json_get fds 1 ''publish.request_id'') (\<lambda>request_id_raw.
     and_then (json_get fds 2 ''publish.options'') (\<lambda>options_raw.
     and_then (json_get fds 3 ''publish.topic'') (\<lambda>topic_raw.
     and_then (json_payload raw_payload ''publish.arguments'' (nth_opt fds 4) ''publish.argumentsKw'' (nth_opt fds 5)) (\<lambda>p.
     and_then (json_u64 lib (raw_get raw_payload request_id_raw) ''publish.request_id'') (\<lambda>request_id.
     and_then (json_map lib (raw_get raw_payload options_raw) ''publish.options'') (\<lambda>options.
     and_then (json_string lib (raw_get raw_payload topic_raw) ''publish.topic'') (\<lambda>topic.
     Ok (Publish request_id options topic p))))))))"

definition json_published :: "serde \<Rightarrow> byte list \<Rightarrow> raw_value list \<Rightarrow> wamp_message parsed" where
  "json_published lib raw_payload fds =
     and_then (json_get fds 1 ''published.request_id'') (\<lambda>request_id_raw.
     and_then (json_get fds 2 ''published.publication_id'') (\<lambda>publication_id_raw.
     and_then (json_u64 lib (raw_get raw_payload request_id_raw) ''published.request_id'') (\<lambda>request_id.
     and_then (json_u64 lib (raw_get raw_payload publication_id_raw) ''published.publication_id'') (\<lambda>publication_id.
     Ok (Published request_id publication_id)))))"

definition json_subscribe :: "serde \<Rightarrow> byte list \<Rightarrow> raw_value list \<Rightarrow> wamp_message parsed" where
  "json_subscribe lib raw_payload fds =
     and_then (json_get fds 1 ''subscribe.request_id'') (\<lambda>request_id_raw.
     and_then (json_get fds 2 ''subscribe.options'') (\<lambda>options_raw.
     and_then (json_get fds 3 ''subscribe.topic'') (\<lambda>topic_raw.
     and_then (json_u64 lib (raw_get raw_payload request_id_raw) ''subscribe.request_id'') (\<lambda>request_id.
     and_then (json_map lib (raw_get raw_payload options_raw) ''subscribe.options'') (\<lambda>options.
     and_then (json_string lib (raw_get raw_payload topic_raw) ''subscribe.topic'') (\<lambda>topic.
     Ok (Subscribe request_id options topic)))))))"

definition json_subscribed :: "serde \<Rightarrow> byte list \<Rightarrow> raw_value list \<Rightarrow> wamp_message parsed" where
  "json_subscribed lib raw_payload fds =
     and_then (json_get fds 1 ''subscribed.request_id'') (\<lambda>request_id_raw.
     and_then (json_get fds 2 ''subscribed.subscription_id'') (\<lambda>subscription_id_raw.
     and_then (json_u64 lib (raw_get raw_payload request_id_raw) ''subscribed.request_id'') (\<lambda>request_id.
     and_then (json_u64 lib (raw_get raw_payload subscription_id_raw) ''subscribed.subscription_id'') (\<lambda>subscription_id.
     Ok (Subscribed request_id subscription_id)))))"

definition json_unsubscribe :: "serde \<Rightarrow> byte list \<Rightarrow> raw_value list \<Rightarrow> wamp_message parsed" where
  "json_unsubscribe lib raw_payload fds =
     and_then (json_get fds 1 ''unsubscribe.request_id'') (\<lambda>request_id_raw.
     and_then (json_get fds 2 ''unsubscribe.subscription_id'') (\<lambda>subscription_id_raw.
     and_then (json_u64 lib (raw_get raw_payload request_id_raw) ''unsubscribe.request_id'') (\<lambda>request_id.
     and_then (json_u64 lib (raw_get raw_payload subscription_id_raw) ''unsubscribe.subscription_id'') (\<lambda>subscription_id.
     Ok (Unsubscribe request_id subscription_id)))))"

definition json_unsubscribed :: "serde \<Rightarrow> byte list \<Rightarrow> raw_value list \<Rightarrow> wamp_message parsed" where
  "json_unsubscribed lib raw_payload fds =
     and_then (json_get fds 1 ''unsubscribed.request_id'') (\<lambda>request_id_raw.
     and_then (json_u64 lib (raw_get raw_payload request_id_raw) ''unsubscribed.request_id'') (\<lambda>request_id.
     and_then (json_optional_map lib (map_option (raw_get raw_payload) (nth_opt fds 2)) ''unsubscribed.details'') (\<lambda>details.
     Ok (Unsubscribed request_id details))))"

definition json_event :: "serde \<Rightarrow> byte list \<Rightarrow> raw_value list \<Rightarrow> wamp_message parsed" where
  "json_event lib raw_payload fds =
     and_then (json_get fds 1 ''event.subscription_id'') (\<lambda>subscription_id_raw.
     and_then (json_get fds 2 ''event.publication_id'') (\<lambda>publication_id_raw.
     and_then (json_get fds 3 ''event.details'') (\<lambda>details_raw.
     and_then (json_payload raw_payload ''event.arguments'' (nth_opt fds 4) ''event.argumentsKw'' (nth_opt fds 5)) (\<lambda>p.
     and_then (json_u64 lib (raw_get raw_payload subscription_id_raw) ''event.subscription_id'') (\<lambda>subscription_id.
     and_then (json_u64 lib (raw_get raw_payload publication_id_raw) ''event.publication_id'') (\<lambda>publication_id.
     and_then (json_map lib (raw_get raw_payload details_raw) ''event.details'') (\<lambda>details.
     Ok (Event subscription_id publication_id details p))))))))"

definition json_call :: "serde \<Rightarrow> byte list \<Rightarrow> raw_value list \<Rightarrow> wamp_message parsed" where
  "json_call lib raw_payload fds =
     and_then (json_get fds 1 ''call.request_id'') (\<lambda>request_id_raw.
     and_then (json_get fds 2 ''call.options'') (\<lambda>options_raw.
     and_then (json_get fds 3 ''call.procedure'') (\<lambda>procedure_raw.
     and_then (json_payload raw_payload ''call.arguments'' (nth_opt fds 4) ''call.argumentsKw'' (nth_opt fds 5)) (\<lambda>p.
     and_then (json_u64 lib (raw_get raw_payload request_id_raw) ''call.request_id'') (\<lambda>request_id.
     and_then (json_map lib (raw_get raw_payload options_raw) ''call.options'') (\<lambda>options.
     and_then (json_string lib (raw_get raw_payload procedure_raw) ''call.procedure'') (\<lambda>procedure.
     Ok (Call request_id options procedure p))))))))"

definition json_cancel :: "serde \<Rightarrow> byte list \<Rightarrow> raw_value list \<Rightarrow> wamp_message parsed" where
  "json_cancel lib raw_payload fds =
     and_then (json_get fds 1 ''cancel.request_id'') (\<lambda>request_id_raw.
     and_then (json_get fds 2 ''cancel.options'') (\<lambda>options_raw.
     and_then (json_u64 lib (raw_get raw_payload request_id_raw) ''cancel.request_id'') (\<lambda>request_id.
     and_then (json_map lib (raw_get raw_payload options_raw) ''cancel.options'') (\<lambda>options.
     Ok (Cancel request_id options)))))"

definition json_result :: "serde \<Rightarrow> byte list \<Rightarrow> raw_value list \<Rightarrow> wamp_message parsed" where
  "json_result lib raw_payload fds =
     and_then (json_get fds 1 ''result.request_id'') (\<lambda>request_id_raw.
     and_then (json_get fds 2 ''result.details'') (\<lambda>details_raw.
     and_then (json_payload raw_payload ''result.arguments'' (nth_opt fds 3) ''result.argumentsKw'' (nth_opt fds 4)) (\<lambda>p.
     and_then (json_u64 lib (raw_get raw_payload request_id_raw) ''result.request_id'') (\<lambda>request_id.
     and_then (json_map lib (raw_get raw_payload details_raw) ''result.details'') (\<lambda>details.
     Ok (Result request_id details p))))))"

definition json_register :: "serde \<Rightarrow> byte list \<Rightarrow> raw_value list \<Rightarrow> wamp_message parsed" where
  "json_register lib raw_payload fds =
     and_then (json_get fds 1 ''register.request_id'') (\<lambda>request_id_raw.
     and_then (json_get fds 2 ''register.options'') (\<lambda>options_raw.
     and_then (json_get fds 3 ''register.procedure'') (\<lambda>procedure_raw.
     and_then (json_u64 lib (raw_get raw_payload request_id_raw) ''register.request_id'') (\<lambda>request_id.
     and_then (json_map lib (raw_get raw_payload options_raw) ''register.options'') (\<lambda>options.
     and_then (json_string lib (raw_get raw_payload procedure_raw) ''register.procedure'') (\<lambda>procedure.
     Ok (Register request_id options procedure)))))))"

definition json_registered :: "serde \<Rightarrow> byte list \<Rightarrow> raw_value list \<Rightarrow> wamp_message parsed" where
  "json_registered lib raw_payload fds =
     and_then (json_get fds 1 ''registered.request_id'') (\<lambda>request_id_raw.
     and_then (json_get fds 2 ''registered.registration_id'') (\<lambda>registration_id_raw.
     and_then (json_u64 lib (raw_get raw_payload request_id_raw) ''registered.request_id'') (\<lambda>request_id.
     and_then (json_u64 lib (raw_get raw_payload registration_id_raw) ''registered.registration_id'') (\<lambda>registration_id.
     Ok (Registered request_id registration_id)))))"

definition json_unregister :: "serde \<Rightarrow> byte list \<Rightarrow> raw_value list \<Rightarrow> wamp_message parsed" where
  "json_unregister lib raw_payload fds =
     and_then (json_get fds 1 ''unregister.request_id'') (\<lambda>request_id_raw.
     and_then (json_get fds 2 ''unregister.registration_id'') (\<lambda>registration_id_raw.
     and_then (json_u64 lib (raw_get raw_payload request_id_raw) ''unregister.request_id'') (\<lambda>request_id.
     and_then (json_u64 lib (raw_get raw_payload registration_id_raw) ''unregister.registration_id'') (\<lambda>registration_id.
     Ok (Unregister request_id registration_id)))))"

definition json_unregistered :: "serde \<Rightarrow> byte list \<Rightarrow> raw_value list \<Rightarrow> wamp_message parsed" where
  "json_unregistered lib raw_payload fds =
     and_then (json_get fds 1 ''unregistered.request_id'') (\<lambda>request_id_raw.
     and_then (json_u64 lib (raw_get raw_payload request_id_raw) ''unregistered.request_id'') (\<lambda>request_id.
     and_then (json_optional_map lib (map_option (raw_get raw_payload) (nth_opt fds 2)) ''unregistered.details'') (\<lambda>details.
     Ok (Unregistered request_id details))))"

definition json_invocation :: "serde \<Rightarrow> byte list \<Rightarrow> raw_value list \<Rightarrow> wamp_message parsed" where
  "json_invocation lib raw_payload fds =
     and_then (json_get fds 1 ''invocation.request_id'') (\<lambda>request_id_raw.
     and_then (json_get fds 2 ''invocation.registration_id'') (\<lambda>registration_id_raw.
     and_then (json_get fds 3 ''invocation.details'') (\<lambda>details_raw.
     and_then (json_payload raw_payload ''invocation.arguments'' (nth_opt fds 4) ''invocation.argumentsKw'' (nth_opt fds 5)) (\<lambda>p.
     and_then (json_u64 lib (raw_get raw_payload request_id_raw) ''invocation.request_id'') (\<lambda>request_id.
     and_then (json_u64 lib (raw_get raw_payload registration_id_raw) ''invocation.registration_id'') (\<lambda>registration_id.
     and_then (json_map lib (raw_get raw_payload details_raw) ''invocation.details'') (\<lambda>details.
     Ok (Invocation request_id registration_id details p))))))))"

definition json_interrupt :: "serde \<Rightarrow> byte list \<Rightarrow> raw_value list \<Rightarrow> wamp_message parsed" where
  "json_interrupt lib raw_payload fds =
     and_then (json_get fds 1 ''interrupt.request_id'') (\<lambda>request_id_raw.
     and_then (json_get fds 2 ''interrupt.options'') (\<lambda>options_raw.
     and_then (json_u64 lib (raw_get raw_payload request_id_raw) ''interrupt.request_id'') (\<lambda>request_id.
     and_then (json_map lib (raw_get raw_payload options_raw) ''interrupt.options'') (\<lambda>options.
     Ok (Interrupt request_id options)))))"

definition json_yield :: "serde \<Rightarrow> byte list \<Rightarrow> raw_value list \<Rightarrow> wamp_message parsed" where
  "json_yield lib raw_payload fds =
     and_then (json_get fds 1 ''yield.request_id'') (\<lambda>request_id_raw.
     and_then (json_get fds 2 ''yield.options'') (\<lambda>options_raw.
     and_then (json_payload raw_payload ''yield.arguments'' (nth_opt fds 3) ''yield.argumentsKw'' (nth_opt fds 4)) (\<lambda>p.
     and_then (json_u64 lib (raw_get raw_payload request_id_raw) ''yield.request_id'') (\<lambda>request_id.
     and_then (json_map lib (raw_get raw_payload options_raw) ''yield.options'') (\<lambda>options.
     Ok (Yield request_id options p))))))"

definition json_unknown :: "serde \<Rightarrow> byte list \<Rightarrow> u64 \<Rightarrow> raw_value list \<Rightarrow> wamp_message parsed" where
  "json_unknown lib raw_payload code fds =
     and_then (collect_ok (\<lambda>raw. lib_result Deserialize (json_value_de lib (raw_get raw_payload raw)))
       (drop 1 fds)) (\<lambda>extras.
     Ok (Unknown code extras))"

section \<open>Dispatch\<close>

definition json_dispatch :: "serde \<Rightarrow> byte list \<Rightarrow> u64 \<Rightarrow> raw_value list \<Rightarrow> wamp_message parsed" where
  "json_dispatch lib raw_payload code fds =
     (if code = 1 then json_hello lib raw_payload fds
      else if code = 2 then json_welcome lib raw_payload fds
      else if code = 3 then json_abort lib raw_payload fds
      else if code = 4 then json_challenge lib raw_payload fds
      else if code = 5 then json_authenticate lib raw_payload fds
      else if code = 6 then json_goodbye lib raw_payload fds
      else if code = 7 then json_heartbeat lib raw_payload fds
      else if code = 8 then json_error lib raw_payload fds
      else if code = 16 then json_publish lib raw_payload fds
      else if code = 17 then json_published lib raw_payload fds
      else if code = 32 then json_subscribe lib raw_payload fds
      else if code = 33 then json_subscribed lib raw_payload fds
      else if code = 34 then json_unsubscribe lib raw_payload fds
      else if code = 35 then json_unsubscribed lib raw_payload fds
      else if code = 36 then json_event lib raw_payload fds
      else if code = 48 then json_call lib raw_payload fds
      else if code = 49 then json_cancel lib raw_payload fds
      else if code = 50 then json_result lib raw_payload fds
      else if code = 64 then json_register lib raw_payload fds
      else if code = 65 then json_registered lib raw_payload fds
      else if code = 66 then json_unregister lib raw_payload fds
      else if code = 67 then json_unregistered lib raw_payload fds
      else if code = 68 then json_invocation lib raw_payload fds
      else if code = 69 then json_interrupt lib raw_payload fds
      else if code = 70 then json_yield lib raw_payload fds
      else json_unknown lib raw_payload code fds)"

definition parse_json_message :: "serde \<Rightarrow> raw_frame \<Rightarrow> parsed_message parsed" where
  "parse_json_message lib frame =
     (let raw_payload = into_bytes frame in
      and_then (lib_result Deserialize (json_fields_de lib raw_payload)) (\<lambda>fds.
      and_then (lib_result Deserialize (json_end lib raw_payload)) (\<lambda>_.
        if fds = [] then Err (MissingElement ''message code'')
        else and_then (index_byte fds 0) (\<lambda>first.
          and_then (json_u64 lib (raw_get raw_payload first) ''message code'') (\<lambda>code.
          and_then (json_dispatch lib raw_payload code fds) (\<lambda>m.
          Ok \<lparr>message = m, raw_of = Contiguous raw_payload, serializer_of = Json,
              encoded_metadata = None\<rparr>))))))"

lemmas json_reader_defs =
  json_hello_def json_welcome_def json_abort_def json_challenge_def json_authenticate_def 
  json_goodbye_def json_heartbeat_def json_error_def json_publish_def json_published_def 
  json_subscribe_def json_subscribed_def json_unsubscribe_def json_unsubscribed_def 
  json_event_def json_call_def json_cancel_def json_result_def json_register_def 
  json_registered_def json_unregister_def json_unregistered_def json_invocation_def 
  json_interrupt_def json_yield_def json_unknown_def

section \<open>Codes\<close>

lemma json_code_session:
  shows "json_hello lib p fds = Ok m \<Longrightarrow> message_code m = 1"
    and "json_welcome lib p fds = Ok m \<Longrightarrow> message_code m = 2"
    and "json_abort lib p fds = Ok m \<Longrightarrow> message_code m = 3"
    and "json_challenge lib p fds = Ok m \<Longrightarrow> message_code m = 4"
    and "json_authenticate lib p fds = Ok m \<Longrightarrow> message_code m = 5"
    and "json_goodbye lib p fds = Ok m \<Longrightarrow> message_code m = 6"
    and "json_heartbeat lib p fds = Ok m \<Longrightarrow> message_code m = 7"
    and "json_error lib p fds = Ok m \<Longrightarrow> message_code m = 8"
  by (auto simp: json_reader_defs outcome_simps)

lemma json_code_pubsub:
  shows "json_publish lib p fds = Ok m \<Longrightarrow> message_code m = 16"
    and "json_published lib p fds = Ok m \<Longrightarrow> message_code m = 17"
    and "json_subscribe lib p fds = Ok m \<Longrightarrow> message_code m = 32"
    and "json_subscribed lib p fds = Ok m \<Longrightarrow> message_code m = 33"
    and "json_unsubscribe lib p fds = Ok m \<Longrightarrow> message_code m = 34"
    and "json_unsubscribed lib p fds = Ok m \<Longrightarrow> message_code m = 35"
    and "json_event lib p fds = Ok m \<Longrightarrow> message_code m = 36"
  by (auto simp: json_reader_defs outcome_simps)

lemma json_code_rpc:
  shows "json_call lib p fds = Ok m \<Longrightarrow> message_code m = 48"
    and "json_cancel lib p fds = Ok m \<Longrightarrow> message_code m = 49"
    and "json_result lib p fds = Ok m \<Longrightarrow> message_code m = 50"
    and "json_register lib p fds = Ok m \<Longrightarrow> message_code m = 64"
    and "json_registered lib p fds = Ok m \<Longrightarrow> message_code m = 65"
    and "json_unregister lib p fds = Ok m \<Longrightarrow> message_code m = 66"
    and "json_unregistered lib p fds = Ok m \<Longrightarrow> message_code m = 67"
    and "json_invocation lib p fds = Ok m \<Longrightarrow> message_code m = 68"
    and "json_interrupt lib p fds = Ok m \<Longrightarrow> message_code m = 69"
    and "json_yield lib p fds = Ok m \<Longrightarrow> message_code m = 70"
  by (auto simp: json_reader_defs outcome_simps)

lemma json_code_unknown: "json_unknown lib p code fds = Ok m \<Longrightarrow> message_code m = code"
  by (auto simp: json_unknown_def outcome_simps)

lemmas json_codes = json_code_session json_code_pubsub json_code_rpc json_code_unknown

lemma json_dispatch_code: "json_dispatch lib p code fds = Ok m \<Longrightarrow> message_code m = code"
  unfolding json_dispatch_def by (auto dest: json_codes split: if_splits)

section \<open>Null texts\<close>

text \<open>The null test is exact: a raw text counts as null if and only if it is the four
  letters \<open>null\<close> with any amount of Unicode white space, in its UTF-8 encoding, before and
  after.\<close>

theorem is_json_null_iff:
  "is_json_null s \<longleftrightarrow> (\<exists>before after. ws_text before \<and> ws_text after \<and>
     s = before @ [0x6e, 0x75, 0x6c, 0x6c] @ after)"
proof
  assume "is_json_null s"
  then show "\<exists>before after. ws_text before \<and> ws_text after \<and> s = before @ [0x6e, 0x75, 0x6c, 0x6c] @ after"
    using trim_start_split [of s] trim_end_split [of "trim_start s"] unfolding is_json_null_def trim_def by metis
next
  assume "\<exists>before after. ws_text before \<and> ws_text after \<and> s = before @ [0x6e, 0x75, 0x6c, 0x6c] @ after"
  then obtain before after where s: "ws_text before" "ws_text after" "s = before @ [0x6e, 0x75, 0x6c, 0x6c] @ after"
    by blast
  have "ws_prefix ([0x6e, 0x75, 0x6c, 0x6c] @ after) = 0"
    unfolding ws_prefix_def white_space_eq by (cases after) simp_all
  then have "trim_start s = [0x6e, 0x75, 0x6c, 0x6c] @ after"
    using s by (simp add: trim_start_text)
  moreover have "ws_suffix [0x6e, 0x75, 0x6c, 0x6c] = 0"
    unfolding ws_suffix_def white_space_eq by simp
  ultimately show "is_json_null s"
    using s trim_end_text [of after "[0x6e, 0x75, 0x6c, 0x6c]"] by (simp add: is_json_null_def trim_def)
qed

section \<open>Payloads and panics\<close>

lemma json_dispatch_payload:
  assumes "json_dispatch lib raw code fds = Ok m" and "message_payload m = Some p"
  shows "\<exists>spec. cbor_payload_spec code = Some spec \<and>
    json_payload raw (args_label spec) (nth_opt fds (args_index spec))
      (kwargs_label spec) (nth_opt fds (kwargs_index spec)) = Ok p"
  using assms unfolding json_dispatch_def
  by (auto simp: json_reader_defs outcome_simps cbor_payload_spec_def split: if_splits)

text \<open>What the library promises of a borrowed raw value: it lies in the payload it was
  borrowed from.\<close>

definition json_borrows :: "serde \<Rightarrow> byte list \<Rightarrow> bool" where
  "json_borrows lib bytes =
     (case json_fields_de lib bytes of Inl e \<Rightarrow> True
      | Inr fds \<Rightarrow> list_all (\<lambda>(s, l). s + l \<le> length bytes) fds)"

lemma json_payload_no_panic:
  assumes "list_all (\<lambda>(s, l). s + l \<le> length bytes) fds"
  shows "json_payload bytes al (nth_opt fds i) kl (nth_opt fds j) \<noteq> Panic"
proof -
  have "json_payload_part bytes (nth_opt fds i) b e \<noteq> Panic" for i b e
    using assms nth_opt_in_set [of fds i]
    by (auto simp: json_payload_part_def slice_raw_def slice_bytes_def outcome_simps list_all_iff
        split: option.splits)
  then show ?thesis by (simp add: json_payload_def outcome_simps)
qed

lemma json_fields_no_panic [simp]:
  "json_get fds i l \<noteq> Panic" "json_string lib raw l \<noteq> Panic" "json_u64 lib raw l \<noteq> Panic"
  "json_optional_u64 lib oraw l \<noteq> Panic" "json_map lib raw l \<noteq> Panic" "json_optional_map lib oraw l \<noteq> Panic"
proof -
  show m: "json_map lib raw l \<noteq> Panic" for raw l
    by (auto simp: json_map_def outcome_simps split: val.splits)
  show u: "json_u64 lib raw l \<noteq> Panic" for raw l by (simp add: json_u64_def)
  show "json_get fds i l \<noteq> Panic" "json_string lib raw l \<noteq> Panic"
    "json_optional_u64 lib oraw l \<noteq> Panic" "json_optional_map lib oraw l \<noteq> Panic"
    using m u by (auto simp: json_get_def json_string_def json_optional_u64_def json_optional_map_def
        outcome_simps split: option.splits)
qed

lemma json_dispatch_no_panic:
  assumes "list_all (\<lambda>(s, l). s + l \<le> length bytes) fds"
  shows "json_dispatch lib bytes code fds \<noteq> Panic"
proof -
  have "json_unknown lib bytes c fds \<noteq> Panic" for c
    using collect_ok_no_panic [of "drop 1 fds" "\<lambda>raw. lib_result Deserialize (json_value_de lib (raw_get bytes raw))"]
    by (simp add: json_unknown_def outcome_simps)
  then show ?thesis
    unfolding json_dispatch_def
    by (simp add: json_reader_defs [unfolded json_unknown_def] json_payload_no_panic [OF assms] outcome_simps
        del: json_unknown_def)
qed

section \<open>A concrete frame\<close>

text \<open>The GOODBYE \<^verbatim>\<open>[6,{},"x",[]]\<close>.\<close>

definition goodbye_text :: "byte list" where
  "goodbye_text = [0x5b, 0x36, 0x2c, 0x7b, 0x7d, 0x2c, 0x22, 0x78, 0x22, 0x2c, 0x5b, 0x5d, 0x5d]"

definition goodbye_text_parsed :: parsed_message where
  "goodbye_text_parsed =
     \<lparr>message = Goodbye [] [0x78] \<lparr>args = Some [0x5b, 0x5d], kwargs = None, transparent = None\<rparr>,
      raw_of = Contiguous goodbye_text, serializer_of = Json, encoded_metadata = None\<rparr>"

lemma goodbye_text_fields: "json_fields_de small_serde goodbye_text = Inr [(1, 1), (3, 2), (6, 3), (10, 2)]"
  by (simp add: small_serde_def goodbye_text_def)

lemma goodbye_text_texts:
  "raw_get goodbye_text (1, 1) = [0x36]" "raw_get goodbye_text (3, 2) = [0x7b, 0x7d]"
  "raw_get goodbye_text (6, 3) = [0x22, 0x78, 0x22]" "raw_get goodbye_text (10, 2) = [0x5b, 0x5d]"
  by (simp_all add: raw_get_def goodbye_text_def)

lemma goodbye_text_not_null:
  "\<not> is_json_null [0x7b, 0x7d]" "\<not> is_json_null [0x22, 0x78, 0x22]" "\<not> is_json_null [0x5b, 0x5d]"
  by (simp_all add: is_json_null_def trim_def trim_start.simps trim_end.simps ws_prefix_def ws_suffix_def white_space_eq)

lemma goodbye_text_parse: "parse_json_message small_serde (Contiguous goodbye_text) = Ok goodbye_text_parsed"
proof -
  have lib: "json_u64_de small_serde [0x36] = Inr 6" "json_value_de small_serde [0x7b, 0x7d] = Inr (VMap [])"
    "json_string_de small_serde [0x22, 0x78, 0x22] = Inr [0x78]" "json_end small_serde goodbye_text = Inr ()"
    by (simp_all add: small_serde_def small_json_def as_u64_def as_text_def)
  have slice: "slice_raw goodbye_text (10, 2) = Ok [0x5b, 0x5d]"
    by (simp add: slice_raw_def slice_bytes_def goodbye_text_def)
  show ?thesis
    by (simp add: parse_json_message_def goodbye_text_fields lib index_byte_def
        goodbye_text_texts [unfolded One_nat_def] json_u64_def json_dispatch_def json_goodbye_def
        json_get_def json_payload_def json_payload_part_def slice goodbye_text_not_null json_map_def
        json_string_def first_non_ws_def is_ascii_whitespace_def goodbye_text_parsed_def)
qed

section \<open>What the parser guarantees\<close>

text \<open>A payload part is the raw text at an index, whole and opening with the given
  bracket, and is absent where that element is missing or null.\<close>

definition verbatim_text :: "byte list \<Rightarrow> raw_value list \<Rightarrow> nat \<Rightarrow> byte \<Rightarrow> byte list option \<Rightarrow> bool" where
  "verbatim_text bytes fds i bracket part =
     (case nth_opt fds i of
        None \<Rightarrow> part = None
      | Some (s, l) \<Rightarrow>
          if is_json_null (raw_get bytes (s, l)) then part = None
          else s + l \<le> length bytes \<and> part = Some (seg bytes s (s + l))
            \<and> first_non_ws (seg bytes s (s + l)) = Some bracket)"

lemma json_payload_part_Ok:
  "json_payload_part bytes (nth_opt fds i) b e = Ok part \<Longrightarrow> verbatim_text bytes fds i b part"
  by (auto simp: json_payload_part_def verbatim_text_def slice_raw_def slice_bytes_def raw_get_def seg_def
      outcome_simps split: option.splits if_splits)

text \<open>C16: A JSON frame that parses gives a message whose code is the integer the library
  reads from the first raw text, and whose arguments and keyword arguments, if the kind of
  message has a payload, are verbatim texts of the frame at the positions WAMP gives them
  for that code, opening with a bracket and a brace, or absent where the element is missing
  or null. The frame kept with the message is the flattened input.\<close>

theorem parse_json_code_and_payload:
  assumes "parse_json_message lib frame = Ok pm"
  shows "\<exists>fds raw. json_fields_de lib (into_bytes frame) = Inr fds \<and> nth_opt fds 0 = Some raw \<and>
    json_u64_de lib (raw_get (into_bytes frame) raw) = Inr (message_code (message pm)) \<and>
    raw_of pm = Contiguous (into_bytes frame) \<and>
    (\<forall>p. message_payload (message pm) = Some p \<longrightarrow>
      (\<exists>spec. cbor_payload_spec (message_code (message pm)) = Some spec \<and>
        verbatim_text (into_bytes frame) fds (args_index spec) 0x5b (args p) \<and>
        verbatim_text (into_bytes frame) fds (kwargs_index spec) 0x7b (kwargs p)))"
proof -
  let ?b = "into_bytes frame"
  obtain fds raw code m where fds: "json_fields_de lib ?b = Inr fds" "fds \<noteq> []"
    and raw: "index_byte fds 0 = (Ok raw :: raw_value parsed)"
    and code: "json_u64 lib (raw_get ?b raw) ''message code'' = Ok code"
    and m: "json_dispatch lib ?b code fds = Ok m"
    and pm: "pm = \<lparr>message = m, raw_of = Contiguous ?b, serializer_of = Json, encoded_metadata = None\<rparr>"
    using assms by (auto simp: parse_json_message_def Let_def and_then_eq_Ok lib_result_eq_Ok split: if_splits)
  have code_m: "message_code m = code" by (rule json_dispatch_code [OF m])
  have pay: "\<exists>spec. cbor_payload_spec code = Some spec \<and>
      verbatim_text ?b fds (args_index spec) 0x5b (args p) \<and>
      verbatim_text ?b fds (kwargs_index spec) 0x7b (kwargs p)" if "message_payload m = Some p" for p
    using json_dispatch_payload [OF m that] json_payload_part_Ok
    by (fastforce simp: json_payload_def and_then_eq_Ok)
  have "nth_opt fds 0 = Some raw" using fds(2) raw by (auto simp: index_byte_def nth_opt_def)
  moreover have "json_u64_de lib (raw_get ?b raw) = Inr code"
    using code by (simp add: json_u64_def lib_result_eq_Ok)
  ultimately show ?thesis
    using fds(1) pay pm code_m by (intro exI [of _ fds] exI [of _ raw]) simp
qed

theorem parse_json_code_and_payload_witness:
  "\<exists>fds raw. json_fields_de small_serde goodbye_text = Inr fds \<and> nth_opt fds 0 = Some raw \<and>
    json_u64_de small_serde (raw_get goodbye_text raw) = Inr 6 \<and>
    (\<exists>spec. cbor_payload_spec 6 = Some spec \<and>
      verbatim_text goodbye_text fds (args_index spec) 0x5b (Some [0x5b, 0x5d]))"
  using parse_json_code_and_payload [OF goodbye_text_parse]
  by (simp add: goodbye_text_parsed_def) blast

text \<open>As long as the raw values the library borrows lie in the payload they were
  borrowed from, no frame makes the JSON parser panic, contiguous or in segments.\<close>

theorem parse_json_never_panics:
  assumes "json_borrows lib (into_bytes frame)"
  shows "parse_json_message lib frame \<noteq> Panic"
proof -
  have "json_dispatch lib (into_bytes frame) code fds \<noteq> Panic"
    if "json_fields_de lib (into_bytes frame) = Inr fds" for code fds
    using assms that by (intro json_dispatch_no_panic) (simp add: json_borrows_def)
  then show ?thesis
    by (auto simp: parse_json_message_def Let_def outcome_simps index_byte_def)
qed

theorem parse_json_never_panics_witness: "parse_json_message small_serde (Contiguous goodbye_text) \<noteq> Panic"
  by (rule parse_json_never_panics)
     (simp add: json_borrows_def goodbye_text_fields, simp add: goodbye_text_def)

end
