(* ===== verification/Handle_Store.thy ===== *)
theory Handle_Store
  imports Prelude
begin

text \<open>
  The handle tables of the C interface (\<^verbatim>\<open>ct_ffi/src/runtime/resource_handles.rs\<close>, the
  legacy message store of \<^verbatim>\<open>state.rs\<close> and the wide message store of
  \<^verbatim>\<open>message_handles.rs\<close>). A table is a counter and a concurrent map. Inserting takes two
  atomic steps, the \<open>fetch_update\<close> of the counter and the insertion at the map entry, and
  other callers may run in between; the sequential functions below are the composition
  of the two, and a step relation interleaves the callers freely. The promise of every
  table, stated once for any counter that only goes up, is that handles are never
  recycled and a live handle still names what its caller stored.
\<close>

section \<open>Tables\<close>

record ('h, 'v) handle_table =
  next_id :: 'h
  entries :: "'h \<rightharpoonup> 'v"

text \<open>\<open>entries.entry(id)\<close>: a vacant entry is filled, an occupied one is left alone.\<close>

definition place :: "'h \<Rightarrow> 'v \<Rightarrow> ('h, 'v) handle_table \<Rightarrow> ('h, 'v) handle_table \<times> 'h option" where
  "place key v t =
     (case entries t key of
        None \<Rightarrow> (t\<lparr>entries := (entries t)(key \<mapsto> v)\<rparr>, Some key)
      | Some _ \<Rightarrow> (t, None))"

text \<open>The counter is bumped by \<open>fetch_update\<close>, which returns the value before the update
  or fails and leaves the counter as it is.\<close>

definition insert_with ::
  "('h \<Rightarrow> 'h option) \<Rightarrow> 'v \<Rightarrow> ('h, 'v) handle_table \<Rightarrow> ('h, 'v) handle_table \<times> 'h option" where
  "insert_with bump v t =
     (case bump (next_id t) of
        None \<Rightarrow> (t, None)
      | Some n \<Rightarrow> place (next_id t) v (t\<lparr>next_id := n\<rparr>))"

definition remove_entry :: "'h \<Rightarrow> ('h, 'v) handle_table \<Rightarrow> ('h, 'v) handle_table \<times> 'v option" where
  "remove_entry key t = (t\<lparr>entries := (entries t)(key := None)\<rparr>, entries t key)"

definition clear_entries :: "('h, 'v) handle_table \<Rightarrow> ('h, 'v) handle_table" where
  "clear_entries t = t\<lparr>entries := Map.empty\<rparr>"

section \<open>The counters\<close>

definition i32_max :: nat where "i32_max = 2 ^ 31 - 1"
definition i64_max :: nat where "i64_max = 2 ^ 63 - 1"

text \<open>The 32-bit counter of every resource table and of the legacy message table.\<close>

definition resource_next :: "u32 \<Rightarrow> u32 option" where
  "resource_next n = (if n = 0 \<or> unat n > i32_max then None else Some (n + 1))"

datatype resource_handle_error = Resource_Exhausted

definition insert_resource ::
  "'v \<Rightarrow> (u32, 'v) handle_table \<Rightarrow> (u32, 'v) handle_table \<times> (resource_handle_error + u32)" where
  "insert_resource v t =
     (case insert_with resource_next v t of
        (t', None) \<Rightarrow> (t', Inl Resource_Exhausted)
      | (t', Some key) \<Rightarrow> (t', Inr key))"

definition narrow_sign_bit :: u64 where "narrow_sign_bit = push_bit 31 1"
definition first_wide_handle :: u64 where "first_wide_handle = or (push_bit 32 1) narrow_sign_bit"

text \<open>The 64-bit counter of the wide message table: at the carry of the low word it
  skips the half in which bit 31 is clear.\<close>

definition wide_next :: "u64 \<Rightarrow> u64 option" where
  "wide_next n =
     (if \<not> (first_wide_handle \<le> n \<and> unat n \<le> i64_max) \<or> and n narrow_sign_bit = 0 then None
      else Some (n + (if (ucast n :: u32) = 0xffffffff then narrow_sign_bit + 1 else 1)))"

section \<open>Interleaved callers\<close>

text \<open>A caller has the value it wants to store, then a handle of its own, then its
  answer.\<close>

datatype ('h, 'v) caller = Calling 'v | Allocated 'v 'h | Returned 'v "'h option"

record ('h, 'v) table_system =
  table :: "('h, 'v) handle_table"
  callers :: "('h, 'v) caller list"

inductive table_step ::
  "('h \<Rightarrow> 'h option) \<Rightarrow> ('h, 'v) table_system \<Rightarrow> ('h, 'v) table_system \<Rightarrow> bool"
  for bump :: "'h \<Rightarrow> 'h option" where
  arrive: "table_step bump s (s\<lparr>callers := callers s @ [Calling v]\<rparr>)"
| allocate: "i < length (callers s) \<Longrightarrow> callers s ! i = Calling v \<Longrightarrow> bump (next_id (table s)) = Some n \<Longrightarrow>
    table_step bump s
      \<lparr>table = (table s)\<lparr>next_id := n\<rparr>, callers = (callers s)[i := Allocated v (next_id (table s))]\<rparr>"
| exhausted: "i < length (callers s) \<Longrightarrow> callers s ! i = Calling v \<Longrightarrow> bump (next_id (table s)) = None \<Longrightarrow>
    table_step bump s (s\<lparr>callers := (callers s)[i := Returned v None]\<rparr>)"
| fill: "i < length (callers s) \<Longrightarrow> callers s ! i = Allocated v key \<Longrightarrow> place key v (table s) = (t, r) \<Longrightarrow>
    table_step bump s \<lparr>table = t, callers = (callers s)[i := Returned v r]\<rparr>"
| removed: "table_step bump s (s\<lparr>table := fst (remove_entry key (table s))\<rparr>)"
| cleared: "table_step bump s (s\<lparr>table := clear_entries (table s)\<rparr>)"

inductive_cases table_stepE: "table_step bump s s'"

inductive table_reachable :: "('h \<Rightarrow> 'h option) \<Rightarrow> 'h \<Rightarrow> ('h, 'v) table_system \<Rightarrow> bool"
  for bump :: "'h \<Rightarrow> 'h option" and first :: 'h where
  start: "table_reachable bump first \<lparr>table = \<lparr>next_id = first, entries = Map.empty\<rparr>, callers = []\<rparr>"
| step: "table_reachable bump first s \<Longrightarrow> table_step bump s s' \<Longrightarrow> table_reachable bump first s'"

text \<open>The handle a caller owns and the value it stores.\<close>

primrec owned :: "('h, 'v) caller \<Rightarrow> 'h option" where
  "owned (Calling v) = None"
| "owned (Allocated v key) = Some key"
| "owned (Returned v r) = r"

primrec stored :: "('h, 'v) caller \<Rightarrow> 'v" where
  "stored (Calling v) = v"
| "stored (Allocated v key) = v"
| "stored (Returned v r) = v"

lemma nth_update_keep:
  "\<exists>j < length xs. xs ! j = x \<Longrightarrow> xs ! i \<noteq> x \<Longrightarrow> \<exists>j < length xs. xs[i := y] ! j = x"
  by (metis nth_list_update_neq)

section \<open>The contract of a counter\<close>

locale rising_counter =
  fixes bump :: "('h::linorder) \<Rightarrow> 'h option"
    and valid :: "'h \<Rightarrow> bool"
  assumes bump_rises: "bump n = Some n' \<Longrightarrow> n < n'"
    and bump_valid: "bump n = Some n' \<Longrightarrow> valid n"
begin

definition callers_ok :: "('h, 'v) table_system \<Rightarrow> bool" where
  "callers_ok s =
     ((\<forall>i < length (callers s). \<forall>key. owned (callers s ! i) = Some key \<longrightarrow> valid key \<and> key < next_id (table s))
    \<and> (\<forall>i < length (callers s). \<forall>j < length (callers s). i \<noteq> j \<longrightarrow>
         owned (callers s ! i) = None \<or> owned (callers s ! i) \<noteq> owned (callers s ! j))
    \<and> (\<forall>key w. entries (table s) key = Some w \<longrightarrow>
         (\<exists>i < length (callers s). callers s ! i = Returned w (Some key))))"

lemma callers_okI:
  assumes "\<And>i key. i < length (callers s) \<Longrightarrow> owned (callers s ! i) = Some key \<Longrightarrow> valid key \<and> key < next_id (table s)"
    and "\<And>i j key. i < length (callers s) \<Longrightarrow> j < length (callers s) \<Longrightarrow> i \<noteq> j \<Longrightarrow>
      owned (callers s ! i) = Some key \<Longrightarrow> owned (callers s ! j) = Some key \<Longrightarrow> False"
    and "\<And>key w. entries (table s) key = Some w \<Longrightarrow> \<exists>i < length (callers s). callers s ! i = Returned w (Some key)"
  shows "callers_ok s"
  unfolding callers_ok_def using assms by (metis option.exhaust)

lemma callers_okD:
  assumes "callers_ok s"
  shows "i < length (callers s) \<Longrightarrow> owned (callers s ! i) = Some key \<Longrightarrow> valid key \<and> key < next_id (table s)"
    and "i < length (callers s) \<Longrightarrow> j < length (callers s) \<Longrightarrow> i \<noteq> j \<Longrightarrow>
      owned (callers s ! i) = Some key \<Longrightarrow> owned (callers s ! j) \<noteq> Some key"
    and "entries (table s) key = Some w \<Longrightarrow> \<exists>i < length (callers s). callers s ! i = Returned w (Some key)"
proof -
  show "i < length (callers s) \<Longrightarrow> owned (callers s ! i) = Some key \<Longrightarrow> valid key \<and> key < next_id (table s)"
    using assms unfolding callers_ok_def by blast
  show "i < length (callers s) \<Longrightarrow> j < length (callers s) \<Longrightarrow> i \<noteq> j \<Longrightarrow>
      owned (callers s ! i) = Some key \<Longrightarrow> owned (callers s ! j) \<noteq> Some key"
    using assms unfolding callers_ok_def by (metis option.distinct(1))
  show "entries (table s) key = Some w \<Longrightarrow> \<exists>i < length (callers s). callers s ! i = Returned w (Some key)"
    using assms unfolding callers_ok_def by blast
qed

lemma allocated_vacant:
  assumes ok: "callers_ok s" and i: "i < length (callers s)" "callers s ! i = Allocated v key"
  shows "entries (table s) key = None"
proof (rule ccontr)
  assume "entries (table s) key \<noteq> None"
  then obtain w j where j: "j < length (callers s)" "callers s ! j = Returned w (Some key)"
    using callers_okD(3) [OF ok] by blast
  then have "i = j" using callers_okD(2) [OF ok i(1) j(1)] i(2) by auto
  with i j show False by simp
qed

lemma callers_ok_set:
  assumes ok: "callers_ok s" and i: "i < length (callers s)" and c: "owned c = owned (callers s ! i)"
    and t: "next_id t = next_id (table s)"
    and e: "\<And>key w. entries t key = Some w \<Longrightarrow>
      \<exists>j < length (callers s). (callers s)[i := c] ! j = Returned w (Some key)"
  shows "callers_ok \<lparr>table = t, callers = (callers s)[i := c]\<rparr>"
proof -
  have same: "owned ((callers s)[i := c] ! j) = owned (callers s ! j)" for j
    using i c by (simp add: nth_list_update)
  show ?thesis
  proof (rule callers_okI)
    fix j key
    assume "j < length (callers \<lparr>table = t, callers = (callers s)[i := c]\<rparr>)"
      "owned (callers \<lparr>table = t, callers = (callers s)[i := c]\<rparr> ! j) = Some key"
    then show "valid key \<and> key < next_id (table \<lparr>table = t, callers = (callers s)[i := c]\<rparr>)"
      using callers_okD(1) [OF ok, of j key] by (simp add: same t)
  next
    fix j k key
    assume "j < length (callers \<lparr>table = t, callers = (callers s)[i := c]\<rparr>)"
      "k < length (callers \<lparr>table = t, callers = (callers s)[i := c]\<rparr>)" "j \<noteq> k"
      "owned (callers \<lparr>table = t, callers = (callers s)[i := c]\<rparr> ! j) = Some key"
      "owned (callers \<lparr>table = t, callers = (callers s)[i := c]\<rparr> ! k) = Some key"
    then show False using callers_okD(2) [OF ok, of j k key] by (simp add: same)
  next
    fix key w assume "entries (table \<lparr>table = t, callers = (callers s)[i := c]\<rparr>) key = Some w"
    then show "\<exists>j < length (callers \<lparr>table = t, callers = (callers s)[i := c]\<rparr>).
        callers \<lparr>table = t, callers = (callers s)[i := c]\<rparr> ! j = Returned w (Some key)"
      using e [of key w] by simp
  qed
qed

lemma callers_ok_step: "callers_ok s \<Longrightarrow> table_step bump s s' \<Longrightarrow> callers_ok s'"
proof (erule table_stepE)
  fix v assume ok: "callers_ok s" and s': "s' = s\<lparr>callers := callers s @ [Calling v]\<rparr>"
  then show ?thesis
    unfolding callers_ok_def by (fastforce simp: nth_append less_Suc_eq)
next
  fix i v n
  assume ok: "callers_ok s" and i: "i < length (callers s)" "callers s ! i = Calling v"
    and n: "bump (next_id (table s)) = Some n"
    and s': "s' = \<lparr>table = (table s)\<lparr>next_id := n\<rparr>, callers = (callers s)[i := Allocated v (next_id (table s))]\<rparr>"
  note up = bump_rises [OF n] bump_valid [OF n]
  have old: "owned (callers s ! j) \<noteq> Some (next_id (table s))" if "j < length (callers s)" for j
    using callers_okD(1) [OF ok that] by blast
  have at: "(callers s)[i := Allocated v (next_id (table s))] ! j =
      (if j = i then Allocated v (next_id (table s)) else callers s ! j)" for j
    using i(1) by (simp add: nth_list_update)
  have below: "valid key \<and> key < n" if "j < length (callers s)" "owned (callers s ! j) = Some key" for j key
    using callers_okD(1) [OF ok that] up by auto
  have entry: "\<exists>j < length (callers s). j \<noteq> i \<and> callers s ! j = Returned w (Some key)"
    if "entries (table s) key = Some w" for key w
    using callers_okD(3) [OF ok that] i by auto
  show ?thesis
  proof (rule callers_okI)
    fix j key assume "j < length (callers s')" "owned (callers s' ! j) = Some key"
    then show "valid key \<and> key < next_id (table s')" using up below by (auto simp: s' at split: if_splits)
  next
    fix j k key
    assume "j < length (callers s')" "k < length (callers s')" "j \<noteq> k"
      "owned (callers s' ! j) = Some key" "owned (callers s' ! k) = Some key"
    then show False using old callers_okD(2) [OF ok, of j k key] by (auto simp: s' at split: if_splits)
  next
    fix key w assume "entries (table s') key = Some w"
    then show "\<exists>j < length (callers s'). callers s' ! j = Returned w (Some key)"
      using entry [of key w] by (auto simp: s' at)
  qed
next
  fix i v
  assume ok: "callers_ok s" and i: "i < length (callers s)" "callers s ! i = Calling v"
    and s': "s' = s\<lparr>callers := (callers s)[i := Returned v None]\<rparr>"
  have "callers_ok \<lparr>table = table s, callers = (callers s)[i := Returned v None]\<rparr>"
  proof (rule callers_ok_set [OF ok i(1)])
    fix key w assume "entries (table s) key = Some w"
    from callers_okD(3) [OF ok this]
    show "\<exists>j < length (callers s). (callers s)[i := Returned v None] ! j = Returned w (Some key)"
      by (rule nth_update_keep) (simp add: i)
  qed (simp_all add: i)
  then show ?thesis by (cases s) (simp add: s')
next
  fix i v key t r
  assume ok: "callers_ok s" and i: "i < length (callers s)" "callers s ! i = Allocated v key"
    and p: "place key v (table s) = (t, r)"
    and s': "s' = \<lparr>table = t, callers = (callers s)[i := Returned v r]\<rparr>"
  have t: "t = (table s)\<lparr>entries := (entries (table s))(key \<mapsto> v)\<rparr>" "r = Some key"
    using p allocated_vacant [OF ok i] by (auto simp: place_def)
  show ?thesis
    unfolding s'
  proof (rule callers_ok_set [OF ok i(1)])
    fix k w assume k: "entries t k = Some w"
    show "\<exists>j < length (callers s). (callers s)[i := Returned v r] ! j = Returned w (Some k)"
    proof (cases "k = key")
      case True
      with k i show ?thesis by (intro exI [of _ i]) (simp add: t)
    next
      case False
      with k have "entries (table s) k = Some w" by (simp add: t)
      from callers_okD(3) [OF ok this] show ?thesis by (rule nth_update_keep) (simp add: i)
    qed
  qed (simp_all add: i t)
next
  fix key assume "callers_ok s" "s' = s\<lparr>table := fst (remove_entry key (table s))\<rparr>"
  then show ?thesis unfolding callers_ok_def by (auto simp: remove_entry_def)
next
  assume "callers_ok s" "s' = s\<lparr>table := clear_entries (table s)\<rparr>"
  then show ?thesis unfolding callers_ok_def by (auto simp: clear_entries_def)
qed

lemma reachable_ok: "table_reachable bump first s \<Longrightarrow> callers_ok s"
proof (induction rule: table_reachable.induct)
  case start
  show ?case by (simp add: callers_ok_def)
next
  case (step s s')
  then show ?case by (blast intro: callers_ok_step)
qed

lemma returned_handle:
  assumes "table_reachable bump first s" and "i < length (callers s)" and "callers s ! i = Returned v (Some key)"
  shows "valid key \<and> key < next_id (table s) \<and>
    (\<forall>j < length (callers s). j \<noteq> i \<longrightarrow> owned (callers s ! j) \<noteq> Some key) \<and>
    (\<forall>w. entries (table s) key = Some w \<longrightarrow> w = v)"
proof -
  note ok = reachable_ok [OF assms(1)]
  have own: "owned (callers s ! i) = Some key" using assms(3) by simp
  have "w = v" if w: "entries (table s) key = Some w" for w
  proof -
    from callers_okD(3) [OF ok w] obtain j where j: "j < length (callers s)" "callers s ! j = Returned w (Some key)"
      by blast
    then have "i = j" using callers_okD(2) [OF ok assms(2) j(1) _ own] by auto
    with j assms(3) show ?thesis by simp
  qed
  then show ?thesis
    using callers_okD(1) [OF ok assms(2) own] callers_okD(2) [OF ok assms(2) _ _ own] by blast
qed

lemma fill_succeeds:
  assumes "table_reachable bump first s" and "i < length (callers s)" and "callers s ! i = Allocated v key"
  shows "snd (place key v (table s)) = Some key"
  using allocated_vacant [OF reachable_ok [OF assms(1)] assms(2,3)] by (simp add: place_def)

end

section \<open>The counters keep it\<close>

lemma resource_next_Some:
  "resource_next n = Some n' \<longleftrightarrow> n \<noteq> 0 \<and> unat n \<le> i32_max \<and> n' = n + 1"
  by (auto simp: resource_next_def)

lemma sint_u32:
  fixes n :: u32
  shows "sint n = (if unat n < 2 ^ 31 then int (unat n) else int (unat n) - 2 ^ 32)"
proof -
  have u: "uint n = int (unat n)" by simp
  have k: "int (unat n) < 2 ^ 32" using unsigned_less [of n, where ?'a = int] by simp
  have small: "int (unat n) < 2 ^ 31 \<longleftrightarrow> unat n < 2 ^ 31"
    by (metis of_nat_less_iff of_nat_numeral of_nat_power)
  have "signed_take_bit 31 (int (unat n)) = (if int (unat n) < 2 ^ 31 then int (unat n) else int (unat n) - 2 ^ 32)"
  proof (cases "int (unat n) < 2 ^ 31")
    case True
    then show ?thesis by (simp only: if_True) (intro signed_take_bit_int_eq_self; linarith)
  next
    case False
    have "signed_take_bit 31 (int (unat n)) = signed_take_bit 31 (int (unat n) - 2 ^ 32)"
      by (simp add: signed_take_bit_eq_iff_take_bit_eq take_bit_eq_mod mod_diff_eq [symmetric])
    also have "\<dots> = int (unat n) - 2 ^ 32"
      using False k by (intro signed_take_bit_int_eq_self) simp_all
    finally show ?thesis using False by (simp only: if_False)
  qed
  then show ?thesis by (simp only: small sint_uint u) simp
qed

lemma unat_pos: "n \<noteq> 0 \<Longrightarrow> 0 < unat (n :: 'a::len word)"
  by (simp add: unat_gt_0)

interpretation resource: rising_counter resource_next "\<lambda>n. 0 < sint (n :: u32)"
proof
  fix n n' :: u32
  assume "resource_next n = Some n'"
  then have n: "n \<noteq> 0" "unat n \<le> i32_max" "n' = n + 1" by (auto simp: resource_next_Some)
  have lt: "unat n < 2 ^ 31" using n(2) by (simp add: i32_max_def)
  then have "unat n' = unat n + 1" using n(3) by (simp add: unat_word_ariths)
  then show "n < n'" by (simp add: word_less_nat_alt)
  show "0 < sint n" using lt unat_pos [OF n(1)] by (simp only: sint_u32 if_True)
qed


lemma narrow_sign_bit_eq: "narrow_sign_bit = 2147483648"
  by (simp add: narrow_sign_bit_def push_bit_eq_mult)

lemma first_wide_handle_eq: "first_wide_handle = 6442450944"
  by (simp add: first_wide_handle_def narrow_sign_bit_def push_bit_eq_mult)

lemma unat_low_word: "unat (ucast (n :: u64) :: u32) = unat n mod 2 ^ 32"
  by (simp add: unsigned_ucast_eq take_bit_eq_mod)

text \<open>Bit 31 of a wide identifier, by its low word.\<close>

lemma sign_bit_set: "and n narrow_sign_bit \<noteq> 0 \<longleftrightarrow> 2 ^ 31 \<le> unat n mod 2 ^ 32" for n :: u64
proof -
  have "and n narrow_sign_bit \<noteq> 0 \<longleftrightarrow> bit n 31"
    unfolding narrow_sign_bit_def push_bit_of_1 by (simp only: and_exp_eq_0_iff_not_bit not_not)
  also have "\<dots> \<longleftrightarrow> bit (unat n) 31" by (simp add: bit_unsigned_iff)
  also have "\<dots> \<longleftrightarrow> odd (unat n div 2 ^ 31)" by (rule bit_iff_odd)
  also have "\<dots> \<longleftrightarrow> 2 ^ 31 \<le> unat n mod 2 ^ 32"
    using mod_mult2_eq [of "unat n" "2 ^ 31" 2] by (cases "odd (unat n div 2 ^ 31)") (auto simp: odd_iff_mod_2_eq_one not_le)
  finally show ?thesis .
qed

definition wide_handle :: "u64 \<Rightarrow> bool" where
  "wide_handle n = (first_wide_handle \<le> n \<and> unat n \<le> i64_max \<and> sint (ucast n :: u32) < 0)"

lemma narrow_negative: "sint (ucast n :: u32) < 0 \<longleftrightarrow> 2 ^ 31 \<le> unat n mod 2 ^ 32" for n :: u64
proof -
  have "unat n mod 2 ^ 32 < 2 ^ 32" by simp
  then show ?thesis unfolding sint_u32 unat_low_word by (simp split: if_split)
qed

lemma wide_next_Some:
  "wide_next n = Some n' \<longleftrightarrow> wide_handle n \<and>
     unat n' = unat n + (if unat n mod 2 ^ 32 = 2 ^ 32 - 1 then 2 ^ 31 + 1 else 1)"
proof -
  have low: "(ucast n :: u32) = 0xffffffff \<longleftrightarrow> unat n mod 2 ^ 32 = 2 ^ 32 - 1"
    by (simp add: word_unat_eq_iff unat_low_word)
  have range: "first_wide_handle \<le> n \<and> unat n \<le> i64_max \<and> and n narrow_sign_bit \<noteq> 0 \<longleftrightarrow> wide_handle n"
    by (auto simp: wide_handle_def narrow_negative sign_bit_set)
  have "unat (n + (if unat n mod 2 ^ 32 = 2 ^ 32 - 1 then narrow_sign_bit + 1 else 1)) =
      unat n + (if unat n mod 2 ^ 32 = 2 ^ 32 - 1 then 2 ^ 31 + 1 else 1)" if "wide_handle n"
  proof -
    have "unat n < 2 ^ 63" using that by (simp add: wide_handle_def i64_max_def)
    then show ?thesis by (simp add: narrow_sign_bit_eq unat_word_ariths)
  qed
  then show ?thesis
    using range unfolding wide_next_def low by (auto simp: word_unat_eq_iff [of _ n'] split: if_splits)
qed

interpretation wide: rising_counter wide_next wide_handle
proof
  fix n n' :: u64
  assume "wide_next n = Some n'"
  then show "n < n'" "wide_handle n" by (auto simp: wide_next_Some word_less_nat_alt split: if_splits)
qed

text \<open>The value after the last wide handle, which is never issued.\<close>

definition wide_sentinel :: u64 where "wide_sentinel = 0x8000000080000000"

lemma wide_next_closed:
  assumes "wide_next n = Some n'"
  shows "wide_handle n' \<or> n' = wide_sentinel"
proof -
  have n: "wide_handle n" "unat n' = unat n + (if unat n mod 2 ^ 32 = 2 ^ 32 - 1 then 2 ^ 31 + 1 else 1)"
    using assms by (auto simp: wide_next_Some)
  define q r where "q = unat n div 2 ^ 32" and "r = unat n mod 2 ^ 32"
  have qr: "unat n = q * 2 ^ 32 + r" "r < 2 ^ 32" unfolding q_def r_def by simp_all
  have n': "unat n' = q * 2 ^ 32 + r + (if r = 2 ^ 32 - 1 then 2 ^ 31 + 1 else 1)"
    using n(2) qr by simp
  have lo: "6442450944 \<le> unat n" using n(1) by (simp add: wide_handle_def first_wide_handle_eq word_le_nat_alt)
  have hi: "unat n \<le> 2 ^ 63 - 1" "2 ^ 31 \<le> r"
    using n(1) by (auto simp: wide_handle_def i64_max_def narrow_negative r_def)
  have handle: ?thesis if "unat n' \<le> 2 ^ 63 - 1" "2 ^ 31 \<le> unat n' mod 2 ^ 32" "unat n \<le> unat n'"
    using that lo
    by (simp add: wide_handle_def first_wide_handle_eq i64_max_def narrow_negative word_le_nat_alt)
  show ?thesis
  proof (cases "r = 2 ^ 32 - 1")
    case True
    then have n': "unat n' = (q + 1) * 2 ^ 32 + 2 ^ 31" using n' by simp
    have "q \<le> 2 ^ 31 - 1" using hi(1) qr True by simp
    then consider "q = 2 ^ 31 - 1" | "q \<le> 2 ^ 31 - 2" by linarith
    then show ?thesis
    proof cases
      case 1
      then have "unat n' = unat wide_sentinel" using n' by (simp add: wide_sentinel_def)
      then show ?thesis by (simp add: word_unat_eq_iff)
    next
      case 2
      then have "unat n' \<le> 2 ^ 63 - 1" using n' by simp
      moreover have "unat n' mod 2 ^ 32 = 2 ^ 31" unfolding n' by simp
      ultimately show ?thesis using handle n' qr by simp
    qed
  next
    case False
    then have n': "unat n' = q * 2 ^ 32 + (r + 1)" "r + 1 < 2 ^ 32" using n' qr(2) by simp_all
    have "unat n \<noteq> 2 ^ 63 - 1" using False by (auto simp: r_def)
    then have "unat n' \<le> 2 ^ 63 - 1" using n' qr hi(1) by linarith
    moreover have "unat n' mod 2 ^ 32 = r + 1" using n' by simp
    ultimately show ?thesis using handle n' qr hi(2) by simp
  qed
qed

text \<open>The sequential insertion is a run of the two atomic steps of one caller.\<close>

lemma insert_with_steps:
  "(table_step bump)\<^sup>*\<^sup>* \<lparr>table = t, callers = [Calling v]\<rparr>
     \<lparr>table = fst (insert_with bump v t), callers = [Returned v (snd (insert_with bump v t))]\<rparr>"
proof (cases "bump (next_id t)")
  case None
  then show ?thesis
    using table_step.exhausted [of 0 "\<lparr>table = t, callers = [Calling v]\<rparr>" v bump]
    by (auto simp: insert_with_def)
next
  case (Some n)
  let ?t = "t\<lparr>next_id := n\<rparr>"
  have "table_step bump \<lparr>table = t, callers = [Calling v]\<rparr> \<lparr>table = ?t, callers = [Allocated v (next_id t)]\<rparr>"
    using table_step.allocate [of 0 "\<lparr>table = t, callers = [Calling v]\<rparr>" v bump n] Some by simp
  moreover have "table_step bump \<lparr>table = ?t, callers = [Allocated v (next_id t)]\<rparr>
      \<lparr>table = fst (place (next_id t) v ?t), callers = [Returned v (snd (place (next_id t) v ?t))]\<rparr>"
    using table_step.fill [of 0 "\<lparr>table = ?t, callers = [Allocated v (next_id t)]\<rparr>" v "next_id t"
        "fst (place (next_id t) v ?t)" "snd (place (next_id t) v ?t)" bump] by simp
  ultimately show ?thesis by (simp add: insert_with_def Some)
qed

lemma steps_reachable:
  "(table_step bump)\<^sup>*\<^sup>* s s' \<Longrightarrow> table_reachable bump first s \<Longrightarrow> table_reachable bump first s'"
  by (induction rule: rtranclp_induct) (auto intro: table_reachable.step)

lemma one_insert_reachable:
  "table_reachable bump first
     \<lparr>table = fst (insert_with bump v \<lparr>next_id = first, entries = Map.empty\<rparr>),
      callers = [Returned v (snd (insert_with bump v \<lparr>next_id = first, entries = Map.empty\<rparr>))]\<rparr>"
proof (rule steps_reachable [OF insert_with_steps])
  show "table_reachable bump first \<lparr>table = \<lparr>next_id = first, entries = Map.empty\<rparr>, callers = [Calling v]\<rparr>"
    using table_reachable.step [OF table_reachable.start table_step.arrive [of bump _ v], of first] by simp
qed

section \<open>Live handles\<close>

text \<open>Live handles are valid for their table and lie below its counter.\<close>

definition handles_below :: "('h::linorder \<Rightarrow> bool) \<Rightarrow> ('h, 'v) handle_table \<Rightarrow> bool" where
  "handles_below valid t = (\<forall>key v. entries t key = Some v \<longrightarrow> valid key \<and> key < next_id t)"

lemma handles_below_fewer:
  "handles_below valid t \<Longrightarrow> handles_below valid (fst (remove_entry key t))"
  "handles_below valid (clear_entries t)"
  by (auto simp: handles_below_def remove_entry_def clear_entries_def)

lemma insert_with_cases:
  obtains (refused) "bump (next_id t) = None" "insert_with bump m t = (t, None)"
  | (collision) n where "bump (next_id t) = Some n" "insert_with bump m t = (t\<lparr>next_id := n\<rparr>, None)"
      "entries t (next_id t) \<noteq> None"
  | (inserted) n where "bump (next_id t) = Some n" "entries t (next_id t) = None"
      "insert_with bump m t = (t\<lparr>next_id := n, entries := (entries t)(next_id t \<mapsto> m)\<rparr>, Some (next_id t))"
  by (cases "bump (next_id t)"; cases "entries t (next_id t)") (auto simp: insert_with_def place_def)

context rising_counter
begin

lemma insert_keeps_below:
  assumes "handles_below valid t"
  shows "handles_below valid (fst (insert_with bump m t))"
proof (cases rule: insert_with_cases [of bump t m])
  case refused
  with assms show ?thesis by simp
next
  case (collision n)
  with assms bump_rises [OF collision(1)] show ?thesis
    by (auto simp: handles_below_def intro: less_trans)
next
  case (inserted n)
  with assms bump_rises [OF inserted(1)] bump_valid [OF inserted(1)] show ?thesis
    by (auto simp: handles_below_def intro: less_trans)
qed

text \<open>With all live handles below the counter an insertion fails only when the counter
  is exhausted, and otherwise returns a handle that was not live.\<close>

lemma insert_fresh:
  assumes "handles_below valid t" and "insert_with bump m t = (t', Some key)"
  shows "valid key \<and> entries t key = None \<and> entries t' = (entries t)(key \<mapsto> m)"
  using assms bump_valid
  by (cases rule: insert_with_cases [of bump t m]) auto

lemma insert_refused:
  assumes "handles_below valid t" and "insert_with bump m t = (t', None)"
  shows "bump (next_id t) = None \<and> t' = t"
proof (cases rule: insert_with_cases [of bump t m])
  case (collision n)
  then obtain v where "entries t (next_id t) = Some v" by blast
  with assms(1) have "next_id t < next_id t" unfolding handles_below_def by blast
  then show ?thesis by simp
qed (use assms(2) in auto)

end

section \<open>What the tables guarantee\<close>

text \<open>Whatever callers do concurrently (inserting in two atomic steps, removing,
  clearing), every handle a 32-bit resource table returns is a positive C integer, was
  returned to one caller only and is owned by no other, and if it is still in the table it
  names the value that caller stored: handles are never recycled or overwritten, also
  after removal or a clear.\<close>

theorem resource_handles_never_recycled:
  assumes "table_reachable resource_next 1 s" and "i < length (callers s)"
    and "callers s ! i = Returned v (Some key)"
  shows "0 < sint key \<and> (\<forall>j < length (callers s). j \<noteq> i \<longrightarrow> owned (callers s ! j) \<noteq> Some key) \<and>
    (\<forall>w. entries (table s) key = Some w \<longrightarrow> w = v)"
  using resource.returned_handle [OF assms] by blast

theorem resource_handles_never_recycled_witness:
  "0 < sint (1 :: u32) \<and> entries (fst (insert_with resource_next True \<lparr>next_id = 1, entries = Map.empty\<rparr>)) 1 = Some True"
  using resource_handles_never_recycled [OF one_insert_reachable [of resource_next 1 True], of 0 True 1]
  by (simp add: insert_with_def resource_next_def i32_max_def place_def)

text \<open>C19: Likewise for the 64-bit message table, whose handles moreover lie outside the
  legacy 32-bit namespace: each is between the first wide handle and the largest signed
  64-bit integer, and truncating it to a signed 32-bit integer gives a negative number, so
  a handle narrowed by accident is invalid instead of naming another message.\<close>

theorem wide_handles_never_recycled_or_narrowed:
  assumes "table_reachable wide_next first_wide_handle s" and "i < length (callers s)"
    and "callers s ! i = Returned v (Some key)"
  shows "first_wide_handle \<le> key \<and> unat key \<le> i64_max \<and> sint (ucast key :: u32) < 0 \<and>
    (\<forall>j < length (callers s). j \<noteq> i \<longrightarrow> owned (callers s ! j) \<noteq> Some key) \<and>
    (\<forall>w. entries (table s) key = Some w \<longrightarrow> w = v)"
  using wide.returned_handle [OF assms] unfolding wide_handle_def by blast

theorem wide_handles_never_recycled_or_narrowed_witness:
  "first_wide_handle \<le> first_wide_handle \<and> unat first_wide_handle \<le> i64_max \<and> sint (ucast first_wide_handle :: u32) < 0"
proof -
  have n: "wide_next first_wide_handle = Some 6442450945"
    unfolding wide_next_Some wide_handle_def narrow_negative by (simp add: first_wide_handle_eq i64_max_def)
  show ?thesis
    using wide_handles_never_recycled_or_narrowed
      [OF one_insert_reachable [of wide_next first_wide_handle True], of 0 True first_wide_handle]
    by (simp add: insert_with_def n place_def)
qed

lemma wide_reachable_next:
  "table_reachable wide_next first_wide_handle s \<Longrightarrow>
   wide_handle (next_id (table s)) \<or> next_id (table s) = wide_sentinel"
proof (induction rule: table_reachable.induct)
  case start
  have "wide_handle first_wide_handle"
    unfolding wide_handle_def narrow_negative by (simp add: first_wide_handle_eq i64_max_def)
  then show ?case by simp
next
  case (step s s')
  from step.hyps(2) step.IH show ?case
    by cases (auto dest: wide_next_closed simp: place_def remove_entry_def clear_entries_def split: option.splits)
qed

text \<open>The wide table runs out only at the very end: in every reachable state an
  insertion is refused exactly when the counter has passed the largest signed 64-bit
  handle, never because a carry led it out of its namespace, and a caller that got a handle
  always finds its entry vacant.\<close>

theorem wide_table_exhausts_only_at_the_end:
  assumes "table_reachable wide_next first_wide_handle s"
  shows "(wide_next (next_id (table s)) = None \<longleftrightarrow> next_id (table s) = wide_sentinel) \<and>
    (\<forall>i < length (callers s). \<forall>v key. callers s ! i = Allocated v key \<longrightarrow>
      snd (place key v (table s)) = Some key)"
proof -
  have "wide_next n \<noteq> None" if "wide_handle n" for n
    using that sign_bit_set [of n] by (auto simp: wide_next_def wide_handle_def narrow_negative)
  moreover have "wide_next wide_sentinel = None"
    by (simp add: wide_next_def wide_sentinel_def i64_max_def)
  ultimately show ?thesis
    using wide_reachable_next [OF assms] wide.fill_succeeds [OF assms] by metis
qed

theorem wide_table_exhausts_only_at_the_end_witness:
  "wide_next first_wide_handle = None \<longleftrightarrow> first_wide_handle = wide_sentinel"
  using wide_table_exhausts_only_at_the_end [OF table_reachable.start [of wide_next first_wide_handle]] by simp

end
