(* ===== verification/Message_Handles.thy ===== *)
theory Message_Handles
  imports Handle_Store
begin

text \<open>
  The message handles of the C interface: the legacy 32-bit table of
  \<^verbatim>\<open>ct_ffi/src/runtime/state.rs\<close> and the wide 64-bit table of \<^verbatim>\<open>message_handles.rs\<close>, which
  share one entry point for lookups. A stored message is opaque here (the code only moves
  and drops its shared allocation); the two global tables are the fields of one state.
\<close>

datatype message_handle_error = Unavailable | Exhausted

record 'm message_tables =
  legacy :: "(u32, 'm) handle_table"
  wide :: "(u64, 'm) handle_table"

definition default_tables :: "'m message_tables" where
  "default_tables =
     \<lparr>legacy = \<lparr>next_id = 1, entries = Map.empty\<rparr>,
      wide = \<lparr>next_id = first_wide_handle, entries = Map.empty\<rparr>\<rparr>"

section \<open>The legacy table\<close>

definition store_message :: "'m \<Rightarrow> 'm message_tables \<Rightarrow> 'm message_tables \<times> (message_handle_error + u32)" where
  "store_message m t =
     (case insert_with resource_next m (legacy t) of
        (l, None) \<Rightarrow> (t\<lparr>legacy := l\<rparr>, Inl Exhausted)
      | (l, Some key) \<Rightarrow> (t\<lparr>legacy := l\<rparr>, Inr key))"

definition remove_message :: "u32 \<Rightarrow> 'm message_tables \<Rightarrow> 'm message_tables \<times> 'm option" where
  "remove_message key t = (case remove_entry key (legacy t) of (l, r) \<Rightarrow> (t\<lparr>legacy := l\<rparr>, r))"

definition retain_message_allocation :: "u32 \<Rightarrow> 'm message_tables \<Rightarrow> 'm option" where
  "retain_message_allocation key t = entries (legacy t) key"

definition clone_message :: "u32 \<Rightarrow> 'm message_tables \<Rightarrow> 'm message_tables \<times> (message_handle_error + u32)" where
  "clone_message key t =
     (case entries (legacy t) key of
        None \<Rightarrow> (t, Inl Unavailable)
      | Some m \<Rightarrow> store_message m t)"

section \<open>The wide table and the common entry points\<close>

definition wide_insert :: "'m \<Rightarrow> 'm message_tables \<Rightarrow> 'm message_tables \<times> (message_handle_error + u64)" where
  "wide_insert m t =
     (case insert_with wide_next m (wide t) of
        (w, None) \<Rightarrow> (t\<lparr>wide := w\<rparr>, Inl Exhausted)
      | (w, Some key) \<Rightarrow> (t\<lparr>wide := w\<rparr>, Inr key))"

definition wide_retain :: "u64 \<Rightarrow> 'm message_tables \<Rightarrow> 'm option" where
  "wide_retain key t = entries (wide t) key"

definition retain_allocation :: "u64 \<Rightarrow> 'm message_tables \<Rightarrow> 'm option" where
  "retain_allocation key t =
     (if unat key \<le> i32_max then retain_message_allocation (ucast key) t else wide_retain key t)"

definition with_message :: "u64 \<Rightarrow> ('m \<Rightarrow> 'a) \<Rightarrow> 'm message_tables \<Rightarrow> 'a option" where
  "with_message key f t = map_option f (retain_allocation key t)"

definition remove_handle :: "u64 \<Rightarrow> 'm message_tables \<Rightarrow> 'm message_tables \<times> 'm option" where
  "remove_handle key t =
     (if unat key \<le> i32_max then remove_message (ucast key) t
      else case remove_entry key (wide t) of (w, r) \<Rightarrow> (t\<lparr>wide := w\<rparr>, r))"

definition retain_handle :: "u64 \<Rightarrow> 'm message_tables \<Rightarrow> 'm message_tables \<times> (message_handle_error + u64)" where
  "retain_handle key t =
     (case retain_allocation key t of
        None \<Rightarrow> (t, Inl Unavailable)
      | Some m \<Rightarrow> wide_insert m t)"

definition clear_wide :: "'m message_tables \<Rightarrow> 'm message_tables" where
  "clear_wide t = t\<lparr>wide := clear_entries (wide t)\<rparr>"

definition clear_messages :: "'m message_tables \<Rightarrow> 'm message_tables" where
  "clear_messages t = (clear_wide t)\<lparr>legacy := clear_entries (legacy t)\<rparr>"

section \<open>Runs\<close>

inductive tables_step :: "'m message_tables \<Rightarrow> 'm message_tables \<Rightarrow> bool" where
  "tables_step t (fst (store_message m t))"
| "tables_step t (fst (remove_message k t))"
| "tables_step t (fst (clone_message k t))"
| "tables_step t (fst (wide_insert m t))"
| "tables_step t (fst (remove_handle key t))"
| "tables_step t (fst (retain_handle key t))"
| "tables_step t (clear_wide t)"
| "tables_step t (clear_messages t)"

inductive tables_reachable :: "'m message_tables \<Rightarrow> bool" where
  initial: "tables_reachable default_tables"
| step: "tables_reachable t \<Longrightarrow> tables_step t t' \<Longrightarrow> tables_reachable t'"

definition tables_ok :: "'m message_tables \<Rightarrow> bool" where
  "tables_ok t =
     (handles_below (\<lambda>key. 0 < sint key) (legacy t) \<and> handles_below wide_handle (wide t))"

lemma store_message_ok: "tables_ok t \<Longrightarrow> tables_ok (fst (store_message m t))"
  using resource.insert_keeps_below [of "legacy t" m]
  by (auto simp: tables_ok_def store_message_def split: prod.splits option.splits)

lemma wide_insert_ok: "tables_ok t \<Longrightarrow> tables_ok (fst (wide_insert m t))"
  using wide.insert_keeps_below [of "wide t" m]
  by (auto simp: tables_ok_def wide_insert_def split: prod.splits option.splits)

lemma remove_message_ok: "tables_ok t \<Longrightarrow> tables_ok (fst (remove_message k t))"
  using handles_below_fewer(1) [of _ "legacy t" k]
  by (auto simp: tables_ok_def remove_message_def split: prod.splits)

lemma tables_ok_step: "tables_step t t' \<Longrightarrow> tables_ok t \<Longrightarrow> tables_ok t'"
proof (induction rule: tables_step.induct)
  case (5 t key)
  then show ?case
    using remove_message_ok [of t "ucast key"] handles_below_fewer(1) [of wide_handle "wide t" key]
    by (auto simp: remove_handle_def tables_ok_def split: prod.splits)
next
  case (7 t)
  then show ?case by (simp add: clear_wide_def tables_ok_def handles_below_fewer)
next
  case (8 t)
  then show ?case by (simp add: clear_messages_def clear_wide_def tables_ok_def handles_below_fewer)
qed (auto simp: store_message_ok wide_insert_ok remove_message_ok clone_message_def retain_handle_def
    split: option.splits)

lemma tables_reachable_ok: "tables_reachable t \<Longrightarrow> tables_ok t"
proof (induction rule: tables_reachable.induct)
  case initial
  show ?case by (simp add: tables_ok_def default_tables_def handles_below_def)
next
  case (step t t')
  then show ?case by (blast intro: tables_ok_step)
qed

lemma wide_handle_large: "wide_handle key \<Longrightarrow> i32_max < unat key"
  by (auto simp: wide_handle_def first_wide_handle_eq i32_max_def word_le_nat_alt)

section \<open>What the message handles guarantee\<close>

text \<open>In every reachable state of the two tables, a handle returned by inserting a
  message gives exactly that message, every other handle (legacy or wide) still gives what
  it gave before, and the handle was not in use before: insertion never disturbs or aliases
  another message.\<close>

theorem wide_insert_lookup:
  assumes "tables_reachable t" and "wide_insert m t = (t', Inr key)"
  shows "retain_allocation key t = None \<and> retain_allocation key t' = Some m \<and>
    (\<forall>other. other \<noteq> key \<longrightarrow> retain_allocation other t' = retain_allocation other t)"
proof -
  obtain w where w: "insert_with wide_next m (wide t) = (w, Some key)" "t' = t\<lparr>wide := w\<rparr>"
    using assms(2) by (auto simp: wide_insert_def split: prod.splits option.splits)
  have below: "handles_below wide_handle (wide t)"
    using tables_reachable_ok [OF assms(1)] by (simp add: tables_ok_def)
  from wide.insert_fresh [OF below w(1)] have
    key: "wide_handle key" "entries (wide t) key = None" "entries w = (entries (wide t))(key \<mapsto> m)" by auto
  show ?thesis
    using key w(2) wide_handle_large [OF key(1)]
    by (auto simp: retain_allocation_def retain_message_allocation_def wide_retain_def)
qed

text \<open>Retaining a handle gives a second, independent handle of the same message:
  after releasing either one the other still gives the message.\<close>

theorem retain_handle_independent:
  assumes "tables_reachable t" and "retain_allocation key t = Some m"
    and "retain_handle key t = (t', Inr second)"
  shows "second \<noteq> key \<and> retain_allocation second t' = Some m \<and>
    retain_allocation second (fst (remove_handle key t')) = Some m \<and>
    retain_allocation key (fst (remove_handle second t')) = Some m"
proof -
  have ins: "wide_insert m t = (t', Inr second)" using assms(2,3) by (simp add: retain_handle_def)
  obtain w where w: "insert_with wide_next m (wide t) = (w, Some second)" "t' = t\<lparr>wide := w\<rparr>"
    using ins by (auto simp: wide_insert_def split: prod.splits option.splits)
  have below: "handles_below wide_handle (wide t)"
    using tables_reachable_ok [OF assms(1)] by (simp add: tables_ok_def)
  from wide.insert_fresh [OF below w(1)] have
    f: "wide_handle second" "entries (wide t) second = None" "entries w = (entries (wide t))(second \<mapsto> m)" by auto
  note large = wide_handle_large [OF f(1)]
  have neq: "second \<noteq> key"
    using assms(2) f(2) large by (auto simp: retain_allocation_def wide_retain_def)
  show ?thesis
    using neq f(3) w(2) assms(2) large
    by (auto simp: retain_allocation_def remove_handle_def remove_message_def remove_entry_def
        retain_message_allocation_def wide_retain_def split: if_splits)
qed

text \<open>A wide handle that is accidentally narrowed to 32 bits names nothing: in every
  reachable state its low word is not a live legacy handle, and looked up as a legacy
  handle by way of a signed 32-bit integer it is negative.\<close>

theorem narrowed_handle_names_nothing:
  assumes "tables_reachable t" and "retain_allocation key t = Some m" and "i32_max < unat key"
  shows "retain_message_allocation (ucast key) t = None \<and> sint (ucast key :: u32) < 0"
proof -
  have ok: "handles_below (\<lambda>key. 0 < sint key) (legacy t)" "handles_below wide_handle (wide t)"
    using tables_reachable_ok [OF assms(1)] by (auto simp: tables_ok_def)
  have "entries (wide t) key = Some m" using assms(2,3) by (simp add: retain_allocation_def wide_retain_def)
  then have neg: "sint (ucast key :: u32) < 0" using ok(2) by (auto simp: handles_below_def wide_handle_def)
  have "entries (legacy t) (ucast key) = None"
  proof (rule ccontr)
    assume "entries (legacy t) (ucast key) \<noteq> None"
    then have "0 < sint (ucast key :: u32)" using ok(1) by (auto simp: handles_below_def)
    with neg show False by simp
  qed
  with neg show ?thesis by (simp add: retain_message_allocation_def)
qed

section \<open>A concrete run\<close>

definition one_message :: "bool message_tables" where
  "one_message = fst (wide_insert True default_tables)"

lemma wide_next_first: "wide_next first_wide_handle = Some 6442450945"
  unfolding wide_next_Some wide_handle_def narrow_negative by (simp add: first_wide_handle_eq i64_max_def)

lemma wide_next_second: "wide_next 6442450945 = Some 6442450946"
  unfolding wide_next_Some wide_handle_def narrow_negative by (simp add: first_wide_handle_eq i64_max_def)

lemma one_message_eq:
  "wide_insert True (default_tables :: bool message_tables) = (one_message, Inr first_wide_handle)"
  "one_message = default_tables\<lparr>wide := \<lparr>next_id = 6442450945, entries = [first_wide_handle \<mapsto> True]\<rparr>\<rparr>"
  by (simp_all add: one_message_def wide_insert_def default_tables_def insert_with_def wide_next_first place_def)

lemma one_message_reachable: "tables_reachable one_message"
  unfolding one_message_def
  by (rule tables_reachable.step [OF tables_reachable.initial]) (rule tables_step.intros)

lemma one_message_lookup: "retain_allocation first_wide_handle one_message = Some True"
  by (simp add: one_message_eq(2) retain_allocation_def wide_retain_def first_wide_handle_eq i32_max_def)

theorem wide_insert_lookup_witness: "retain_allocation first_wide_handle one_message = Some True"
  using wide_insert_lookup [OF tables_reachable.initial one_message_eq(1)] by simp

theorem retain_handle_independent_witness:
  "retain_allocation 6442450945 (fst (remove_handle first_wide_handle (fst (retain_handle first_wide_handle one_message)))) = Some True"
proof -
  have "wide_insert True one_message =
      (one_message\<lparr>wide := \<lparr>next_id = 6442450946, entries = [first_wide_handle \<mapsto> True, 6442450945 \<mapsto> True]\<rparr>\<rparr>,
       Inr 6442450945)"
    by (simp add: one_message_eq(2) wide_insert_def insert_with_def wide_next_second place_def first_wide_handle_eq)
  then have "retain_handle first_wide_handle one_message = (fst (retain_handle first_wide_handle one_message), Inr 6442450945)"
    by (simp add: retain_handle_def one_message_lookup)
  from retain_handle_independent [OF one_message_reachable one_message_lookup this] show ?thesis by simp
qed

theorem narrowed_handle_names_nothing_witness:
  "retain_message_allocation (ucast first_wide_handle) one_message = None"
  using narrowed_handle_names_nothing [OF one_message_reachable one_message_lookup]
  by (simp add: first_wide_handle_eq i32_max_def)

end
