(* ===== verification/External_Leases.thy ===== *)
theory External_Leases
  imports Prelude "HOL-Library.Multiset"
begin

text \<open>
  Producer loans (\<^verbatim>\<open>ct_ffi/src/runtime/external_leases.rs\<close>): foreign memory is lent to the
  transport under a byte and a count quota; dropping the last reference queues a release,
  and only the registering thread runs the queued callbacks. The state behind the mutex is
  a record; each operation below is one critical section of the source, with the guards in
  its order. The step relation interleaves the critical sections of the owner thread (the
  dispatch loop is cut at every place where it gives up the mutex, so callbacks that call
  back into the owner are interleavings too) with drops on any thread.
\<close>

section \<open>State\<close>

datatype lease_error =
  InvalidArgument | WrongThread | Closing | QuotaExceeded | Busy | Reentrant | AllocationFailed

text \<open>The callback pointer and its token are opaque numbers.\<close>

record release =
  callback :: nat
  token :: nat
  rel_bytes :: nat

record lease_limits =
  max_bytes :: nat
  max_leases :: nat

record lease_state =
  bytes :: nat
  leases :: nat
  releases :: "release list"
  closing :: bool
  dispatching :: bool

record lease_owner =
  thread :: nat
  limits :: lease_limits
  state :: lease_state

record lease_metrics =
  m_bytes :: nat
  m_leases :: nat
  m_pending_releases :: nat
  m_closing :: bool

definition isize_max :: nat where "isize_max = 2 ^ 63 - 1"
definition max_lease_count :: nat where "max_lease_count = 2 ^ 31 - 1"

section \<open>Operations\<close>

text \<open>\<open>reserve\<close> says whether the allocator can hold the release queue.\<close>

definition new_owner :: "(nat \<Rightarrow> bool) \<Rightarrow> nat \<Rightarrow> lease_limits \<Rightarrow> lease_error + lease_owner" where
  "new_owner reserve current lim =
     (if max_leases lim = 0 \<or> max_leases lim > max_lease_count then Inl InvalidArgument
      else if \<not> reserve (max_leases lim) then Inl AllocationFailed
      else Inr \<lparr>thread = current, limits = lim,
        state = \<lparr>bytes = 0, leases = 0, releases = [], closing = False, dispatching = False\<rparr>\<rparr>)"

definition on_owner_thread :: "nat \<Rightarrow> lease_owner \<Rightarrow> bool" where
  "on_owner_thread current own = (current = thread own)"

text \<open>An admitted loan is what its drop will queue; its address range stays with the
  producer.\<close>

definition admit ::
  "nat \<Rightarrow> nat \<Rightarrow> nat \<Rightarrow> nat \<Rightarrow> nat \<Rightarrow> lease_owner \<Rightarrow> lease_owner \<times> (lease_error + release)" where
  "admit current base len cb tok own =
     (if \<not> on_owner_thread current own then (own, Inl WrongThread)
      else if len > isize_max \<or> (len \<noteq> 0 \<and> base = 0) \<or> base + len > usize_max then (own, Inl InvalidArgument)
      else if closing (state own) then (own, Inl Closing)
      else if bytes (state own) + len > usize_max \<or> bytes (state own) + len > max_bytes (limits own)
        then (own, Inl QuotaExceeded)
      else if leases (state own) = max_leases (limits own) then (own, Inl QuotaExceeded)
      else (own\<lparr>state := (state own)\<lparr>bytes := bytes (state own) + len, leases := leases (state own) + 1\<rparr>\<rparr>,
            Inr \<lparr>callback = cb, token = tok, rel_bytes = len\<rparr>))"

definition metrics :: "lease_owner \<Rightarrow> lease_metrics" where
  "metrics own =
     \<lparr>m_bytes = bytes (state own), m_leases = leases (state own),
      m_pending_releases = length (releases (state own)), m_closing = closing (state own)\<rparr>"

definition close_owner :: "nat \<Rightarrow> lease_owner \<Rightarrow> lease_owner \<times> (lease_error + unit)" where
  "close_owner current own =
     (if \<not> on_owner_thread current own then (own, Inl WrongThread)
      else let own' = own\<lparr>state := (state own)\<lparr>closing := True\<rparr>\<rparr> in
        if leases (state own') \<noteq> 0 then (own', Inl Busy) else (own', Inr ()))"

text \<open>The answer of \<open>wait_for_release\<close>, given the state it sees when it stops waiting.\<close>

definition wait_for_release :: "nat \<Rightarrow> lease_owner \<Rightarrow> lease_state \<Rightarrow> lease_error + bool" where
  "wait_for_release current own woken =
     (if \<not> on_owner_thread current own then Inl WrongThread
      else if dispatching (state own) then Inl Reentrant
      else Inr (releases woken \<noteq> []))"

text \<open>The critical sections of \<open>dispatch\<close>: entry, taking a release from the queue,
  settling it after its callback ran, and the drop of the guard. Settling subtracts, which
  panics below zero.\<close>

definition dispatch_enter :: "nat \<Rightarrow> lease_owner \<Rightarrow> lease_owner \<times> (lease_error + unit)" where
  "dispatch_enter current own =
     (if \<not> on_owner_thread current own then (own, Inl WrongThread)
      else if dispatching (state own) then (own, Inl Reentrant)
      else (own\<lparr>state := (state own)\<lparr>dispatching := True\<rparr>\<rparr>, Inr ()))"

definition dispatch_pop :: "lease_owner \<Rightarrow> lease_owner \<times> release option" where
  "dispatch_pop own =
     (case releases (state own) of
        [] \<Rightarrow> (own, None)
      | r # rs \<Rightarrow> (own\<lparr>state := (state own)\<lparr>releases := rs\<rparr>\<rparr>, Some r))"

definition dispatch_settle :: "release \<Rightarrow> lease_owner \<Rightarrow> (lease_error, lease_owner) outcome" where
  "dispatch_settle r own =
     (if rel_bytes r \<le> bytes (state own) \<and> 1 \<le> leases (state own)
      then Ok (own\<lparr>state := (state own)\<lparr>bytes := bytes (state own) - rel_bytes r, leases := leases (state own) - 1\<rparr>\<rparr>)
      else Panic)"

definition dispatch_leave :: "lease_owner \<Rightarrow> lease_owner" where
  "dispatch_leave own = own\<lparr>state := (state own)\<lparr>dispatching := False\<rparr>\<rparr>"

text \<open>The whole loop when nothing interleaves: it returns the owner, the releases whose
  callbacks ran, in order, and how many they are.\<close>

primrec dispatch_loop :: "nat \<Rightarrow> lease_owner \<Rightarrow> release list \<Rightarrow> (lease_error, lease_owner \<times> release list) outcome" where
  "dispatch_loop 0 own done = Ok (own, done)"
| "dispatch_loop (Suc maximum) own done =
     (case dispatch_pop own of
        (own', None) \<Rightarrow> Ok (own', done)
      | (own', Some r) \<Rightarrow>
          and_then (dispatch_settle r own') (\<lambda>own''. dispatch_loop maximum own'' (done @ [r])))"

definition dispatch ::
  "nat \<Rightarrow> nat \<Rightarrow> lease_owner \<Rightarrow> (lease_error, lease_owner \<times> release list \<times> nat) outcome" where
  "dispatch current maximum own =
     (case dispatch_enter current own of
        (own', Inl e) \<Rightarrow> Err e
      | (own', Inr _) \<Rightarrow>
          and_then (dispatch_loop maximum own' []) (\<lambda>(own'', ran).
            Ok (dispatch_leave own'', ran, length ran)))"

text \<open>\<open>Drop for ExternalLoan\<close>.\<close>

definition drop_loan :: "release \<Rightarrow> lease_owner \<Rightarrow> lease_owner" where
  "drop_loan r own = own\<lparr>state := (state own)\<lparr>releases := releases (state own) @ [r]\<rparr>\<rparr>"

section \<open>The owner, its loans and its callbacks\<close>

text \<open>The loans that are still referenced, the release whose callback is running, and the
  releases whose callbacks have completed.\<close>

record lease_system =
  owner :: lease_owner
  live :: "release multiset"
  running :: "release option"
  completed :: "release multiset"
  admitted :: "release multiset"

inductive lease_step :: "lease_system \<Rightarrow> lease_system \<Rightarrow> bool" where
  admit_loan: "admit t base len cb tok (owner s) = (own, Inr r) \<Longrightarrow>
    lease_step s (s\<lparr>owner := own, live := add_mset r (live s), admitted := add_mset r (admitted s)\<rparr>)"
| refuse_loan: "admit t base len cb tok (owner s) = (own, Inl e) \<Longrightarrow> lease_step s (s\<lparr>owner := own\<rparr>)"
| drop_last: "r \<in># live s \<Longrightarrow>
    lease_step s (s\<lparr>owner := drop_loan r (owner s), live := live s - {#r#}\<rparr>)"
| close: "close_owner t (owner s) = (own, res) \<Longrightarrow> lease_step s (s\<lparr>owner := own\<rparr>)"
| enter: "dispatch_enter t (owner s) = (own, res) \<Longrightarrow> lease_step s (s\<lparr>owner := own\<rparr>)"
| pop: "dispatching (state (owner s)) \<Longrightarrow> running s = None \<Longrightarrow> dispatch_pop (owner s) = (own, Some r) \<Longrightarrow>
    lease_step s (s\<lparr>owner := own, running := Some r\<rparr>)"
| settle: "running s = Some r \<Longrightarrow> dispatch_settle r (owner s) = Ok own \<Longrightarrow>
    lease_step s (s\<lparr>owner := own, running := None, completed := add_mset r (completed s)\<rparr>)"
| leave: "dispatching (state (owner s)) \<Longrightarrow> running s = None \<Longrightarrow>
    lease_step s (s\<lparr>owner := dispatch_leave (owner s)\<rparr>)"

inductive lease_reachable :: "nat \<Rightarrow> lease_limits \<Rightarrow> lease_system \<Rightarrow> bool" for t lim where
  fresh: "new_owner reserve t lim = Inr own \<Longrightarrow>
    lease_reachable t lim \<lparr>owner = own, live = {#}, running = None, completed = {#}, admitted = {#}\<rparr>"
| step: "lease_reachable t lim s \<Longrightarrow> lease_step s s' \<Longrightarrow> lease_reachable t lim s'"

text \<open>The loans the quota is charged for: referenced, queued or in their callback.\<close>

definition outstanding :: "lease_system \<Rightarrow> release multiset" where
  "outstanding s = live s + mset (releases (state (owner s))) + (case running s of None \<Rightarrow> {#} | Some r \<Rightarrow> {#r#})"

definition lease_inv :: "nat \<Rightarrow> lease_limits \<Rightarrow> lease_system \<Rightarrow> bool" where
  "lease_inv t lim s =
     (thread (owner s) = t \<and> limits (owner s) = lim
    \<and> admitted s = completed s + outstanding s
    \<and> bytes (state (owner s)) = sum_mset (image_mset rel_bytes (outstanding s))
    \<and> leases (state (owner s)) = size (outstanding s)
    \<and> bytes (state (owner s)) \<le> max_bytes lim \<and> leases (state (owner s)) \<le> max_leases lim
    \<and> (running s \<noteq> None \<longrightarrow> dispatching (state (owner s))))"

lemmas lease_ops = admit_def close_owner_def dispatch_enter_def dispatch_pop_def dispatch_settle_def
  dispatch_leave_def drop_loan_def on_owner_thread_def

lemma lease_inv_step: "lease_step s s' \<Longrightarrow> lease_inv t lim s \<Longrightarrow> lease_inv t lim s'"
proof (induction rule: lease_step.induct)
  case (admit_loan t' base len cb tok s own r)
  then show ?case by (auto simp: lease_inv_def lease_ops outstanding_def Let_def split: if_splits)
next
  case (refuse_loan t' base len cb tok s own e)
  then show ?case by (auto simp: lease_inv_def lease_ops outstanding_def Let_def split: if_splits)
next
  case (drop_last r s)
  then obtain rest where "live s = add_mset r rest" by (metis insert_DiffM)
  with drop_last show ?case by (auto simp: lease_inv_def lease_ops outstanding_def)
next
  case (close t' s own res)
  then show ?case by (auto simp: lease_inv_def lease_ops outstanding_def Let_def split: if_splits)
next
  case (enter t' s own res)
  then show ?case by (auto simp: lease_inv_def lease_ops outstanding_def Let_def split: if_splits)
next
  case (pop s own r)
  then show ?case by (auto simp: lease_inv_def lease_ops outstanding_def split: list.splits)
next
  case (settle s r own)
  then show ?case by (auto simp: lease_inv_def lease_ops outstanding_def split: if_splits)
next
  case (leave s)
  then show ?case by (auto simp: lease_inv_def lease_ops outstanding_def)
qed

lemma lease_reachable_inv: "lease_reachable t lim s \<Longrightarrow> lease_inv t lim s"
proof (induction rule: lease_reachable.induct)
  case (fresh reserve own)
  then show ?case by (auto simp: lease_inv_def new_owner_def outstanding_def split: if_splits)
next
  case (step s s')
  then show ?case by (blast intro: lease_inv_step)
qed

section \<open>What the loans guarantee\<close>

text \<open>C20: In every interleaving the quota is charged exactly for the loans that are still
  referenced, queued or in their callback: the byte and lease counts are their totals and
  never exceed the limits, the release queue never outgrows the capacity reserved for it,
  and settling a release after its callback never underflows.\<close>

theorem lease_quota_exact:
  assumes "lease_reachable t lim s"
  shows "bytes (state (owner s)) = sum_mset (image_mset rel_bytes (outstanding s))
    \<and> leases (state (owner s)) = size (outstanding s)
    \<and> bytes (state (owner s)) \<le> max_bytes lim \<and> leases (state (owner s)) \<le> max_leases lim
    \<and> length (releases (state (owner s))) \<le> max_leases lim
    \<and> (\<forall>r. running s = Some r \<longrightarrow> dispatch_settle r (owner s) \<noteq> Panic)"
  using lease_reachable_inv [OF assms]
  by (auto simp: lease_inv_def outstanding_def dispatch_settle_def)

text \<open>C21: Every admitted producer reference is released exactly once. The admitted loans are
  at any time the completed ones together with the outstanding ones, so no callback runs
  twice and none is lost; and when \<open>close\<close> reports success, nothing is referenced, queued or
  running any more and the callback of every loan ever admitted has completed.\<close>

theorem every_loan_released_exactly_once:
  assumes "lease_reachable t lim s"
  shows "admitted s = completed s + live s + mset (releases (state (owner s)))
      + (case running s of None \<Rightarrow> {#} | Some r \<Rightarrow> {#r#})
    \<and> (\<forall>own. close_owner t (owner s) = (own, Inr ()) \<longrightarrow>
        live s = {#} \<and> releases (state (owner s)) = [] \<and> running s = None \<and> completed s = admitted s)"
  using lease_reachable_inv [OF assms]
  by (auto simp: lease_inv_def outstanding_def close_owner_def on_owner_thread_def Let_def
      split: option.splits if_splits)

text \<open>Closing is final: once an owner is closing, no step of any thread reopens it or
  admits another loan, so the outstanding loans can only drain.\<close>

theorem closing_is_final:
  assumes "lease_step s s'" and "closing (state (owner s))"
  shows "closing (state (owner s')) \<and> admitted s' = admitted s \<and> size (live s') \<le> size (live s)"
  using assms
  by (induction rule: lease_step.induct)
     (auto simp: lease_ops Let_def size_Diff_singleton_if split: if_splits list.splits)

lemma dispatch_loop_fifo:
  assumes "bytes (state own) = sum_list (map rel_bytes (releases (state own))) + b"
    and "leases (state own) = length (releases (state own)) + n"
  shows "dispatch_loop k own done =
    Ok (own\<lparr>state := (state own)\<lparr>bytes := sum_list (map rel_bytes (drop k (releases (state own)))) + b,
          leases := length (drop k (releases (state own))) + n, releases := drop k (releases (state own))\<rparr>\<rparr>,
        done @ take k (releases (state own)))"
  using assms
proof (induction k arbitrary: own "done")
  case 0
  then show ?case by (cases own, cases "state own") simp
next
  case (Suc k)
  show ?case
  proof (cases "releases (state own)")
    case Nil
    with Suc.prems show ?thesis by (cases own, cases "state own") (simp add: dispatch_pop_def)
  next
    case (Cons r rs)
    with Suc.prems show ?thesis by (simp add: dispatch_pop_def dispatch_settle_def Suc.IH)
  qed
qed

text \<open>Dispatch on the owner thread runs the queued callbacks in the order in which the
  loans were dropped, at most as many as asked for, and returns their number; it never
  fails half-way, gives the quota of exactly these loans back and leaves the owner ready
  for the next dispatch.\<close>

theorem dispatch_runs_fifo:
  assumes "lease_reachable t lim s" and "\<not> dispatching (state (owner s))"
  shows "\<exists>own. dispatch t k (owner s) = Ok (own, take k (releases (state (owner s))), min k (length (releases (state (owner s)))))
    \<and> releases (state own) = drop k (releases (state (owner s)))
    \<and> bytes (state own) = sum_mset (image_mset rel_bytes (live s)) + sum_list (map rel_bytes (drop k (releases (state (owner s)))))
    \<and> leases (state own) = size (live s) + (length (releases (state (owner s))) - k)
    \<and> \<not> dispatching (state own)"
proof -
  let ?o = "(owner s)\<lparr>state := (state (owner s))\<lparr>dispatching := True\<rparr>\<rparr>"
  have inv: "lease_inv t lim s" by (rule lease_reachable_inv [OF assms(1)])
  then have run: "running s = None" using assms(2) by (auto simp: lease_inv_def)
  have tot: "bytes (state ?o) = sum_list (map rel_bytes (releases (state ?o))) + sum_mset (image_mset rel_bytes (live s))"
    "leases (state ?o) = length (releases (state ?o)) + size (live s)"
    using inv run by (auto simp: lease_inv_def outstanding_def sum_mset_sum_list [symmetric])
  have enter: "dispatch_enter t (owner s) = (?o, Inr ())"
    using inv assms(2) by (simp add: dispatch_enter_def on_owner_thread_def lease_inv_def)
  show ?thesis
    unfolding dispatch_def enter
    by (simp add: dispatch_loop_fifo [OF tot] dispatch_leave_def min.commute)
qed

text \<open>Any other thread than the registering one is refused by every entry point, and the
  refusal changes nothing: the producer keeps its reference.\<close>

theorem wrong_thread_changes_nothing:
  assumes "t \<noteq> thread own"
  shows "admit t base len cb tok own = (own, Inl WrongThread)
    \<and> close_owner t own = (own, Inl WrongThread)
    \<and> dispatch t k own = Err WrongThread
    \<and> wait_for_release t own woken = Inl WrongThread"
  using assms
  by (simp add: admit_def close_owner_def dispatch_def dispatch_enter_def wait_for_release_def on_owner_thread_def)

section \<open>A concrete owner\<close>

definition demo_limits :: lease_limits where "demo_limits = \<lparr>max_bytes = 8, max_leases = 2\<rparr>"
definition demo_loan :: release where "demo_loan = \<lparr>callback = 1, token = 7, rel_bytes = 4\<rparr>"

definition demo_system :: "bool \<Rightarrow> release list \<Rightarrow> release multiset \<Rightarrow> lease_system" where
  "demo_system c rs ls =
     \<lparr>owner = \<lparr>thread = 1, limits = demo_limits,
        state = \<lparr>bytes = 4, leases = 1, releases = rs, closing = c, dispatching = False\<rparr>\<rparr>,
      live = ls, running = None, completed = {#}, admitted = {#demo_loan#}\<rparr>"

lemma demo_reachable:
  "lease_reachable 1 demo_limits (demo_system False [] {#demo_loan#})"
  "lease_reachable 1 demo_limits (demo_system False [demo_loan] {#})"
proof -
  have new: "new_owner (\<lambda>_. True) 1 demo_limits = Inr \<lparr>thread = 1, limits = demo_limits,
      state = \<lparr>bytes = 0, leases = 0, releases = [], closing = False, dispatching = False\<rparr>\<rparr>"
    by (simp add: new_owner_def demo_limits_def max_lease_count_def)
  have adm: "admit 1 4096 4 1 7 \<lparr>thread = 1, limits = demo_limits,
      state = \<lparr>bytes = 0, leases = 0, releases = [], closing = False, dispatching = False\<rparr>\<rparr> =
      (owner (demo_system False [] {#demo_loan#}), Inr demo_loan)"
    by (simp add: admit_def on_owner_thread_def demo_limits_def isize_max_def usize_max_def demo_system_def demo_loan_def)
  show one: "lease_reachable 1 demo_limits (demo_system False [] {#demo_loan#})"
    using lease_reachable.step [OF lease_reachable.fresh [OF new] lease_step.admit_loan] adm
    by (simp add: demo_system_def)
  show "lease_reachable 1 demo_limits (demo_system False [demo_loan] {#})"
    using lease_reachable.step [OF one lease_step.drop_last [of demo_loan]]
    by (simp add: demo_system_def drop_loan_def)
qed

theorem lease_quota_exact_witness: "leases (state (owner (demo_system False [demo_loan] {#}))) \<le> 2"
  using lease_quota_exact [OF demo_reachable(2)] by (simp add: demo_limits_def)

theorem every_loan_released_exactly_once_witness:
  "admitted (demo_system False [demo_loan] {#}) = {#demo_loan#}"
  using every_loan_released_exactly_once [OF demo_reachable(2)] by (simp add: demo_system_def)

theorem closing_is_final_witness:
  "closing (state (owner ((demo_system True [] {#demo_loan#})
     \<lparr>owner := drop_loan demo_loan (owner (demo_system True [] {#demo_loan#})), live := {#}\<rparr>)))"
  using closing_is_final [OF lease_step.drop_last [of demo_loan "demo_system True [] {#demo_loan#}"]]
  by (simp add: demo_system_def)

theorem dispatch_runs_fifo_witness:
  "\<exists>own. dispatch 1 5 (owner (demo_system False [demo_loan] {#})) = Ok (own, [demo_loan], 1) \<and> bytes (state own) = 0"
  using dispatch_runs_fifo [OF demo_reachable(2), of 5] by (auto simp: demo_system_def)

theorem wrong_thread_changes_nothing_witness:
  "dispatch 2 5 (owner (demo_system False [demo_loan] {#})) = Err WrongThread"
  using wrong_thread_changes_nothing [of 2 "owner (demo_system False [demo_loan] {#})"]
  by (simp add: demo_system_def)

end
