(* ===== verification/Owned_Buffers.thy ===== *)
theory Owned_Buffers
  imports Handle_Store
begin

text \<open>
  Handle-owned outbound buffers (\<^verbatim>\<open>ct_ffi/src/runtime/owned_buffers.rs\<close>): a buffer is
  allocated zeroed and writable, frozen once to a range of it, sliced and shared, and its
  bytes are taken once for sending; a handle can also be reserved before a foreign producer's
  memory is admitted. The storage of an allocation is its bytes; a frozen buffer shares it by
  value. A C handle is a 32-bit word read as a signed integer, a C result an integer.
\<close>

section \<open>Storage\<close>

definition SUCCESS :: int where "SUCCESS = 0"
definition ERR_INVALID_ARGUMENT :: int where "ERR_INVALID_ARGUMENT = - 4"
definition ERR_IO :: int where "ERR_IO = - 7"
definition ERR_HANDLE_UNAVAILABLE :: int where "ERR_HANDLE_UNAVAILABLE = - 14"

record frozen =
  allocation :: "byte list"
  capacity :: nat
  range_start :: nat
  range_end :: nat

definition frozen_bytes :: "frozen \<Rightarrow> (int, byte list) outcome" where
  "frozen_bytes f = slice_bytes (allocation f) (range_start f) (range_end f)"

text \<open>A mutable allocation has its bytes and the capacity the allocator gave it.\<close>

datatype storage = Reserved | Mutable "byte list" nat | Frozen frozen

type_synonym buffer_store = "(u32, storage) handle_table"

record buffer_info =
  info_capacity :: nat
  info_initialized :: nat
  info_offset :: nat
  info_length :: nat
  info_writable :: bool

definition default_store :: buffer_store where
  "default_store = \<lparr>next_id = 1, entries = Map.empty\<rparr>"

section \<open>Operations of the store\<close>

definition buffer_insert :: "storage \<Rightarrow> buffer_store \<Rightarrow> buffer_store \<times> (int + u32)" where
  "buffer_insert v st =
     (case insert_resource v st of
        (st', Inl _) \<Rightarrow> (st', Inl ERR_HANDLE_UNAVAILABLE)
      | (st', Inr key) \<Rightarrow> (st', Inr key))"

text \<open>\<open>try_reserve\<close> is the allocator: the capacity it gives for a length, or a failure.\<close>

definition buffer_allocate :: "(nat \<Rightarrow> nat option) \<Rightarrow> nat \<Rightarrow> buffer_store \<Rightarrow> buffer_store \<times> (int + u32)" where
  "buffer_allocate try_reserve len st =
     (if len > i32_max then (st, Inl ERR_INVALID_ARGUMENT)
      else case try_reserve len of
          None \<Rightarrow> (st, Inl ERR_IO)
        | Some cap \<Rightarrow> buffer_insert (Mutable (replicate len 0) cap) st)"

definition reserve_frozen :: "buffer_store \<Rightarrow> buffer_store \<times> (int + u32)" where
  "reserve_frozen st = buffer_insert Reserved st"

definition buffer_query :: "u32 \<Rightarrow> buffer_store \<Rightarrow> int + buffer_info" where
  "buffer_query key st =
     (case entries st key of
        None \<Rightarrow> Inl ERR_INVALID_ARGUMENT
      | Some Reserved \<Rightarrow> Inl ERR_INVALID_ARGUMENT
      | Some (Mutable bs cap) \<Rightarrow>
          Inr \<lparr>info_capacity = cap, info_initialized = length bs, info_offset = 0,
               info_length = length bs, info_writable = True\<rparr>
      | Some (Frozen f) \<Rightarrow>
          Inr \<lparr>info_capacity = capacity f, info_initialized = length (allocation f),
               info_offset = range_start f, info_length = range_end f - range_start f, info_writable = False\<rparr>)"

definition buffer_freeze :: "u32 \<Rightarrow> nat \<Rightarrow> nat \<Rightarrow> buffer_store \<Rightarrow> buffer_store \<times> (int + unit)" where
  "buffer_freeze key offset len st =
     (case entries st key of
        Some (Mutable bs cap) \<Rightarrow>
          if offset + len > usize_max then (st, Inl ERR_INVALID_ARGUMENT)
          else if offset + len > length bs then (st, Inl ERR_INVALID_ARGUMENT)
          else (st\<lparr>entries := (entries st)(key \<mapsto> Frozen \<lparr>allocation = bs, capacity = cap,
                   range_start = offset, range_end = offset + len\<rparr>)\<rparr>, Inr ())
      | _ \<Rightarrow> (st, Inl ERR_INVALID_ARGUMENT))"

definition buffer_frozen :: "u32 \<Rightarrow> buffer_store \<Rightarrow> int + frozen" where
  "buffer_frozen key st =
     (case entries st key of Some (Frozen f) \<Rightarrow> Inr f | _ \<Rightarrow> Inl ERR_INVALID_ARGUMENT)"

definition buffer_slice :: "u32 \<Rightarrow> nat \<Rightarrow> nat \<Rightarrow> buffer_store \<Rightarrow> buffer_store \<times> (int + u32)" where
  "buffer_slice key offset len st =
     (case buffer_frozen key st of
        Inl e \<Rightarrow> (st, Inl e)
      | Inr f \<Rightarrow>
          if offset + len > usize_max then (st, Inl ERR_INVALID_ARGUMENT)
          else if offset + len > range_end f - range_start f then (st, Inl ERR_INVALID_ARGUMENT)
          else buffer_insert (Frozen (f\<lparr>range_start := range_start f + offset,
                 range_end := range_start f + (offset + len)\<rparr>)) st)"

definition buffer_take :: "u32 \<Rightarrow> buffer_store \<Rightarrow> buffer_store \<times> (int, byte list) outcome" where
  "buffer_take key st =
     (case entries st key of
        Some (Frozen f) \<Rightarrow> (fst (remove_entry key st), frozen_bytes f)
      | _ \<Rightarrow> (st, Err ERR_INVALID_ARGUMENT))"

definition buffer_release :: "u32 \<Rightarrow> buffer_store \<Rightarrow> buffer_store \<times> (int + unit)" where
  "buffer_release key st =
     (case entries st key of
        None \<Rightarrow> (st, Inl ERR_INVALID_ARGUMENT)
      | Some Reserved \<Rightarrow> (st, Inl ERR_INVALID_ARGUMENT)
      | Some _ \<Rightarrow> (fst (remove_entry key st), Inr ()))"

text \<open>A reservation is the handle it holds; it is either committed or dropped.\<close>

definition reservation_commit ::
  "u32 \<Rightarrow> byte list \<Rightarrow> nat \<Rightarrow> nat \<Rightarrow> buffer_store \<Rightarrow> (int, buffer_store \<times> u32) outcome" where
  "reservation_commit key alloc s e st =
     (if \<not> (s \<le> e \<and> e \<le> length alloc) then Panic
      else case entries st key of
          Some Reserved \<Rightarrow>
            Ok (st\<lparr>entries := (entries st)(key \<mapsto> Frozen \<lparr>allocation = alloc, capacity = length alloc,
                  range_start = s, range_end = e\<rparr>)\<rparr>, key)
        | _ \<Rightarrow> Panic)"

definition reservation_drop :: "u32 \<Rightarrow> buffer_store \<Rightarrow> buffer_store" where
  "reservation_drop key st = fst (remove_entry key st)"

section \<open>Entry points\<close>

definition take_frozen :: "u32 \<Rightarrow> buffer_store \<Rightarrow> buffer_store \<times> (int, byte list) outcome" where
  "take_frozen key st =
     (if sint key \<le> 0 then (st, Err ERR_INVALID_ARGUMENT) else buffer_take key st)"

definition borrow_frozen :: "u32 \<Rightarrow> buffer_store \<Rightarrow> int + frozen" where
  "borrow_frozen key st = (if sint key \<le> 0 then Inl ERR_INVALID_ARGUMENT else buffer_frozen key st)"

definition retain_frozen_buffer :: "frozen \<Rightarrow> buffer_store \<Rightarrow> buffer_store \<times> (int + u32)" where
  "retain_frozen_buffer f st = buffer_insert (Frozen f) st"

text \<open>\<open>submit\<close> is the sending function; the buffer is consumed whatever it answers.\<close>

definition submit_frozen :: "u32 \<Rightarrow> (byte list \<Rightarrow> int) \<Rightarrow> buffer_store \<Rightarrow> buffer_store \<times> (int, int) outcome" where
  "submit_frozen key submit st =
     (case take_frozen key st of
        (st', Ok payload) \<Rightarrow> (st', Ok (submit payload))
      | (st', Err e) \<Rightarrow> (st', Ok e)
      | (st', Panic) \<Rightarrow> (st', Panic))"

definition ct_owned_buffer_allocate :: "(nat \<Rightarrow> nat option) \<Rightarrow> u32 \<Rightarrow> buffer_store \<Rightarrow> buffer_store \<times> int" where
  "ct_owned_buffer_allocate try_reserve len st =
     (if sint len < 0 then (st, ERR_INVALID_ARGUMENT)
      else case buffer_allocate try_reserve (unat len) st of
          (st', Inr key) \<Rightarrow> (st', sint key)
        | (st', Inl e) \<Rightarrow> (st', e))"

definition ct_owned_buffer_info :: "bool \<Rightarrow> u32 \<Rightarrow> buffer_store \<Rightarrow> int \<times> buffer_info option" where
  "ct_owned_buffer_info out_null key st =
     (if out_null \<or> sint key \<le> 0 then (ERR_INVALID_ARGUMENT, None)
      else case buffer_query key st of Inr i \<Rightarrow> (SUCCESS, Some i) | Inl e \<Rightarrow> (e, None))"

definition ct_owned_buffer_freeze :: "u32 \<Rightarrow> nat \<Rightarrow> nat \<Rightarrow> buffer_store \<Rightarrow> buffer_store \<times> int" where
  "ct_owned_buffer_freeze key offset len st =
     (if sint key \<le> 0 then (st, ERR_INVALID_ARGUMENT)
      else case buffer_freeze key offset len st of (st', Inr _) \<Rightarrow> (st', SUCCESS) | (st', Inl e) \<Rightarrow> (st', e))"

definition ct_owned_buffer_slice :: "u32 \<Rightarrow> nat \<Rightarrow> nat \<Rightarrow> buffer_store \<Rightarrow> buffer_store \<times> int" where
  "ct_owned_buffer_slice key offset len st =
     (if sint key \<le> 0 then (st, ERR_INVALID_ARGUMENT)
      else case buffer_slice key offset len st of (st', Inr k) \<Rightarrow> (st', sint k) | (st', Inl e) \<Rightarrow> (st', e))"

definition ct_owned_buffer_release :: "u32 \<Rightarrow> buffer_store \<Rightarrow> buffer_store \<times> int" where
  "ct_owned_buffer_release key st =
     (if sint key \<le> 0 then (st, ERR_INVALID_ARGUMENT)
      else case buffer_release key st of (st', Inr _) \<Rightarrow> (st', SUCCESS) | (st', Inl e) \<Rightarrow> (st', e))"

text \<open>The finalizer gets its handle as a pointer-sized number.\<close>

definition ct_owned_buffer_handle_finalizer :: "nat \<Rightarrow> buffer_store \<Rightarrow> buffer_store" where
  "ct_owned_buffer_handle_finalizer token st =
     (if 0 < token \<and> token \<le> i32_max then fst (buffer_release (of_nat token) st) else st)"

text \<open>An exported view is the bytes of the range together with its owner.\<close>

definition ct_owned_buffer_export :: "bool \<Rightarrow> u32 \<Rightarrow> buffer_store \<Rightarrow> int \<times> (byte list \<times> frozen) option" where
  "ct_owned_buffer_export out_null key st =
     (if out_null \<or> sint key \<le> 0 then (ERR_INVALID_ARGUMENT, None)
      else case buffer_frozen key st of
          Inl e \<Rightarrow> (e, None)
        | Inr f \<Rightarrow> (SUCCESS, Some (seg (allocation f) (range_start f) (range_end f), f)))"

section \<open>Runs of the store\<close>

text \<open>The store, the handles whose reservations are outstanding, and the frozen buffers that
  are borrowed (by a frame being assembled, an exported view, ...).\<close>

record buffer_system =
  store :: buffer_store
  reserved :: "u32 set"
  borrowed :: "frozen set"

inductive buffer_step :: "buffer_system \<Rightarrow> buffer_system \<Rightarrow> bool" where
  allocate: "buffer_step s (s\<lparr>store := fst (buffer_allocate try_reserve len (store s))\<rparr>)"
| poke: "entries (store s) key = Some (Mutable bs cap) \<Longrightarrow> length bs' = length bs \<Longrightarrow>
    buffer_step s (s\<lparr>store := (store s)\<lparr>entries := (entries (store s))(key \<mapsto> Mutable bs' cap)\<rparr>\<rparr>)"
| freeze: "buffer_step s (s\<lparr>store := fst (buffer_freeze key offset len (store s))\<rparr>)"
| slice: "buffer_step s (s\<lparr>store := fst (buffer_slice key offset len (store s))\<rparr>)"
| take: "buffer_step s (s\<lparr>store := fst (buffer_take key (store s))\<rparr>)"
| release: "buffer_step s (s\<lparr>store := fst (buffer_release key (store s))\<rparr>)"
| borrow: "buffer_frozen key (store s) = Inr f \<Longrightarrow> buffer_step s (s\<lparr>borrowed := insert f (borrowed s)\<rparr>)"
| retain: "f \<in> borrowed s \<Longrightarrow> buffer_step s (s\<lparr>store := fst (retain_frozen_buffer f (store s))\<rparr>)"
| reserve: "reserve_frozen (store s) = (st, Inr key) \<Longrightarrow>
    buffer_step s (s\<lparr>store := st, reserved := insert key (reserved s)\<rparr>)"
| reserve_refused: "reserve_frozen (store s) = (st, Inl e) \<Longrightarrow> buffer_step s (s\<lparr>store := st\<rparr>)"
| commit: "key \<in> reserved s \<Longrightarrow> reservation_commit key alloc a b (store s) = Ok (st, k) \<Longrightarrow>
    buffer_step s (s\<lparr>store := st, reserved := reserved s - {key}\<rparr>)"
| abandon: "key \<in> reserved s \<Longrightarrow>
    buffer_step s (s\<lparr>store := reservation_drop key (store s), reserved := reserved s - {key}\<rparr>)"

inductive buffer_reachable :: "buffer_system \<Rightarrow> bool" where
  initial: "buffer_reachable \<lparr>store = default_store, reserved = {}, borrowed = {}\<rparr>"
| step: "buffer_reachable s \<Longrightarrow> buffer_step s s' \<Longrightarrow> buffer_reachable s'"

definition frozen_ok :: "frozen \<Rightarrow> bool" where
  "frozen_ok f = (range_start f \<le> range_end f \<and> range_end f \<le> length (allocation f))"

definition buffers_inv :: "buffer_system \<Rightarrow> bool" where
  "buffers_inv s =
     (handles_below (\<lambda>key. 0 < sint key) (store s)
    \<and> (\<forall>key f. entries (store s) key = Some (Frozen f) \<longrightarrow> frozen_ok f)
    \<and> (\<forall>f \<in> borrowed s. frozen_ok f)
    \<and> (\<forall>key. entries (store s) key = Some Reserved \<longleftrightarrow> key \<in> reserved s))"

lemma buffer_insert_cases:
  assumes "handles_below (\<lambda>key. 0 < sint key) st"
  obtains (refused) "buffer_insert v st = (st, Inl ERR_HANDLE_UNAVAILABLE)"
  | (inserted) st' key where "buffer_insert v st = (st', Inr key)" "entries st key = None" "0 < sint key"
      "entries st' = (entries st)(key \<mapsto> v)" "handles_below (\<lambda>key. 0 < sint key) st'"
proof (cases "insert_with resource_next v st")
  case (Pair st' r)
  show thesis
  proof (cases r)
    case None
    then have "st' = st" using resource.insert_refused [OF assms] Pair by blast
    then show thesis using refused Pair None by (simp add: buffer_insert_def insert_resource_def)
  next
    case (Some key)
    then have "buffer_insert v st = (st', Inr key)" using Pair by (simp add: buffer_insert_def insert_resource_def)
    moreover have "handles_below (\<lambda>key. 0 < sint key) st'"
      using resource.insert_keeps_below [OF assms, of v] Pair by simp
    ultimately show thesis
      using resource.insert_fresh [OF assms] Pair Some by (intro inserted) auto
  qed
qed

lemma insert_inv:
  assumes inv: "buffers_inv s" and v: "v \<noteq> Reserved" "\<And>f. v = Frozen f \<Longrightarrow> frozen_ok f"
  shows "buffers_inv (s\<lparr>store := fst (buffer_insert v (store s))\<rparr>)"
proof -
  have below: "handles_below (\<lambda>key. 0 < sint key) (store s)" using inv by (simp add: buffers_inv_def)
  show ?thesis
  proof (cases rule: buffer_insert_cases [OF below, of v])
    case 1
    with inv show ?thesis by simp
  next
    case (2 st' key)
    then have "key \<notin> reserved s" using inv unfolding buffers_inv_def by force
    with 2 inv v show ?thesis by (auto simp: buffers_inv_def)
  qed
qed

lemma remove_inv:
  assumes "buffers_inv s" and "entries (store s) key \<noteq> Some Reserved"
  shows "buffers_inv (s\<lparr>store := fst (remove_entry key (store s))\<rparr>)"
  using assms by (auto simp: buffers_inv_def handles_below_def remove_entry_def)

lemma slice_frozen_ok:
  "frozen_ok f \<Longrightarrow> offset + len \<le> range_end f - range_start f \<Longrightarrow>
   frozen_ok (f\<lparr>range_start := range_start f + offset, range_end := range_start f + (offset + len)\<rparr>)"
  by (auto simp: frozen_ok_def)

lemma mutable_not_reserved:
  "buffers_inv s \<Longrightarrow> entries (store s) key = Some (Mutable bs cap) \<Longrightarrow> key \<notin> reserved s"
proof
  assume "buffers_inv s" "key \<in> reserved s"
  then have "entries (store s) key = Some Reserved" by (simp add: buffers_inv_def)
  moreover assume "entries (store s) key = Some (Mutable bs cap)"
  ultimately show False by simp
qed

lemma buffers_inv_step: "buffer_step s s' \<Longrightarrow> buffers_inv s \<Longrightarrow> buffers_inv s'"
proof (induction rule: buffer_step.induct)
  case (allocate s try_reserve len)
  then show ?case by (auto simp: buffer_allocate_def intro!: insert_inv split: option.splits)
next
  case (poke s key bs cap bs')
  then have "key \<notin> reserved s" by (simp add: mutable_not_reserved)
  with poke show ?case by (auto simp: buffers_inv_def handles_below_def)
next
  case (freeze s key offset len)
  have "key \<notin> reserved s" if "entries (store s) key = Some (Mutable bs cap)" for bs cap
    using mutable_not_reserved [OF freeze that] .
  with freeze show ?case
    by (auto simp: buffer_freeze_def buffers_inv_def handles_below_def frozen_ok_def
        split: option.splits storage.splits)
next
  case (slice s key offset len)
  show ?case
  proof (cases "buffer_frozen key (store s)")
    case (Inl e)
    with slice show ?thesis by (simp add: buffer_slice_def)
  next
    case (Inr f)
    then have "frozen_ok f" using slice
      by (auto simp: buffer_frozen_def buffers_inv_def split: option.splits storage.splits)
    with Inr slice show ?thesis by (auto simp: buffer_slice_def slice_frozen_ok intro!: insert_inv)
  qed
next
  case (take s key)
  then show ?case by (auto simp: buffer_take_def intro!: remove_inv split: option.splits storage.splits)
next
  case (release s key)
  then show ?case by (auto simp: buffer_release_def intro!: remove_inv split: option.splits storage.splits)
next
  case (borrow key s f)
  then show ?case by (auto simp: buffer_frozen_def buffers_inv_def split: option.splits storage.splits)
next
  case (retain f s)
  then have "frozen_ok f" by (simp add: buffers_inv_def)
  with retain show ?case unfolding retain_frozen_buffer_def by (intro insert_inv) auto
next
  case (reserve s st key)
  then have below: "handles_below (\<lambda>key. 0 < sint key) (store s)" by (simp add: buffers_inv_def)
  show ?case
    using reserve
    by (cases rule: buffer_insert_cases [OF below, of Reserved])
       (auto simp: reserve_frozen_def buffers_inv_def)
next
  case (reserve_refused s st e)
  then have below: "handles_below (\<lambda>key. 0 < sint key) (store s)" by (simp add: buffers_inv_def)
  show ?case
    using reserve_refused
    by (cases rule: buffer_insert_cases [OF below, of Reserved])
       (auto simp: reserve_frozen_def)
next
  case (commit key s alloc a b st k)
  have st: "st = store s\<lparr>entries := (entries (store s))
      (key \<mapsto> Frozen \<lparr>allocation = alloc, capacity = length alloc, range_start = a, range_end = b\<rparr>)\<rparr>"
    and ab: "a \<le> b" "b \<le> length alloc" and slot: "entries (store s) key = Some Reserved"
    using commit by (auto simp: reservation_commit_def split: option.splits storage.splits if_splits)
  have "handles_below (\<lambda>key. 0 < sint key) (store s)" using commit by (simp add: buffers_inv_def)
  with slot have "handles_below (\<lambda>key. 0 < sint key) st" by (auto simp: st handles_below_def)
  with commit ab show ?case by (auto simp: st buffers_inv_def frozen_ok_def)
next
  case (abandon key s)
  then show ?case by (auto simp: reservation_drop_def buffers_inv_def handles_below_def remove_entry_def)
qed

lemma buffer_reachable_inv: "buffer_reachable s \<Longrightarrow> buffers_inv s"
proof (induction rule: buffer_reachable.induct)
  case initial
  show ?case by (simp add: buffers_inv_def default_store_def handles_below_def)
next
  case (step s s')
  then show ?case by (blast intro: buffers_inv_step)
qed

section \<open>A concrete run\<close>

text \<open>Four bytes are allocated, written and frozen to the middle two.\<close>

definition demo_frozen :: frozen where
  "demo_frozen = \<lparr>allocation = [9, 8, 7, 6], capacity = 4, range_start = 1, range_end = 3\<rparr>"

definition demo_buffers :: buffer_system where
  "demo_buffers = \<lparr>store = \<lparr>next_id = 2, entries = [1 \<mapsto> Frozen demo_frozen]\<rparr>, reserved = {}, borrowed = {}\<rparr>"

lemma demo_insert:
  "buffer_insert v default_store = (\<lparr>next_id = 2, entries = [1 \<mapsto> v]\<rparr>, Inr 1)"
  "buffer_insert v (store demo_buffers) = (\<lparr>next_id = 3, entries = [1 \<mapsto> Frozen demo_frozen, 2 \<mapsto> v]\<rparr>, Inr 2)"
  by (simp_all add: buffer_insert_def insert_resource_def insert_with_def resource_next_def i32_max_def
      place_def default_store_def demo_buffers_def)

lemma demo_buffers_reachable: "buffer_reachable demo_buffers"
proof -
  let ?s = "\<lambda>v. \<lparr>store = \<lparr>next_id = 2, entries = [1 \<mapsto> v]\<rparr>, reserved = {}, borrowed = {}\<rparr>"
  have zeros: "replicate 4 (0 :: byte) = [0, 0, 0, 0]" by (simp add: numeral_eq_Suc)
  have 1: "buffer_reachable (?s (Mutable [0, 0, 0, 0] 4))"
    using buffer_reachable.step [OF buffer_reachable.initial buffer_step.allocate [of _ "Some" 4]]
    by (simp add: buffer_allocate_def i32_max_def demo_insert zeros)
  have 2: "buffer_reachable (?s (Mutable [9, 8, 7, 6] 4))"
    using buffer_reachable.step [OF 1 buffer_step.poke [of _ 1 "[0, 0, 0, 0]" 4 "[9, 8, 7, 6]"]] by simp
  have "Suc (Suc (Suc 0)) = 3" by simp
  with buffer_reachable.step [OF 2 buffer_step.freeze [of _ 1 1 2]] show ?thesis
    by (simp add: buffer_freeze_def usize_max_def demo_buffers_def demo_frozen_def del: One_nat_def)
qed

lemma demo_lookup: "entries (store demo_buffers) 1 = Some (Frozen demo_frozen)"
  by (simp add: demo_buffers_def)

section \<open>What the buffers guarantee\<close>

text \<open>C23: Frozen views stay inside their allocation. In every reachable state the range of
  every frozen buffer, stored or borrowed, lies in the bytes of its allocation, so taking or
  exporting it never panics or reads out of bounds, and committing an outstanding reservation
  over a valid range never finds its slot gone.\<close>

theorem frozen_views_in_bounds:
  assumes "buffer_reachable s"
  shows "(\<forall>key f. entries (store s) key = Some (Frozen f) \<longrightarrow>
      frozen_bytes f = Ok (seg (allocation f) (range_start f) (range_end f)))
    \<and> (\<forall>f \<in> borrowed s. frozen_bytes f = Ok (seg (allocation f) (range_start f) (range_end f)))
    \<and> (\<forall>key. snd (buffer_take key (store s)) \<noteq> Panic)
    \<and> (\<forall>key \<in> reserved s. \<forall>alloc a b. a \<le> b \<longrightarrow> b \<le> length alloc \<longrightarrow>
        reservation_commit key alloc a b (store s) \<noteq> Panic)"
proof -
  note inv = buffer_reachable_inv [OF assms]
  have f: "frozen_bytes f = Ok (seg (allocation f) (range_start f) (range_end f))"
    if "(\<exists>key. entries (store s) key = Some (Frozen f)) \<or> f \<in> borrowed s" for f
    using inv that by (auto simp: buffers_inv_def frozen_ok_def frozen_bytes_def slice_bytes_def seg_def)
  moreover have "reservation_commit key alloc a b (store s) \<noteq> Panic"
    if "key \<in> reserved s" "a \<le> b" "b \<le> length alloc" for key alloc a b
  proof -
    have "entries (store s) key = Some Reserved" using inv that(1) unfolding buffers_inv_def by blast
    with that show ?thesis by (simp add: reservation_commit_def)
  qed
  moreover have "snd (buffer_take key (store s)) \<noteq> Panic" for key
  proof (cases "\<exists>f. entries (store s) key = Some (Frozen f)")
    case True
    then obtain f' where "entries (store s) key = Some (Frozen f')" by blast
    moreover from this have "frozen_bytes f' = Ok (seg (allocation f') (range_start f') (range_end f'))"
      by (intro f) blast
    ultimately show ?thesis by (simp add: buffer_take_def)
  qed (auto simp: buffer_take_def split: option.splits storage.splits)
  ultimately show ?thesis by blast
qed

theorem frozen_views_in_bounds_witness: "frozen_bytes demo_frozen = Ok [8, 7]"
  using frozen_views_in_bounds [OF demo_buffers_reachable] demo_lookup
  by (simp add: frozen_bytes_def slice_bytes_def demo_frozen_def)

lemma insert_keeps_old_handles:
  assumes "key < next_id st"
  shows "entries (fst (buffer_insert v st)) key = entries st key \<and> key < next_id (fst (buffer_insert v st))"
  using assms resource.bump_rises
  by (cases rule: insert_with_cases [of resource_next st v])
     (auto simp: buffer_insert_def insert_resource_def split: prod.splits intro: less_trans)

text \<open>An identifier that has been given out and is not reserved: it names the frozen
  buffer \<open>F\<close> if there is one, or nothing.\<close>

definition frozen_or_gone :: "u32 \<Rightarrow> frozen option \<Rightarrow> buffer_system \<Rightarrow> bool" where
  "frozen_or_gone key F s =
     (key < next_id (store s) \<and> key \<notin> reserved s
      \<and> (entries (store s) key = map_option Frozen F \<or> entries (store s) key = None))"

lemma frozen_or_gone_step:
  assumes "frozen_or_gone key F s" and "buffer_step s s'"
  shows "frozen_or_gone key F s'"
proof -
  note old = insert_keeps_old_handles [of key "store s"]
  have new: "k \<noteq> key" if "reserve_frozen (store s) = (st, Inr k)" "key < next_id (store s)" for st k
    using that by (cases rule: insert_with_cases [of resource_next "store s" Reserved])
      (auto simp: reserve_frozen_def buffer_insert_def insert_resource_def)
  have res: "entries st key = entries (store s) key \<and> key < next_id st"
    if "reserve_frozen (store s) = (st, r)" "key < next_id (store s)" for st r
    using old [of Reserved] that by (simp add: reserve_frozen_def)
  show ?thesis
    using assms(2,1) unfolding frozen_or_gone_def
    by (cases rule: buffer_step.cases; cases F)
       (auto simp: buffer_allocate_def buffer_freeze_def buffer_slice_def buffer_take_def buffer_release_def
          retain_frozen_buffer_def reservation_commit_def reservation_drop_def remove_entry_def old
        dest: res new split: option.splits storage.splits sum.splits if_splits)
qed

lemma frozen_or_gone_steps: "buffer_step\<^sup>*\<^sup>* s s' \<Longrightarrow> frozen_or_gone key F s \<Longrightarrow> frozen_or_gone key F s'"
  by (induction rule: rtranclp_induct) (auto intro: frozen_or_gone_step)

text \<open>C22: Frozen bytes are immutable and their handle is never recycled: whatever the callers
  do after a buffer was frozen, its handle names the same bytes and range, or it was taken
  or released and names nothing for ever.\<close>

theorem frozen_bytes_immutable:
  assumes "buffer_reachable s" and "entries (store s) key = Some (Frozen f)" and "buffer_step\<^sup>*\<^sup>* s s'"
  shows "entries (store s') key = Some (Frozen f)
    \<or> (entries (store s') key = None \<and> (\<forall>s''. buffer_step\<^sup>*\<^sup>* s' s'' \<longrightarrow> entries (store s'') key = None))"
proof -
  note inv = buffer_reachable_inv [OF assms(1)]
  have "key < next_id (store s)" using inv assms(2) by (auto simp: buffers_inv_def handles_below_def)
  moreover have "key \<notin> reserved s" using inv assms(2) unfolding buffers_inv_def by force
  ultimately have "frozen_or_gone key (Some f) s" using assms(2) by (simp add: frozen_or_gone_def)
  then have "frozen_or_gone key (Some f) s'" by (rule frozen_or_gone_steps [OF assms(3)])
  moreover from this have "frozen_or_gone key None s'" if "entries (store s') key = None"
    using that by (simp add: frozen_or_gone_def)
  ultimately have "entries (store s') key = Some (Frozen f) \<or> entries (store s') key = None \<and> frozen_or_gone key None s'"
    by (auto simp: frozen_or_gone_def)
  moreover have "entries (store s'') key = None" if "frozen_or_gone key None s'" "buffer_step\<^sup>*\<^sup>* s' s''" for s''
    using frozen_or_gone_steps [OF that(2,1)] by (simp add: frozen_or_gone_def)
  ultimately show ?thesis by blast
qed

theorem frozen_bytes_immutable_witness:
  "entries (fst (buffer_release 2 (store demo_buffers))) 1 = Some (Frozen demo_frozen)"
proof -
  let ?s = "demo_buffers\<lparr>store := fst (buffer_release 2 (store demo_buffers))\<rparr>"
  have "buffer_step\<^sup>*\<^sup>* demo_buffers ?s" by (rule r_into_rtranclp) (rule buffer_step.release)
  from frozen_bytes_immutable [OF demo_buffers_reachable demo_lookup this] show ?thesis
    by (simp add: buffer_release_def demo_buffers_def)
qed

text \<open>A reservation is invisible until it is committed: every public operation on its
  handle is refused as invalid and leaves the slot reserved, so no caller can take, freeze,
  slice, inspect or release it in between.\<close>

theorem reservation_invisible:
  assumes "buffer_reachable s" and "key \<in> reserved s"
  shows "buffer_query key (store s) = Inl ERR_INVALID_ARGUMENT
    \<and> buffer_frozen key (store s) = Inl ERR_INVALID_ARGUMENT
    \<and> buffer_freeze key offset len (store s) = (store s, Inl ERR_INVALID_ARGUMENT)
    \<and> buffer_slice key offset len (store s) = (store s, Inl ERR_INVALID_ARGUMENT)
    \<and> buffer_take key (store s) = (store s, Err ERR_INVALID_ARGUMENT)
    \<and> buffer_release key (store s) = (store s, Inl ERR_INVALID_ARGUMENT)"
proof -
  have "entries (store s) key = Some Reserved"
    using buffer_reachable_inv [OF assms(1)] assms(2) unfolding buffers_inv_def by blast
  then show ?thesis
    by (simp add: buffer_query_def buffer_frozen_def buffer_freeze_def buffer_slice_def buffer_take_def buffer_release_def)
qed

theorem reservation_invisible_witness:
  "buffer_take 2 \<lparr>next_id = 3, entries = [1 \<mapsto> Frozen demo_frozen, 2 \<mapsto> Reserved]\<rparr> =
   (\<lparr>next_id = 3, entries = [1 \<mapsto> Frozen demo_frozen, 2 \<mapsto> Reserved]\<rparr>, Err ERR_INVALID_ARGUMENT)"
proof -
  have "reserve_frozen (store demo_buffers) = (\<lparr>next_id = 3, entries = [1 \<mapsto> Frozen demo_frozen, 2 \<mapsto> Reserved]\<rparr>, Inr 2)"
    by (simp add: reserve_frozen_def demo_insert)
  from buffer_reachable.step [OF demo_buffers_reachable buffer_step.reserve [OF this]]
  show ?thesis using reservation_invisible [of _ 2] by fastforce
qed

text \<open>A slice of a frozen buffer is the slice of its bytes: the new handle, once taken,
  gives exactly the requested part of what the original gives, the original is untouched, and
  a handle can be taken once and then names nothing.\<close>

theorem slice_takes_subrange:
  assumes reach: "buffer_reachable s" and frozen: "buffer_frozen key (store s) = Inr f"
    and slice: "buffer_slice key offset len (store s) = (st, Inr piece)"
  shows "snd (buffer_take piece st) =
      Ok (seg (seg (allocation f) (range_start f) (range_end f)) offset (offset + len))
    \<and> snd (buffer_take key st) = Ok (seg (allocation f) (range_start f) (range_end f))
    \<and> snd (buffer_take piece (fst (buffer_take piece st))) = Err ERR_INVALID_ARGUMENT"
proof -
  note inv = buffer_reachable_inv [OF reach]
  have below: "handles_below (\<lambda>key. 0 < sint key) (store s)" using inv by (simp add: buffers_inv_def)
  have key: "entries (store s) key = Some (Frozen f)"
    using frozen by (auto simp: buffer_frozen_def split: option.splits storage.splits)
  have ok: "frozen_ok f" using inv key by (auto simp: buffers_inv_def)
  let ?g = "f\<lparr>range_start := range_start f + offset, range_end := range_start f + (offset + len)\<rparr>"
  have fits: "offset + len \<le> range_end f - range_start f"
    and ins: "buffer_insert (Frozen ?g) (store s) = (st, Inr piece)"
    using slice frozen by (auto simp: buffer_slice_def split: if_splits)
  obtain "entries (store s) piece = None" "entries st = (entries (store s))(piece \<mapsto> Frozen ?g)"
    using ins by (cases rule: buffer_insert_cases [OF below, of "Frozen ?g"]) auto
  moreover have "piece \<noteq> key" using calculation(1) key by auto
  moreover have "range_start f + (offset + len) \<le> length (allocation f)"
    using fits ok unfolding frozen_ok_def by linarith
  moreover have "seg (allocation f) (range_start f + offset) (range_start f + (offset + len)) =
      seg (seg (allocation f) (range_start f) (range_end f)) offset (offset + len)"
    using fits by (simp add: seg_def drop_take min_def add.commute)
  ultimately show ?thesis
    using key ok fits
    by (simp add: buffer_take_def frozen_bytes_def slice_bytes_def frozen_ok_def seg_def remove_entry_def)
qed

theorem slice_takes_subrange_witness:
  "snd (buffer_take 2 (fst (buffer_slice 1 1 1 (store demo_buffers)))) = Ok [7]"
proof -
  have f: "buffer_frozen 1 (store demo_buffers) = Inr demo_frozen"
    by (simp add: buffer_frozen_def demo_lookup)
  have "buffer_slice 1 1 1 (store demo_buffers) = (fst (buffer_slice 1 1 1 (store demo_buffers)), Inr 2)"
    by (simp add: buffer_slice_def f usize_max_def demo_insert) (simp add: demo_frozen_def)
  from slice_takes_subrange [OF demo_buffers_reachable f this] show ?thesis
    by (simp add: demo_frozen_def seg_def)
qed

end
