(* ===== verification/Io_Stream.thy ===== *)
theory Io_Stream
  imports Prelude
begin

text \<open>
  The byte stream of a connection (\<^verbatim>\<open>ct_core/src/io_stream.rs\<close>): a transport (TCP or TLS)
  with a buffer in front of it, into which look-ahead bytes are pushed back. The transport is
  a parameter: a function that gives the next bytes, at most as many as asked for, none at the
  end of the stream, or fails. \<open>Elapsed\<close> stands for a timer around the read that fires
  before the transport has anything. What a healthy transport promises is the locale
  \<open>byte_source\<close>; the buffered stream over it is a \<open>byte_source\<close> again, so every reader
  of the development is verified once for both.
\<close>

section \<open>Sources\<close>

datatype stream_error = Elapsed | Unexpected_Eof | Broken

type_synonym 's source = "nat \<Rightarrow> 's \<Rightarrow> 's \<times> (stream_error + byte list)"

record 's io_stream =
  inner :: 's
  buffered :: "byte list"
  buffered_offset :: nat

definition plain :: "'s \<Rightarrow> 's io_stream" where
  "plain s = \<lparr>inner = s, buffered = [], buffered_offset = 0\<rparr>"

definition buffer_front :: "byte list \<Rightarrow> 's io_stream \<Rightarrow> 's io_stream" where
  "buffer_front bs s =
     (if bs = [] then s
      else if buffered_offset s < length (buffered s) then
        s\<lparr>buffered := bs @ drop (buffered_offset s) (buffered s), buffered_offset := 0\<rparr>
      else s\<lparr>buffered := bs, buffered_offset := 0\<rparr>)"

definition poll_read :: "'s source \<Rightarrow> 's io_stream source" where
  "poll_read pull n s =
     (if buffered_offset s < length (buffered s) then
        let remaining = drop (buffered_offset s) (buffered s);
            to_copy = min (length remaining) n;
            s' = s\<lparr>buffered_offset := buffered_offset s + to_copy\<rparr>
        in (if buffered_offset s' \<ge> length (buffered s') then s'\<lparr>buffered := [], buffered_offset := 0\<rparr> else s',
            Inr (take to_copy remaining))
      else case pull n (inner s) of (i, r) \<Rightarrow> (s\<lparr>inner := i\<rparr>, r))"

text \<open>Writes go to the transport; the buffer is only in the way of reads.\<close>

type_synonym 's sink = "byte list \<Rightarrow> 's \<Rightarrow> 's \<times> stream_error option"

definition poll_write :: "'s sink \<Rightarrow> 's io_stream sink" where
  "poll_write push bs s = (case push bs (inner s) of (i, r) \<Rightarrow> (s\<lparr>inner := i\<rparr>, r))"

definition poll_flush :: "('s \<Rightarrow> 's \<times> stream_error option) \<Rightarrow> 's io_stream \<Rightarrow> 's io_stream \<times> stream_error option" where
  "poll_flush flush s = (case flush (inner s) of (i, r) \<Rightarrow> (s\<lparr>inner := i\<rparr>, r))"

section \<open>Reading an exact number of bytes\<close>

text \<open>The loop of \<open>read_exact\<close>, of \<open>read_exact_frame_payload\<close> and of the look-ahead of the
  RawSocket handshake: it reads until \<open>n\<close> bytes have arrived and gives up on an error or at the
  end of the stream; the bytes read so far are part of the answer.\<close>

function fill :: "'s source \<Rightarrow> nat \<Rightarrow> 's \<Rightarrow> 's \<times> byte list \<times> stream_error option" where
  "fill pull n s =
     (if n = 0 then (s, [], None)
      else case pull n s of
          (s', Inl e) \<Rightarrow> (s', [], Some e)
        | (s', Inr []) \<Rightarrow> (s', [], Some Unexpected_Eof)
        | (s', Inr (b # bs)) \<Rightarrow>
            (case fill pull (n - length (b # bs)) s' of (s'', acc, e) \<Rightarrow> (s'', (b # bs) @ acc, e)))"
  by pat_completeness auto
termination by (relation "measure (\<lambda>(_, n, _). n)") auto

declare fill.simps [simp del]

definition read_exact :: "'s source \<Rightarrow> nat \<Rightarrow> 's \<Rightarrow> 's \<times> (stream_error + byte list)" where
  "read_exact pull n s =
     (case fill pull n s of (s', bs, None) \<Rightarrow> (s', Inr bs) | (s', bs, Some e) \<Rightarrow> (s', Inl e))"

section \<open>What a transport promises\<close>

text \<open>\<open>rest s\<close> are the bytes that are still to come. A read gives a prefix of them, at least one
  byte while there are any, and at most as many as asked for; when none are left it reports
  the end of the stream or an error, and nothing arrives later.\<close>

locale byte_source =
  fixes pull :: "'s source" and rest :: "'s \<Rightarrow> byte list"
  assumes pull_data: "0 < n \<Longrightarrow> rest s \<noteq> [] \<Longrightarrow>
      \<exists>s' b bs. pull n s = (s', Inr (b # bs)) \<and> rest s = (b # bs) @ rest s' \<and> length (b # bs) \<le> n"
    and pull_end: "0 < n \<Longrightarrow> rest s = [] \<Longrightarrow>
      \<exists>s'. rest s' = [] \<and> (pull n s = (s', Inr []) \<or> (\<exists>e. pull n s = (s', Inl e)))"
begin

lemma fill_enough:
  "n \<le> length (rest s) \<Longrightarrow> \<exists>s'. fill pull n s = (s', take n (rest s), None) \<and> rest s' = drop n (rest s)"
proof (induction n arbitrary: s rule: less_induct)
  case (less n)
  show ?case
  proof (cases "n = 0")
    case True
    then show ?thesis by (simp add: fill.simps)
  next
    case False
    with less.prems obtain s' b bs where
      s': "pull n s = (s', Inr (b # bs))" "rest s = (b # bs) @ rest s'" "length (b # bs) \<le> n"
      using pull_data [of n s] by fastforce
    have "n - length (b # bs) < n" "n - length (b # bs) \<le> length (rest s')"
      using False less.prems s'(2) by auto
    from less.IH [OF this] obtain s'' where
      "fill pull (n - length (b # bs)) s' = (s'', take (n - length (b # bs)) (rest s'), None)"
      "rest s'' = drop (n - length (b # bs)) (rest s')" by blast
    moreover obtain k where "n = Suc (length bs) + k" using s'(3) by (auto simp: le_iff_add)
    ultimately show ?thesis using s' by (subst fill.simps) simp
  qed
qed

lemma fill_short:
  "length (rest s) < n \<Longrightarrow> \<exists>s' e. fill pull n s = (s', rest s, Some e) \<and> rest s' = []"
proof (induction n arbitrary: s rule: less_induct)
  case (less n)
  then have n: "0 < n" by simp
  show ?case
  proof (cases "rest s = []")
    case True
    from pull_end [OF n this] n True show ?thesis by (subst fill.simps) (auto simp del: length_greater_0_conv)
  next
    case False
    with pull_data [OF n] obtain s' b bs where
      s': "pull n s = (s', Inr (b # bs))" "rest s = (b # bs) @ rest s'" by blast
    have "n - length (b # bs) < n" "length (rest s') < n - length (b # bs)" using less.prems s'(2) by auto
    from less.IH [OF this] obtain s'' e where
      "fill pull (n - length (b # bs)) s' = (s'', rest s', Some e)" "rest s'' = []" by blast
    with s' n show ?thesis by (subst fill.simps) simp
  qed
qed

lemma read_exact_enough:
  "n \<le> length (rest s) \<Longrightarrow>
   \<exists>s'. read_exact pull n s = (s', Inr (take n (rest s))) \<and> rest s' = drop n (rest s)"
  using fill_enough [of n s] by (auto simp: read_exact_def)

lemma read_exact_short: "length (rest s) < n \<Longrightarrow> \<exists>s' e. read_exact pull n s = (s', Inl e) \<and> rest s' = []"
  using fill_short [of s n] by (auto simp: read_exact_def)

end

section \<open>The buffered stream\<close>

definition pending :: "('s \<Rightarrow> byte list) \<Rightarrow> 's io_stream \<Rightarrow> byte list" where
  "pending rest s = drop (buffered_offset s) (buffered s) @ rest (inner s)"

lemma inner_plain [simp]: "inner (plain s) = s"
  by (simp add: plain_def)

lemma pending_plain [simp]: "pending rest (plain s) = rest s"
  by (simp add: pending_def plain_def)

lemma pending_buffer_front [simp]: "pending rest (buffer_front bs s) = bs @ pending rest s"
  by (auto simp: pending_def buffer_front_def)

lemma inner_buffer_front [simp]: "inner (buffer_front bs s) = inner s"
  by (simp add: buffer_front_def)

context byte_source
begin

lemma poll_read_data:
  assumes "0 < n" "pending rest s \<noteq> []"
  shows "\<exists>s' b bs. poll_read pull n s = (s', Inr (b # bs)) \<and> pending rest s = (b # bs) @ pending rest s'
    \<and> length (b # bs) \<le> n"
proof (cases "buffered_offset s < length (buffered s)")
  case True
  let ?r = "drop (buffered_offset s) (buffered s)" and ?k = "min (length (buffered s) - buffered_offset s) n"
  have k: "0 < ?k" using True assms(1) by simp
  with True have "length (take ?k ?r) \<noteq> 0" by simp
  then obtain b bs where bs: "take ?k ?r = b # bs" by (cases "take ?k ?r") simp_all
  have "length (b # bs) \<le> n" unfolding bs [symmetric] by simp
  moreover have "?r = (b # bs) @ drop (buffered_offset s + ?k) (buffered s)"
    unfolding bs [symmetric] by (metis append_take_drop_id drop_drop add.commute)
  moreover obtain s' where "poll_read pull n s = (s', Inr (b # bs))"
    "pending rest s' = drop (buffered_offset s + ?k) (buffered s) @ rest (inner s)"
    using True bs by (auto simp: poll_read_def pending_def Let_def)
  ultimately show ?thesis by (metis append.assoc pending_def)
next
  case False
  with assms have "rest (inner s) \<noteq> []" by (simp add: pending_def)
  from pull_data [OF assms(1) this] False show ?thesis by (fastforce simp: poll_read_def pending_def)
qed

lemma poll_read_end:
  assumes "0 < n" "pending rest s = []"
  shows "\<exists>s'. pending rest s' = [] \<and> (poll_read pull n s = (s', Inr []) \<or> (\<exists>e. poll_read pull n s = (s', Inl e)))"
proof -
  have "\<not> buffered_offset s < length (buffered s)" "rest (inner s) = []" using assms(2) by (auto simp: pending_def)
  with pull_end [OF assms(1), of "inner s"] show ?thesis by (fastforce simp: poll_read_def pending_def)
qed

end

text \<open>The buffered stream over a transport keeps the promise of the transport.\<close>

locale transport = byte_source

sublocale transport \<subseteq> stream: byte_source "poll_read pull" "pending rest"
  using poll_read_data poll_read_end by unfold_locales blast+

section \<open>A scripted transport\<close>

text \<open>A connection whose peer sends the given chunks and then falls silent, or closes, with a
  record of what was written to it.\<close>

record wire =
  chunks :: "byte list list"
  silent :: bool
  sent :: "byte list"

definition wire_rest :: "wire \<Rightarrow> byte list" where
  "wire_rest w = concat (chunks w)"

definition wire_pull :: "wire source" where
  "wire_pull n w =
     (case dropWhile (\<lambda>c. c = []) (chunks w) of
        [] \<Rightarrow> (w\<lparr>chunks := []\<rparr>, if silent w then Inl Elapsed else Inr [])
      | c # cs \<Rightarrow> (w\<lparr>chunks := drop n c # cs\<rparr>, Inr (take n c)))"

definition wire_push :: "wire sink" where
  "wire_push bs w = (w\<lparr>sent := sent w @ bs\<rparr>, None)"

lemma concat_dropWhile_Nil [simp]: "concat (dropWhile (\<lambda>c. c = []) cs) = concat cs"
  by (induction cs) auto

interpretation wire: transport wire_pull wire_rest
proof unfold_locales
  fix n :: nat and w :: wire
  assume "0 < n" "wire_rest w \<noteq> []"
  show "\<exists>w' b bs. wire_pull n w = (w', Inr (b # bs)) \<and> wire_rest w = (b # bs) @ wire_rest w' \<and> length (b # bs) \<le> n"
  proof (cases "dropWhile (\<lambda>c. c = []) (chunks w)")
    case Nil
    then have "wire_rest w = []" by (metis concat.simps(1) concat_dropWhile_Nil wire_rest_def)
    with \<open>wire_rest w \<noteq> []\<close> show ?thesis by simp
  next
    case (Cons c cs)
    moreover from this have "c \<noteq> []" using hd_dropWhile [of "\<lambda>c. c = []" "chunks w"] by simp
    moreover have "wire_rest w = c @ concat cs" unfolding wire_rest_def by (metis Cons concat.simps(2) concat_dropWhile_Nil)
    ultimately show ?thesis using \<open>0 < n\<close>
      by (cases c) (auto simp: wire_pull_def wire_rest_def Cons take_Cons' drop_Cons')
  qed
next
  fix n :: nat and w :: wire
  assume "wire_rest w = []"
  then have "dropWhile (\<lambda>c. c = []) (chunks w) = []" by (simp add: wire_rest_def)
  then have "wire_pull n w = (w\<lparr>chunks := []\<rparr>, if silent w then Inl Elapsed else Inr [])"
    unfolding wire_pull_def by (simp only: list.case)
  then show "\<exists>w'. wire_rest w' = [] \<and> (wire_pull n w = (w', Inr []) \<or> (\<exists>e. wire_pull n w = (w', Inl e)))"
    by (auto simp: wire_rest_def)
qed

end
