(* ===== verification/Rawsocket_Frames.thy ===== *)
theory Rawsocket_Frames
  imports Io_Stream
begin

text \<open>
  RawSocket frames (\<^verbatim>\<open>ct_core/src/lib.rs\<close>): the encoder of the frame header, the reader of
  one frame from a byte stream, and their agreement. A connection that negotiated an exponent
  above 24 uses five header bytes, a classic one four, where the length of exactly 16 MiB has
  its own bit. Payloads are byte lists; error texts are kept without the numbers that the
  source formats into them.
\<close>

unbundle bit_operations_syntax

section \<open>The header\<close>

datatype frame_read_error = Frame_Io stream_error | Frame_Protocol label

datatype inbound_frame = In_Message "byte list" | In_Ping "byte list" | In_Pong "byte list"

definition MAX_FRAME_LEN :: nat where "MAX_FRAME_LEN = 2 ^ 24"
definition u32_max :: nat where "u32_max = 2 ^ 32 - 1"

record encoded_frame_header =
  header_bytes :: "byte list"
  header_len :: nat

definition as_bytes :: "encoded_frame_header \<Rightarrow> byte list" where
  "as_bytes h = take (header_len h) (header_bytes h)"

text \<open>\<open>u32::to_be_bytes\<close> is \<open>be_bytes 4\<close>.\<close>

definition encode_frame_header :: "byte \<Rightarrow> nat \<Rightarrow> bool \<Rightarrow> frame_read_error + encoded_frame_header" where
  "encode_frame_header frame_type payload_len upgraded_protocol =
     (if frame_type > 7 then Inl (Frame_Protocol ''invalid frame type'')
      else if upgraded_protocol then
        if payload_len > u32_max then Inl (Frame_Protocol ''payload length exceeds supported maximum'')
        else Inr \<lparr>header_bytes = (frame_type AND 7) # be_bytes 4 payload_len, header_len = 5\<rparr>
      else if payload_len > MAX_FRAME_LEN then Inl (Frame_Protocol ''payload length exceeds supported maximum'')
      else let first = frame_type AND 7 in
        if payload_len = MAX_FRAME_LEN then Inr \<lparr>header_bytes = [first OR 8, 0, 0, 0, 0], header_len = 4\<rparr>
        else Inr \<lparr>header_bytes =
            [first, of_nat (drop_bit 16 payload_len AND 255), of_nat (drop_bit 8 payload_len AND 255),
             of_nat (payload_len AND 255), 0], header_len = 4\<rparr>)"

text \<open>The two ways of decoding the header: the type of the frame and its length.\<close>

definition upgraded_header :: "byte list \<Rightarrow> frame_read_error + byte \<times> nat" where
  "upgraded_header h =
     (if (h ! 0) AND NOT 7 \<noteq> 0 then Inl (Frame_Protocol ''reserved bits must be zero'')
      else Inr ((h ! 0) AND 7, unat (u32_from_be_bytes (h ! 1) (h ! 2) (h ! 3) (h ! 4))))"

definition classic_header :: "byte list \<Rightarrow> frame_read_error + byte \<times> nat" where
  "classic_header h =
     (if drop_bit 4 (h ! 0) \<noteq> 0 then Inl (Frame_Protocol ''reserved bits must be zero'')
      else let length_hi = drop_bit 3 (h ! 0) AND 1;
               frame_type = (h ! 0) AND 7;
               len = (push_bit 16 (ucast (h ! 1)) OR push_bit 8 (ucast (h ! 2)) OR ucast (h ! 3) :: u32)
           in if length_hi = 1 then
                if len \<noteq> 0 then Inl (Frame_Protocol ''extended length bit set with non-zero length bytes'')
                else Inr (frame_type, unat (push_bit 24 (1 :: u32)))
              else Inr (frame_type, unat len))"

definition classify_frame :: "byte \<Rightarrow> byte list \<Rightarrow> frame_read_error + inbound_frame" where
  "classify_frame frame_type payload =
     (if frame_type = 0 then Inr (In_Message payload)
      else if frame_type = 1 then Inr (In_Ping payload)
      else if frame_type = 2 then Inr (In_Pong payload)
      else Inl (Frame_Protocol ''unsupported frame type''))"

section \<open>Reading a frame\<close>

definition read_exact_frame_payload :: "'s source \<Rightarrow> nat \<Rightarrow> 's \<Rightarrow> 's \<times> (stream_error + byte list)" where
  "read_exact_frame_payload pull len s = read_exact pull len s"

definition read_inbound_frame ::
  "'s source \<Rightarrow> nat \<Rightarrow> bool \<Rightarrow> 's \<Rightarrow> 's \<times> (frame_read_error + inbound_frame)" where
  "read_inbound_frame pull max_payload upgraded_protocol s =
     (case read_exact pull (if upgraded_protocol then 5 else 4) s of
        (s', Inl e) \<Rightarrow> (s', Inl (Frame_Io e))
      | (s', Inr header) \<Rightarrow>
          (case (if upgraded_protocol then upgraded_header header else classic_header header) of
             Inl e \<Rightarrow> (s', Inl e)
           | Inr (frame_type, len) \<Rightarrow>
               if len > max_payload then (s', Inl (Frame_Protocol ''frame length exceeds negotiated maximum''))
               else if \<not> upgraded_protocol \<and> len > MAX_FRAME_LEN
                 then (s', Inl (Frame_Protocol ''frame length exceeds supported maximum''))
               else case read_exact_frame_payload pull len s' of
                   (s'', Inl e) \<Rightarrow> (s'', Inl (Frame_Io e))
                 | (s'', Inr payload) \<Rightarrow> (s'', classify_frame frame_type payload)))"

section \<open>The header codec\<close>

lemma byte_le_7_cases:
  assumes "(b :: byte) \<le> 7"
  shows "b = 0 \<or> b = 1 \<or> b = 2 \<or> b = 3 \<or> b = 4 \<or> b = 5 \<or> b = 6 \<or> b = 7"
proof -
  have "unat b \<le> 7" using assms by (simp add: word_le_nat_alt)
  then have "unat b = 0 \<or> unat b = 1 \<or> unat b = 2 \<or> unat b = 3 \<or> unat b = 4 \<or> unat b = 5 \<or> unat b = 6 \<or> unat b = 7"
    by linarith
  then show ?thesis by (auto simp: word_unat_eq_iff)
qed

lemma be_bytes_3:
  "be_bytes 3 n = [of_nat (n div 65536 mod 256), of_nat (n div 256 mod 256), of_nat (n mod 256)]"
proof -
  have k: "(3 :: nat) = Suc (Suc (Suc 0))" by simp
  show ?thesis unfolding k be_bytes.simps by (simp add: div_mult2_eq [symmetric])
qed

lemma and_255_mod: "m AND 255 = m mod 256" for m :: nat
  using take_bit_eq_mask [of 8 m] by (simp add: take_bit_eq_mod mask_eq_exp_minus_1)

lemma length_bytes_as_be_bytes:
  "[of_nat (drop_bit 16 n AND 255), of_nat (drop_bit 8 n AND 255), of_nat (n AND 255) :: byte] = be_bytes 3 n"
  by (simp add: be_bytes_3 drop_bit_eq_div and_255_mod)

lemma bit_byte_lt: "bit (b :: byte) k \<Longrightarrow> k < 8"
  by (rule bit_imp_le_length [of b, simplified])

lemma shifted_bytes_sum:
  fixes a b c :: byte
  shows "unat (push_bit 16 (ucast a) OR push_bit 8 (ucast b) OR ucast c :: u32) =
    unat a * 65536 + unat b * 256 + unat c"
proof -
  have 1: "push_bit 16 (ucast a) AND (push_bit 8 (ucast b) OR ucast c) = (0 :: u32)"
    by (rule bit_eqI) (auto simp: bit_simps dest: bit_byte_lt)
  have 2: "push_bit 8 (ucast b) AND ucast c = (0 :: u32)"
    by (rule bit_eqI) (auto simp: bit_simps dest: bit_byte_lt)
  have "push_bit 16 (ucast a) OR push_bit 8 (ucast b) OR ucast c =
      push_bit 16 (ucast a) + (push_bit 8 (ucast b) + ucast c :: u32)"
    using disjunctive_add_eq_or [OF 1] disjunctive_add_eq_or [OF 2] by simp
  then have sum: "push_bit 16 (ucast a) OR push_bit 8 (ucast b) OR ucast c =
      (of_nat (unat a * 65536 + unat b * 256 + unat c) :: u32)"
    by (simp add: push_bit_eq_mult algebra_simps)
  have "unat a * 65536 + unat b * 256 + unat c < 4294967296"
    using unat_byte_le [of a] unat_byte_le [of b] unat_byte_le [of c] by linarith
  then show ?thesis unfolding sum unat_of_nat by simp
qed

lemma classic_header_encoded:
  assumes t: "t \<le> 7" and n: "n \<le> MAX_FRAME_LEN"
  shows "\<exists>h. encode_frame_header t n False = Inr h \<and> length (as_bytes h) = 4 \<and> classic_header (as_bytes h) = Inr (t, n)"
proof (cases "n = MAX_FRAME_LEN")
  case True
  then show ?thesis using byte_le_7_cases [OF t]
    by (auto simp: encode_frame_header_def classic_header_def as_bytes_def MAX_FRAME_LEN_def)
next
  case False
  then have "n < 16777216" using n by (simp add: MAX_FRAME_LEN_def)
  have "n div 65536 = n div 256 div 256" by (simp add: div_mult2_eq [symmetric])
  then have "n div 65536 * 65536 + n div 256 mod 256 * 256 + n mod 256 = n"
    using div_mult_mod_eq [of n 256] div_mult_mod_eq [of "n div 256" 256] by linarith
  moreover have "n div 65536 < 256" using \<open>n < 16777216\<close> by simp
  moreover have "drop_bit 4 t = 0" "drop_bit 3 t AND 1 = 0" "t AND 7 = t"
    using byte_le_7_cases [OF t] by auto
  moreover have "encode_frame_header t n False = Inr \<lparr>header_bytes = t # be_bytes 3 n @ [0], header_len = 4\<rparr>"
    unfolding length_bytes_as_be_bytes [symmetric] using False t n \<open>t AND 7 = t\<close>
    by (simp add: encode_frame_header_def Let_def)
  ultimately show ?thesis
    by (simp add: as_bytes_def classic_header_def be_bytes_3 shifted_bytes_sum Let_def)
qed

lemma upgraded_header_encoded:
  assumes t: "t \<le> 7" and n: "n \<le> u32_max"
  shows "\<exists>h. encode_frame_header t n True = Inr h \<and> length (as_bytes h) = 5 \<and> upgraded_header (as_bytes h) = Inr (t, n)"
proof -
  have "t AND 7 = t" "t AND NOT 7 = 0" using byte_le_7_cases [OF t] by auto
  moreover obtain a b c d where be: "be_bytes 4 n = [a, b, c, d]"
    by (simp add: be_bytes_4)
  moreover have "unat (u32_from_be_bytes a b c d) = n"
    using be_bytes_u32 [of n a b c d] n be by (simp add: u32_max_def)
  ultimately show ?thesis using t n
    by (simp add: encode_frame_header_def as_bytes_def upgraded_header_def)
qed

text \<open>The largest payload that a header can announce.\<close>

definition frame_limit :: "bool \<Rightarrow> nat" where
  "frame_limit upgraded = (if upgraded then u32_max else MAX_FRAME_LEN)"

lemma header_encoded:
  assumes "t \<le> 7" and "n \<le> frame_limit up"
  shows "\<exists>h. encode_frame_header t n up = Inr h \<and> length (as_bytes h) = (if up then 5 else 4)
    \<and> (if up then upgraded_header (as_bytes h) else classic_header (as_bytes h)) = Inr (t, n)"
  using upgraded_header_encoded [OF assms(1)] classic_header_encoded [OF assms(1)] assms(2)
  by (cases up) (auto simp: frame_limit_def)

lemma encode_frame_header_ok_iff:
  "(\<exists>h. encode_frame_header t n up = Inr h) \<longleftrightarrow> t \<le> 7 \<and> n \<le> frame_limit up"
  by (auto simp: encode_frame_header_def frame_limit_def Let_def)

section \<open>Frames on a stream\<close>

context byte_source
begin

lemma read_inbound_frame_encoded:
  assumes h: "encode_frame_header t (length payload) up = Inr h"
    and limit: "length payload \<le> max_payload"
    and rest: "rest s = as_bytes h @ payload @ tail"
  shows "\<exists>s'. read_inbound_frame pull max_payload up s = (s', classify_frame t payload) \<and> rest s' = tail"
proof -
  have t: "t \<le> 7" "length payload \<le> frame_limit up" using h encode_frame_header_ok_iff [of t "length payload" up] by auto
  from header_encoded [OF this] h have len: "length (as_bytes h) = (if up then 5 else 4)"
    and dec: "(if up then upgraded_header (as_bytes h) else classic_header (as_bytes h)) = Inr (t, length payload)"
    by auto
  obtain s1 where s1: "read_exact pull (length (as_bytes h)) s = (s1, Inr (as_bytes h))" "rest s1 = payload @ tail"
    using read_exact_enough [of "length (as_bytes h)" s] rest by auto
  obtain s2 where s2: "read_exact pull (length payload) s1 = (s2, Inr payload)" "rest s2 = tail"
    using read_exact_enough [of "length payload" s1] s1(2) by auto
  show ?thesis
    using s1(1) s2 dec limit t(2)
    unfolding read_inbound_frame_def read_exact_frame_payload_def len [symmetric]
    by (auto simp: frame_limit_def)
qed

end

end
