(* ===== verification/Outbound_Frames.thy ===== *)
theory Outbound_Frames
  imports Rawsocket_Frames
begin

text \<open>
  Outbound frames and the writer task of a RawSocket connection (\<^verbatim>\<open>ct_core/src/lib.rs\<close>,
  \<^verbatim>\<open>rawsocket.rs\<close>, \<^verbatim>\<open>write_completion.rs\<close>). A frame is a list of segments with, optionally, a
  segment that is prepared late and a range of a file; the writer sends one frame after the
  other and settles the completion of each. The transport is a parameter: \<open>push\<close> is
  \<open>write_all\<close>, \<open>flush\<close> is \<open>flush\<close>; both report an error or not. System calls that are
  interrupted or would block are repeated with the same arguments, so only their final
  answer is visible here.
\<close>

section \<open>Completions and errors\<close>

datatype write_outcome = Pending | Written | Abandoned

datatype core_error = Runtime_Not_Started | Runtime_Already_Started | Unsupported_Platform | Invalid_Backlog
  | Listener_Not_Found u32 | Accept_Channel_Already_Taken u32 | Address_Resolution rstr u16
  | Endpoint_Not_Configured rstr u16 | Router_Config_Invalid rstr | Connection_Not_Found u32
  | Unsupported_Protocol u32 | Handshake_Already_Taken u32 | Connection_Handle_Unavailable u32
  | Http3_Response_Send u32 | Io_Error | Send_Queue_Full u32 | Invalid_Runtime_Thread_Count rstr
  | Invalid_File_Segment label | Invalid_Deferred_Segment label

section \<open>Frames\<close>

datatype file_segment_encoding = Identity | Base64

text \<open>\<open>checked_add\<close> and \<open>checked_mul\<close> on \<open>usize\<close>.\<close>

definition checked_add :: "nat \<Rightarrow> nat \<Rightarrow> nat option" where
  "checked_add a b = (if a + b \<le> usize_max then Some (a + b) else None)"

definition checked_mul :: "nat \<Rightarrow> nat \<Rightarrow> nat option" where
  "checked_mul a b = (if a * b \<le> usize_max then Some (a * b) else None)"

definition wire_len :: "file_segment_encoding \<Rightarrow> nat \<Rightarrow> nat option" where
  "wire_len enc source_len =
     (case enc of
        Identity \<Rightarrow> Some source_len
      | Base64 \<Rightarrow> Option.bind (map_option (\<lambda>v. v div 3) (checked_add source_len 2)) (\<lambda>groups. checked_mul groups 4))"

text \<open>A file is its bytes; a prepared segment is what its closure will answer.\<close>

record outbound_file_segment =
  content :: "byte list"
  offset :: nat
  source_len :: nat
  encoding :: file_segment_encoding

datatype prepared = Prepared "byte list" | Preparation_Failed label | Preparation_Panicked

record outbound_frame =
  frame_type :: byte
  payload_len :: nat
  segments :: "byte list list"
  deferred_segment :: "prepared option"
  file_segment :: "outbound_file_segment option"
  suffix_segments :: "byte list list"
  completion :: "nat option"

definition total_len :: "byte list list \<Rightarrow> nat" where
  "total_len ss = sum_list (map length ss)"

definition tracked :: "nat \<Rightarrow> outbound_frame \<Rightarrow> outbound_frame" where
  "tracked guard f = f\<lparr>completion := Some guard\<rparr>"

definition control :: "byte \<Rightarrow> byte list \<Rightarrow> outbound_frame" where
  "control t payload =
     \<lparr>frame_type = t, payload_len = length payload, segments = [payload], deferred_segment = None,
      file_segment = None, suffix_segments = [], completion = None\<rparr>"

definition barrier :: outbound_frame where
  "barrier = control 0xff []"

definition message :: "byte list \<Rightarrow> outbound_frame" where
  "message payload =
     \<lparr>frame_type = 0, payload_len = length payload, segments = [payload], deferred_segment = None,
      file_segment = None, suffix_segments = [], completion = None\<rparr>"

definition message_segments :: "byte list list \<Rightarrow> outbound_frame" where
  "message_segments ss =
     \<lparr>frame_type = 0, payload_len = total_len ss, segments = ss, deferred_segment = None,
      file_segment = None, suffix_segments = [], completion = None\<rparr>"

definition message_deferred_segment_with_suffix ::
  "byte list \<Rightarrow> nat \<Rightarrow> byte list \<Rightarrow> prepared \<Rightarrow> core_error + outbound_frame" where
  "message_deferred_segment_with_suffix prefix deferred_len suffix prepare =
     (case Option.bind (checked_add (length prefix) deferred_len) (\<lambda>v. checked_add v (length suffix)) of
        None \<Rightarrow> Inl (Invalid_Deferred_Segment ''payload length overflow'')
      | Some n \<Rightarrow> Inr \<lparr>frame_type = 0, payload_len = n, segments = [prefix], deferred_segment = Some prepare,
          file_segment = None, suffix_segments = (if suffix = [] then [] else [suffix]), completion = None\<rparr>)"

definition message_deferred_segment :: "byte list \<Rightarrow> nat \<Rightarrow> prepared \<Rightarrow> core_error + outbound_frame" where
  "message_deferred_segment prefix deferred_len prepare =
     message_deferred_segment_with_suffix prefix deferred_len [] prepare"

definition message_file_segment ::
  "byte list \<Rightarrow> byte list \<Rightarrow> nat \<Rightarrow> nat \<Rightarrow> byte list \<Rightarrow> file_segment_encoding \<Rightarrow> core_error + outbound_frame" where
  "message_file_segment prefix f off len suffix enc =
     (case wire_len enc len of
        None \<Rightarrow> Inl (Invalid_File_Segment ''encoded file length overflow'')
      | Some wl \<Rightarrow>
          (case Option.bind (checked_add (length prefix) wl) (\<lambda>v. checked_add v (length suffix)) of
             None \<Rightarrow> Inl (Invalid_File_Segment ''payload length overflow'')
           | Some n \<Rightarrow> Inr \<lparr>frame_type = 0, payload_len = n, segments = [prefix], deferred_segment = None,
               file_segment = Some \<lparr>content = f, offset = off, source_len = len, encoding = enc\<rparr>,
               suffix_segments = [suffix], completion = None\<rparr>))"

text \<open>The lengths are added with \<open>try_fold\<close> over \<open>checked_add\<close>.\<close>

primrec add_lengths :: "nat \<Rightarrow> byte list list \<Rightarrow> nat option" where
  "add_lengths acc [] = Some acc"
| "add_lengths acc (p # ps) = Option.bind (checked_add acc (length p)) (\<lambda>v. add_lengths v ps)"

definition resolve_deferred_segment :: "outbound_frame \<Rightarrow> label + outbound_frame" where
  "resolve_deferred_segment f =
     (case deferred_segment f of
        None \<Rightarrow> Inr f
      | Some Preparation_Panicked \<Rightarrow> Inl ''preparation task failed''
      | Some (Preparation_Failed e) \<Rightarrow> Inl e
      | Some (Prepared segment) \<Rightarrow>
          let start = (case Option.bind (file_segment f) (\<lambda>fs. wire_len (encoding fs) (source_len fs)) of
                         None \<Rightarrow> 0 | Some n \<Rightarrow> n)
          in (case add_lengths start (segments f @ [segment] @ suffix_segments f) of
                None \<Rightarrow> Inl ''prepared payload length overflow''
              | Some actual_len \<Rightarrow>
                  if actual_len \<noteq> payload_len f then Inl ''prepared payload length did not match''
                  else Inr (f\<lparr>deferred_segment := None, segments := segments f @ [segment]\<rparr>)))"

section \<open>Writing the range of a file\<close>

definition i64_limit :: nat where "i64_limit = 2 ^ 63 - 1"
definition u64_max :: nat where "u64_max = 2 ^ 64 - 1"
definition MAX_SENDFILE_COUNT :: nat where "MAX_SENDFILE_COUNT = 0x7ffff000"
definition FILE_SEGMENT_BUFFER_SIZE :: nat where "FILE_SEGMENT_BUFFER_SIZE = 4 * 1024 * 1024"
definition BASE64_FILE_SEGMENT_INPUT_SIZE :: nat where
  "BASE64_FILE_SEGMENT_INPUT_SIZE = FILE_SEGMENT_BUFFER_SIZE - FILE_SEGMENT_BUFFER_SIZE mod 3"

text \<open>\<open>read_at\<close> of the file gives at most \<open>n\<close> of the bytes at an offset; the offset is the
  state of the loop, which is that of \<open>fill\<close>.\<close>

definition file_read_at :: "byte list \<Rightarrow> nat source" where
  "file_read_at fbytes n off =
     (let bs = take n (drop off fbytes) in
      if off + length bs > u64_max then (off, Inl Broken) else (off + length bs, Inr bs))"

definition read_file_exact_at :: "byte list \<Rightarrow> nat \<Rightarrow> nat \<Rightarrow> stream_error + byte list" where
  "read_file_exact_at fbytes off n = snd (read_exact (file_read_at fbytes) n off)"

text \<open>\<open>encode\<close> is the base64 engine.\<close>

function file_chunks ::
  "(byte list \<Rightarrow> byte list) \<Rightarrow> 's sink \<Rightarrow> byte list \<Rightarrow> file_segment_encoding \<Rightarrow> nat \<Rightarrow> nat \<Rightarrow> 's \<Rightarrow> 's \<times> stream_error option" where
  "file_chunks encode push fbytes enc off remaining s =
     (if remaining = 0 then (s, None)
      else let chunk_len = (case enc of Identity \<Rightarrow> min remaining FILE_SEGMENT_BUFFER_SIZE
                                      | Base64 \<Rightarrow> min remaining BASE64_FILE_SEGMENT_INPUT_SIZE)
           in case read_file_exact_at fbytes off chunk_len of
                Inl e \<Rightarrow> (s, Some e)
              | Inr bs \<Rightarrow>
                  (case push (case enc of Identity \<Rightarrow> bs | Base64 \<Rightarrow> encode bs) s of
                     (s', Some e) \<Rightarrow> (s', Some e)
                   | (s', None) \<Rightarrow>
                       if off + chunk_len > u64_max then (s', Some Broken)
                       else file_chunks encode push fbytes enc (off + chunk_len) (remaining - chunk_len) s'))"
  by pat_completeness auto
termination
  by (relation "measure (\<lambda>(_, _, _, _, _, remaining, _). remaining)")
     (auto simp: FILE_SEGMENT_BUFFER_SIZE_def BASE64_FILE_SEGMENT_INPUT_SIZE_def split: file_segment_encoding.splits)

declare file_chunks.simps [simp del]

definition write_file_segment_buffered ::
  "(byte list \<Rightarrow> byte list) \<Rightarrow> 's sink \<Rightarrow> outbound_file_segment \<Rightarrow> 's \<Rightarrow> 's \<times> stream_error option" where
  "write_file_segment_buffered encode push fs s =
     file_chunks encode push (content fs) (encoding fs) (offset fs) (source_len fs) s"

text \<open>\<open>sendfile\<close> is the system call: it moves at most \<open>count\<close> bytes of the file from an offset
  to the socket and answers how many.\<close>

function send_file_segment ::
  "(nat \<Rightarrow> nat \<Rightarrow> 's \<Rightarrow> 's \<times> (stream_error + nat)) \<Rightarrow> nat \<Rightarrow> nat \<Rightarrow> 's \<Rightarrow> 's \<times> stream_error option" where
  "send_file_segment sendfile off remaining s =
     (if remaining = 0 then (s, None)
      else if off > i64_limit then (s, Some Broken)
      else case sendfile off (min remaining MAX_SENDFILE_COUNT) s of
          (s', Inl e) \<Rightarrow> (s', Some e)
        | (s', Inr 0) \<Rightarrow> (s', Some Unexpected_Eof)
        | (s', Inr (Suc n)) \<Rightarrow> send_file_segment sendfile (off + Suc n) (remaining - Suc n) s')"
  by pat_completeness auto
termination by (relation "measure (\<lambda>(_, _, remaining, _). remaining)") auto

declare send_file_segment.simps [simp del]

section \<open>The writer task\<close>

primrec write_segments :: "'s sink \<Rightarrow> byte list list \<Rightarrow> 's \<Rightarrow> 's \<times> stream_error option" where
  "write_segments push [] s = (s, None)"
| "write_segments push (p # ps) s =
     (if p = [] then write_segments push ps s
      else case push p s of
          (s', Some e) \<Rightarrow> (s', Some e)
        | (s', None) \<Rightarrow> write_segments push ps s')"

text \<open>\<open>zero_copy\<close> is the file sender of the connection if it has one.\<close>

definition write_file_part ::
  "(byte list \<Rightarrow> byte list) \<Rightarrow> 's sink \<Rightarrow> (byte list \<Rightarrow> nat \<Rightarrow> nat \<Rightarrow> 's \<Rightarrow> 's \<times> (stream_error + nat)) option \<Rightarrow>
   outbound_file_segment option \<Rightarrow> 's \<Rightarrow> 's \<times> stream_error option" where
  "write_file_part encode push zero_copy part s =
     (case part of
        None \<Rightarrow> (s, None)
      | Some fs \<Rightarrow>
          (case (encoding fs, zero_copy) of
             (Identity, Some sendfile) \<Rightarrow> send_file_segment (sendfile (content fs)) (offset fs) (source_len fs) s
           | _ \<Rightarrow> write_file_segment_buffered encode push fs s))"

datatype writer_step = Flushed | Skipped | Stopped

definition chain :: "('s \<Rightarrow> 's \<times> stream_error option) \<Rightarrow> ('s \<Rightarrow> 's \<times> stream_error option) \<Rightarrow> 's \<Rightarrow> 's \<times> stream_error option" where
  "chain f g s = (case f s of (s', Some e) \<Rightarrow> (s', Some e) | (s', None) \<Rightarrow> g s')"

definition write_rawsocket_frame ::
  "(byte list \<Rightarrow> byte list) \<Rightarrow> 's sink \<Rightarrow> ('s \<Rightarrow> 's \<times> stream_error option) \<Rightarrow>
   (byte list \<Rightarrow> nat \<Rightarrow> nat \<Rightarrow> 's \<Rightarrow> 's \<times> (stream_error + nat)) option \<Rightarrow> bool \<Rightarrow> outbound_frame \<Rightarrow> 's \<Rightarrow> 's \<times> writer_step" where
  "write_rawsocket_frame encode push flush zero_copy upgraded f s =
     (if frame_type f = 0xff then
        (case flush s of (s', Some e) \<Rightarrow> (s', Stopped) | (s', None) \<Rightarrow> (s', Flushed))
      else if frame_type f > 2 then (s, Skipped)
      else case encode_frame_header (frame_type f) (payload_len f) upgraded of
          Inl e \<Rightarrow> (s, Skipped)
        | Inr h \<Rightarrow>
            (case chain (push (as_bytes h)) (chain (write_segments push (segments f))
                    (chain (write_file_part encode push zero_copy (file_segment f))
                      (chain (write_segments push (suffix_segments f)) flush))) s of
               (s', Some e) \<Rightarrow> (s', Stopped)
             | (s', None) \<Rightarrow> (s', Flushed)))"

text \<open>The task takes frames from its queue until it stops; a frame that is dropped, in the
  queue or on the way, abandons its completion. One outcome per frame.\<close>

fun connection_writer ::
  "(byte list \<Rightarrow> byte list) \<Rightarrow> 's sink \<Rightarrow> ('s \<Rightarrow> 's \<times> stream_error option) \<Rightarrow>
   (byte list \<Rightarrow> nat \<Rightarrow> nat \<Rightarrow> 's \<Rightarrow> 's \<times> (stream_error + nat)) option \<Rightarrow> nat \<Rightarrow> outbound_frame list \<Rightarrow> 's \<Rightarrow> 's \<times> write_outcome list" where
  "connection_writer encode push flush zero_copy exponent [] s = (s, [])"
| "connection_writer encode push flush zero_copy exponent (f # fs) s =
     (case resolve_deferred_segment f of
        Inl e \<Rightarrow> (s, replicate (length (f # fs)) Abandoned)
      | Inr f' \<Rightarrow>
          (case write_rawsocket_frame encode push flush zero_copy (exponent > 24) f' s of
             (s', Stopped) \<Rightarrow> (s', replicate (length (f # fs)) Abandoned)
           | (s', Skipped) \<Rightarrow>
               (case connection_writer encode push flush zero_copy exponent fs s' of (s'', os) \<Rightarrow> (s'', Abandoned # os))
           | (s', Flushed) \<Rightarrow>
               (case connection_writer encode push flush zero_copy exponent fs s' of (s'', os) \<Rightarrow> (s'', Written # os))))"

section \<open>What the transport and the base64 engine promise\<close>

text \<open>\<open>out s\<close> are the bytes the transport has accepted. A successful write accepts all of its
  bytes, a failed one accepts some; \<open>sendfile\<close> accepts bytes of the file.\<close>

locale byte_sink =
  fixes push :: "'s sink" and flush :: "'s \<Rightarrow> 's \<times> stream_error option"
    and zero_copy :: "(byte list \<Rightarrow> nat \<Rightarrow> nat \<Rightarrow> 's \<Rightarrow> 's \<times> (stream_error + nat)) option"
    and encode :: "byte list \<Rightarrow> byte list" and out :: "'s \<Rightarrow> byte list"
  assumes push_ok: "push bs s = (s', None) \<Longrightarrow> out s' = out s @ bs"
    and push_failed: "push bs s = (s', Some e) \<Longrightarrow> \<exists>junk. out s' = out s @ junk"
    and flush_out: "flush s = (s', r) \<Longrightarrow> out s' = out s"
    and sendfile_sent: "zero_copy = Some sendfile \<Longrightarrow> sendfile fbytes off n s = (s', Inr k) \<Longrightarrow>
      k \<le> n \<and> k \<le> length (drop off fbytes) \<and> out s' = out s @ take k (drop off fbytes)"
    and sendfile_failed: "zero_copy = Some sendfile \<Longrightarrow> sendfile fbytes off n s = (s', Inl e) \<Longrightarrow> out s' = out s"
    and encode_append: "3 dvd length a \<Longrightarrow> encode (a @ b) = encode a @ encode b"
    and encode_Nil: "encode [] = []"

lemma length_concat_total: "length (concat ss) = total_len ss"
  by (simp add: total_len_def length_concat)

lemma fill_file:
  "fill (file_read_at fbytes) n off = (off', bs, None) \<Longrightarrow> bs = take n (drop off fbytes) \<and> length bs = n"
proof (induction "file_read_at fbytes" n off arbitrary: off' bs rule: fill.induct)
  case (1 n off)
  show ?case
  proof (cases "n = 0")
    case True
    with 1(2) show ?thesis by (simp add: fill.simps)
  next
    case False
    let ?bs = "take n (drop off fbytes)"
    show ?thesis
    proof (cases ?bs)
      case Nil
      with False 1(2) show ?thesis by (subst (asm) fill.simps) (auto simp: file_read_at_def split: if_splits)
    next
      case (Cons b cs)
      then have fits: "\<not> off + length ?bs > u64_max"
        using 1(2) False by (subst (asm) fill.simps) (auto simp: file_read_at_def Let_def split: if_splits)
      then have pull: "file_read_at fbytes n off = (off + length (b # cs), Inr (b # cs))"
        using Cons by (simp add: file_read_at_def)
      obtain acc where acc: "fill (file_read_at fbytes) (n - length (b # cs)) (off + length (b # cs)) = (off', acc, None)"
        "bs = (b # cs) @ acc"
        using 1(2) False pull by (subst (asm) fill.simps) (auto split: prod.splits)
      have "acc = take (n - length (b # cs)) (drop (off + length (b # cs)) fbytes) \<and> length acc = n - length (b # cs)"
        by (rule 1(1) [OF False pull [symmetric] refl refl acc(1)])
      moreover have k: "length (b # cs) = min n (length fbytes - off)" unfolding Cons [symmetric] by simp
      ultimately have "acc = [] \<and> length (b # cs) = n" by (cases "length fbytes - off < n") auto
      then show ?thesis using acc(2) Cons by simp
    qed
  qed
qed

lemma read_file_exact_at_ok:
  "read_file_exact_at fbytes off n = Inr bs \<Longrightarrow> bs = take n (drop off fbytes) \<and> length bs = n"
  by (auto simp: read_file_exact_at_def read_exact_def split: prod.splits option.splits dest: fill_file)

definition encoded_range :: "(byte list \<Rightarrow> byte list) \<Rightarrow> byte list \<Rightarrow> file_segment_encoding \<Rightarrow> nat \<Rightarrow> nat \<Rightarrow> byte list" where
  "encoded_range encode fbytes enc off n =
     (case enc of Identity \<Rightarrow> take n (drop off fbytes) | Base64 \<Rightarrow> encode (take n (drop off fbytes)))"

context byte_sink
begin

lemma encoded_range_split:
  assumes "k \<le> n" "enc = Base64 \<longrightarrow> k = n \<or> 3 dvd k" "k \<le> length fbytes - off"
  shows "encoded_range encode fbytes enc off n =
    encoded_range encode fbytes enc off k @ encoded_range encode fbytes enc (off + k) (n - k)"
proof -
  have "take n (drop off fbytes) = take k (drop off fbytes) @ take (n - k) (drop (off + k) fbytes)"
    using take_add [of k "n - k" "drop off fbytes"] assms(1) by (simp add: add.commute)
  moreover have "length (take k (drop off fbytes)) = k" using assms(3) by simp
  ultimately show ?thesis using assms(2)
    by (cases enc) (auto simp: encoded_range_def encode_append encode_Nil)
qed

lemma file_chunks_out:
  "file_chunks encode push fbytes enc off remaining s = (s', r) \<Longrightarrow>
   (if r = None then out s' = out s @ encoded_range encode fbytes enc off remaining
    else \<exists>junk. out s' = out s @ junk)"
proof (induction remaining arbitrary: off s rule: less_induct)
  case (less remaining)
  show ?case
  proof (cases "remaining = 0")
    case True
    with less.prems show ?thesis
      by (subst (asm) file_chunks.simps) (auto simp: encoded_range_def encode_Nil split: file_segment_encoding.splits)
  next
    case False
    define k where "k = (case enc of Identity \<Rightarrow> min remaining FILE_SEGMENT_BUFFER_SIZE
      | Base64 \<Rightarrow> min remaining BASE64_FILE_SEGMENT_INPUT_SIZE)"
    have k: "0 < k" "k \<le> remaining" "enc = Base64 \<longrightarrow> k = remaining \<or> 3 dvd k"
      using False by (auto simp: k_def FILE_SEGMENT_BUFFER_SIZE_def BASE64_FILE_SEGMENT_INPUT_SIZE_def min_def
          split: file_segment_encoding.splits)
    note step = less.prems [unfolded file_chunks.simps [of _ _ _ _ _ remaining] k_def [symmetric] Let_def]
    show ?thesis
    proof (cases "read_file_exact_at fbytes off k")
      case (Inl e)
      with step False show ?thesis by auto
    next
      case (Inr bs)
      then have bs: "bs = take k (drop off fbytes)" "length bs = k" using read_file_exact_at_ok by auto
      then have avail: "k \<le> length fbytes - off" by auto
      have enc_bs: "(case enc of Identity \<Rightarrow> bs | Base64 \<Rightarrow> encode bs) = encoded_range encode fbytes enc off k"
        by (cases enc) (simp_all add: encoded_range_def bs(1))
      obtain s1 r1 where p: "push (encoded_range encode fbytes enc off k) s = (s1, r1)" by fastforce
      show ?thesis
      proof (cases "r1 = None \<and> \<not> off + k > u64_max")
        case True
        with step False Inr p have rec: "file_chunks encode push fbytes enc (off + k) (remaining - k) s1 = (s', r)"
          by (simp add: enc_bs)
        moreover have "out s1 = out s @ encoded_range encode fbytes enc off k" using p True push_ok by blast
        moreover have "remaining - k < remaining" using k False by simp
        ultimately show ?thesis
          using less.IH [OF _ rec] encoded_range_split [OF k(2,3) avail] by (auto split: if_splits)
      next
        case False
        moreover have "\<exists>junk. out s1 = out s @ junk" using p push_ok push_failed by (cases r1) blast+
        ultimately show ?thesis using step \<open>remaining \<noteq> 0\<close> Inr p by (auto simp: enc_bs split: option.splits)
      qed
    qed
  qed
qed

lemma send_file_segment_out:
  assumes "zero_copy = Some sendfile" and "send_file_segment (sendfile fbytes) off remaining s = (s', r)"
  shows "if r = None then out s' = out s @ take remaining (drop off fbytes) else \<exists>junk. out s' = out s @ junk"
  using assms(2)
proof (induction remaining arbitrary: off s rule: less_induct)
  case (less remaining)
  show ?case
  proof (cases "remaining = 0 \<or> off > i64_limit")
    case True
    with less.prems show ?thesis by (subst (asm) send_file_segment.simps) (auto split: if_splits)
  next
    case False
    obtain s1 r1 where p: "sendfile fbytes off (min remaining MAX_SENDFILE_COUNT) s = (s1, r1)" by fastforce
    note step = less.prems [unfolded send_file_segment.simps [of _ _ remaining]]
    show ?thesis
    proof (cases r1)
      case (Inl e)
      with step False p show ?thesis using sendfile_failed [OF assms(1)] by auto
    next
      case (Inr k)
      note sent = sendfile_sent [OF assms(1) p [unfolded Inr]]
      show ?thesis
      proof (cases k)
        case 0
        with step False p Inr sent show ?thesis by auto
      next
        case (Suc n)
        with step False p Inr have rec: "send_file_segment (sendfile fbytes) (off + k) (remaining - k) s1 = (s', r)" by simp
        have "take remaining (drop off fbytes) = take k (drop off fbytes) @ take (remaining - k) (drop (off + k) fbytes)"
          using take_add [of k "remaining - k" "drop off fbytes"] sent by (simp add: add.commute)
        moreover have "remaining - k < remaining" using False Suc by simp
        ultimately show ?thesis using less.IH [OF _ rec] sent by (auto split: if_splits)
      qed
    qed
  qed
qed

text \<open>\<open>writes f bs\<close>: a successful run of \<open>f\<close> appends exactly \<open>bs\<close>, a failed one something.\<close>

definition writes :: "('s \<Rightarrow> 's \<times> stream_error option) \<Rightarrow> byte list \<Rightarrow> bool" where
  "writes f bs = (\<forall>s s' r. f s = (s', r) \<longrightarrow>
     (if r = None then out s' = out s @ bs else \<exists>junk. out s' = out s @ junk))"

lemma writes_push: "writes (push bs) bs"
  using push_ok push_failed by (auto simp: writes_def)

lemma writes_flush: "writes flush []"
  using flush_out by (auto simp: writes_def)

lemma writes_chain: "writes f a \<Longrightarrow> writes g b \<Longrightarrow> writes (chain f g) (a @ b)"
  unfolding writes_def chain_def by (fastforce split: prod.splits option.splits)

lemma writes_segments: "writes (write_segments push ps) (concat ps)"
proof (induction ps)
  case (Cons p ps)
  show ?case
  proof (cases "p = []")
    case True
    then have "write_segments push (p # ps) = write_segments push ps" by (intro ext) simp
    with Cons True show ?thesis by simp
  next
    case False
    then have "write_segments push (p # ps) = chain (push p) (write_segments push ps)" by (intro ext) (simp add: chain_def)
    with writes_chain [OF writes_push Cons] show ?thesis by simp
  qed
qed (simp add: writes_def)

end

text \<open>The bytes of a frame on the wire, and whether it is one that the writer sends.\<close>

definition file_bytes :: "(byte list \<Rightarrow> byte list) \<Rightarrow> outbound_file_segment option \<Rightarrow> byte list" where
  "file_bytes encode part =
     (case part of None \<Rightarrow> [] | Some fs \<Rightarrow> encoded_range encode (content fs) (encoding fs) (offset fs) (source_len fs))"

definition frame_payload :: "(byte list \<Rightarrow> byte list) \<Rightarrow> outbound_frame \<Rightarrow> byte list" where
  "frame_payload encode f = concat (segments f) @ file_bytes encode (file_segment f) @ concat (suffix_segments f)"

definition frame_bytes :: "(byte list \<Rightarrow> byte list) \<Rightarrow> bool \<Rightarrow> outbound_frame \<Rightarrow> byte list" where
  "frame_bytes encode up f =
     (if frame_type f = 0xff then []
      else case encode_frame_header (frame_type f) (payload_len f) up of
          Inl e \<Rightarrow> []
        | Inr h \<Rightarrow> as_bytes h @ frame_payload encode f)"

definition resolved_bytes :: "(byte list \<Rightarrow> byte list) \<Rightarrow> bool \<Rightarrow> outbound_frame \<Rightarrow> byte list" where
  "resolved_bytes encode up f =
     (case resolve_deferred_segment f of Inl e \<Rightarrow> [] | Inr f' \<Rightarrow> frame_bytes encode up f')"

text \<open>The bytes of the frames that were reported as written, in order.\<close>

primrec written_bytes :: "(byte list \<Rightarrow> byte list) \<Rightarrow> bool \<Rightarrow> (outbound_frame \<times> write_outcome) list \<Rightarrow> byte list" where
  "written_bytes encode up [] = []"
| "written_bytes encode up (x # xs) =
     (if snd x = Written then resolved_bytes encode up (fst x) else []) @ written_bytes encode up xs"

lemma written_bytes_abandoned [simp]: "written_bytes encode up (zip fs (replicate n Abandoned)) = []"
proof (induction fs arbitrary: n)
  case (Cons f fs)
  then show ?case by (cases n) simp_all
qed simp

context byte_sink
begin

lemma writes_file_part: "writes (write_file_part encode push zero_copy part) (file_bytes encode part)"
proof (cases part)
  case None
  then show ?thesis by (simp add: writes_def write_file_part_def file_bytes_def)
next
  case (Some fs)
  then show ?thesis
    using file_chunks_out send_file_segment_out
    by (cases "encoding fs"; cases zero_copy)
       (force simp: writes_def write_file_part_def write_file_segment_buffered_def file_bytes_def encoded_range_def)+
qed

lemma write_rawsocket_frame_out:
  assumes "write_rawsocket_frame encode push flush zero_copy up f s = (s', step)"
  shows "case step of Flushed \<Rightarrow> out s' = out s @ frame_bytes encode up f
    | Skipped \<Rightarrow> s' = s | Stopped \<Rightarrow> \<exists>junk. out s' = out s @ junk"
proof (cases "frame_type f = 0xff \<or> frame_type f > 2")
  case True
  with assms show ?thesis
    using flush_out by (auto simp: write_rawsocket_frame_def frame_bytes_def split: if_splits prod.splits option.splits)
next
  case False
  show ?thesis
  proof (cases "encode_frame_header (frame_type f) (payload_len f) up")
    case (Inl e)
    with assms False show ?thesis by (auto simp: write_rawsocket_frame_def)
  next
    case (Inr h)
    define send where "send = chain (push (as_bytes h)) (chain (write_segments push (segments f))
        (chain (write_file_part encode push zero_copy (file_segment f))
          (chain (write_segments push (suffix_segments f)) flush)))"
    have "writes send (frame_bytes encode up f)"
      unfolding send_def using writes_chain [OF writes_push writes_chain [OF writes_segments writes_chain [OF writes_file_part
            writes_chain [OF writes_segments writes_flush]]]] False Inr
      by (simp add: frame_bytes_def frame_payload_def)
    moreover obtain s1 r where "send s = (s1, r)" by fastforce
    moreover from this assms False Inr have "s1 = s'" "step = (if r = None then Flushed else Stopped)"
      by (auto simp: write_rawsocket_frame_def send_def [symmetric] split: option.splits)
    ultimately show ?thesis by (cases r) (auto simp: writes_def)
  qed
qed

lemma connection_writer_out:
  "connection_writer encode push flush zero_copy exponent fs s = (s', os) \<Longrightarrow>
   length os = length fs \<and> set os \<subseteq> {Written, Abandoned} \<and>
   (\<exists>junk. out s' = out s @ written_bytes encode (exponent > 24) (zip fs os) @ junk \<and>
     (set os \<subseteq> {Written} \<longrightarrow> junk = []))"
proof (induction fs arbitrary: s s' os)
  case Nil
  then show ?case by auto
next
  case (Cons f fs)
  show ?case
  proof (cases "resolve_deferred_segment f")
    case (Inl e)
    with Cons.prems show ?thesis using written_bytes_abandoned [of encode _ "f # fs" "Suc (length fs)"] by auto
  next
    case (Inr f')
    obtain s1 step where st: "write_rawsocket_frame encode push flush zero_copy (exponent > 24) f' s = (s1, step)"
      by fastforce
    note frame = write_rawsocket_frame_out [OF st]
    show ?thesis
    proof (cases "step = Stopped")
      case True
      with Cons.prems Inr st frame show ?thesis
        using written_bytes_abandoned [of encode _ "f # fs" "Suc (length fs)"] by auto
    next
      case False
      obtain s2 os' where rec: "connection_writer encode push flush zero_copy exponent fs s1 = (s2, os')" by fastforce
      from Cons.IH [OF rec] obtain junk where
        "out s2 = out s1 @ written_bytes encode (exponent > 24) (zip fs os') @ junk"
        "set os' \<subseteq> {Written} \<longrightarrow> junk = []" "length os' = length fs" "set os' \<subseteq> {Written, Abandoned}" by blast
      moreover have "s' = s2" "os = (if step = Flushed then Written else Abandoned) # os'"
        using Cons.prems Inr st rec False by (cases step; simp)+
      ultimately show ?thesis using frame False Inr
        by (cases step) (auto simp: resolved_bytes_def)
    qed
  qed
qed

end

text \<open>The stream over a transport is a sink again; its file sender works on the socket below it.\<close>

definition stream_sendfile ::
  "(byte list \<Rightarrow> nat \<Rightarrow> nat \<Rightarrow> 's \<Rightarrow> 's \<times> (stream_error + nat)) \<Rightarrow> byte list \<Rightarrow> nat \<Rightarrow> nat \<Rightarrow> 's io_stream \<Rightarrow> 's io_stream \<times> (stream_error + nat)" where
  "stream_sendfile sendfile fbytes off n s = (case sendfile fbytes off n (inner s) of (i, r) \<Rightarrow> (s\<lparr>inner := i\<rparr>, r))"

locale socket = byte_sink

sublocale socket \<subseteq> stream: byte_sink "poll_write push" "poll_flush flush" "map_option stream_sendfile zero_copy" encode "out \<circ> inner"
  using push_ok push_failed flush_out sendfile_sent sendfile_failed encode_append encode_Nil
  by unfold_locales (fastforce simp: poll_write_def poll_flush_def stream_sendfile_def split: prod.splits)+

section \<open>A socket that accepts a number of bytes\<close>

record pipe =
  accepted :: "byte list"
  room :: nat

definition pipe_push :: "pipe sink" where
  "pipe_push bs p =
     (if length bs \<le> room p then (p\<lparr>accepted := accepted p @ bs, room := room p - length bs\<rparr>, None)
      else (p\<lparr>accepted := accepted p @ take (room p) bs, room := 0\<rparr>, Some Broken))"

definition pipe_flush :: "pipe \<Rightarrow> pipe \<times> stream_error option" where
  "pipe_flush p = (p, None)"

definition pipe_sendfile :: "byte list \<Rightarrow> nat \<Rightarrow> nat \<Rightarrow> pipe \<Rightarrow> pipe \<times> (stream_error + nat)" where
  "pipe_sendfile fbytes off n p =
     (let k = min (min n (room p)) (length fbytes - off) in
      (p\<lparr>accepted := accepted p @ take k (drop off fbytes), room := room p - k\<rparr>, Inr k))"

text \<open>RFC 4648 base64 with padding.\<close>

definition sextet :: "nat \<Rightarrow> byte" where
  "sextet n = of_nat (if n < 26 then 65 + n else if n < 52 then 71 + n else if n < 62 then n - 4
     else if n = 62 then 43 else 47)"

fun rfc4648 :: "byte list \<Rightarrow> byte list" where
  "rfc4648 [] = []"
| "rfc4648 [a] = [sextet (unat a div 4), sextet (unat a mod 4 * 16), 61, 61]"
| "rfc4648 [a, b] =
     [sextet (unat a div 4), sextet (unat a mod 4 * 16 + unat b div 16), sextet (unat b mod 16 * 4), 61]"
| "rfc4648 (a # b # c # xs) =
     [sextet (unat a div 4), sextet (unat a mod 4 * 16 + unat b div 16), sextet (unat b mod 16 * 4 + unat c div 64),
      sextet (unat c mod 64)] @ rfc4648 xs"

lemma rfc4648_append: "3 dvd length a \<Longrightarrow> rfc4648 (a @ b) = rfc4648 a @ rfc4648 b"
proof (induction a rule: rfc4648.induct)
  case (4 x y z xs)
  then have "3 dvd 3 + length xs" by (simp add: numeral_3_eq_3)
  then have "3 dvd length xs" by (simp only: dvd_add_triv_left_iff)
  with 4 show ?case by simp
qed (auto dest: dvd_imp_le)

interpretation pipe: socket pipe_push pipe_flush "Some pipe_sendfile" rfc4648 accepted
  by unfold_locales (auto simp: pipe_push_def pipe_flush_def pipe_sendfile_def rfc4648_append Let_def split: if_splits)

end
