(* ===== verification/Rawsocket_Connection.thy ===== *)
theory Rawsocket_Connection
  imports Outbound_Frames
begin

text \<open>
  The reader task of a RawSocket connection (\<open>spawn_connection_reader\<close> of
  \<^verbatim>\<open>ct_core/src/lib.rs\<close>) and the two ends of a connection together: what one side's writer
  task sends is what the other side's reader task delivers. The parser of messages and the
  answer of the queue to the application are parameters; the queue of the own writer is open
  or closed. The task runs until the connection ends, so its loop takes the number of frames
  it may read; a run that is not over yet has no reason to stop.
\<close>

section \<open>The reader task\<close>

datatype 'm reader_event = Delivered 'm | Replied outbound_frame | Ponged "byte list"

datatype 'e reader_stop = Idle | Read_Failed frame_read_error | Receiver_Closed | Parse_Failed 'e | Writer_Closed

definition handle_inbound ::
  "(byte list \<Rightarrow> 'e + 'm) \<Rightarrow> ('m \<Rightarrow> bool) \<Rightarrow> bool \<Rightarrow> bool \<Rightarrow> inbound_frame \<Rightarrow> 'm reader_event list \<times> 'e reader_stop option" where
  "handle_inbound parse accepts send_open has_pong frame =
     (case frame of
        In_Message payload \<Rightarrow>
          (case parse payload of
             Inr parsed \<Rightarrow> if accepts parsed then ([Delivered parsed], None) else ([], Some Receiver_Closed)
           | Inl e \<Rightarrow> ([], Some (Parse_Failed e)))
      | In_Ping payload \<Rightarrow> if send_open then ([Replied (control 2 payload)], None) else ([], Some Writer_Closed)
      | In_Pong payload \<Rightarrow> (if has_pong then [Ponged payload] else [], None))"

primrec connection_reader ::
  "'s source \<Rightarrow> (byte list \<Rightarrow> 'e + 'm) \<Rightarrow> ('m \<Rightarrow> bool) \<Rightarrow> bool \<Rightarrow> bool \<Rightarrow> nat \<Rightarrow> nat \<Rightarrow> 's \<Rightarrow>
   's \<times> 'm reader_event list \<times> 'e reader_stop option" where
  "connection_reader pull parse accepts send_open has_pong exponent 0 s = (s, [], None)"
| "connection_reader pull parse accepts send_open has_pong exponent (Suc n) s =
     (case read_inbound_frame pull (2 ^ exponent) (exponent > 24) s of
        (s', Inl (Frame_Io Elapsed)) \<Rightarrow> (s', [], Some Idle)
      | (s', Inl e) \<Rightarrow> (s', [], Some (Read_Failed e))
      | (s', Inr frame) \<Rightarrow>
          (case handle_inbound parse accepts send_open has_pong frame of
             (evs, Some stop) \<Rightarrow> (s', evs, Some stop)
           | (evs, None) \<Rightarrow>
               (case connection_reader pull parse accepts send_open has_pong exponent n s' of
                  (s'', more_evs, stop) \<Rightarrow> (s'', evs @ more_evs, stop))))"

section \<open>Frames that survive the connection\<close>

text \<open>A frame whose payload has the announced length and fits the header and the negotiated
  maximum. The constructors make such frames.\<close>

definition sendable :: "(byte list \<Rightarrow> byte list) \<Rightarrow> nat \<Rightarrow> outbound_frame \<Rightarrow> bool" where
  "sendable encode exponent f =
     (deferred_segment f = None \<and> frame_type f \<le> 2 \<and> length (frame_payload encode f) = payload_len f
      \<and> payload_len f \<le> 2 ^ exponent \<and> payload_len f \<le> frame_limit (exponent > 24))"

lemma sendable_message:
  "length p \<le> 2 ^ e \<Longrightarrow> length p \<le> frame_limit (e > 24) \<Longrightarrow> sendable encode e (message p)"
  by (simp add: sendable_def message_def frame_payload_def file_bytes_def)

lemma sendable_message_segments:
  "total_len ss \<le> 2 ^ e \<Longrightarrow> total_len ss \<le> frame_limit (e > 24) \<Longrightarrow> sendable encode e (message_segments ss)"
  by (simp add: sendable_def message_segments_def frame_payload_def file_bytes_def length_concat_total)

lemma sendable_control:
  "t \<le> 2 \<Longrightarrow> length p \<le> 2 ^ e \<Longrightarrow> length p \<le> frame_limit (e > 24) \<Longrightarrow> sendable encode e (control t p)"
  by (simp add: sendable_def control_def frame_payload_def file_bytes_def)

lemma add_lengths_sum: "add_lengths k ps = Some n \<Longrightarrow> n = k + total_len ps"
  by (induction ps arbitrary: k) (fastforce simp: total_len_def checked_add_def bind_eq_Some_conv split: if_splits)+

text \<open>A late segment of the wrong length is refused before a byte of the frame is sent.\<close>

lemma resolved_payload_len:
  assumes "resolve_deferred_segment f = Inr f'" and "deferred_segment f \<noteq> None" and "file_segment f = None"
  shows "length (frame_payload encode f') = payload_len f' \<and> deferred_segment f' = None"
  using assms
  by (auto simp: resolve_deferred_segment_def Let_def frame_payload_def file_bytes_def length_concat_total
      total_len_def dest!: add_lengths_sum split: option.splits prepared.splits if_splits)

definition frame_event :: "(byte list \<Rightarrow> 'e + 'm) \<Rightarrow> bool \<Rightarrow> byte \<Rightarrow> byte list \<Rightarrow> 'm reader_event list" where
  "frame_event parse has_pong t payload =
     (if t = 0 then (case parse payload of Inl _ \<Rightarrow> [] | Inr m \<Rightarrow> [Delivered m])
      else if t = 1 then [Replied (control 2 payload)]
      else if has_pong then [Ponged payload] else [])"

lemma byte_le_2_cases: "(b :: byte) \<le> 2 \<Longrightarrow> b = 0 \<or> b = 1 \<or> b = 2"
  using byte_le_7_cases [OF order.trans [of b 2 7]] by auto

lemma sendable_bytes:
  assumes "sendable encode e f"
  obtains h where "encode_frame_header (frame_type f) (length (frame_payload encode f)) (e > 24) = Inr h"
    "resolved_bytes encode (e > 24) f = as_bytes h @ frame_payload encode f"
proof -
  have t: "frame_type f \<le> 7" "frame_type f \<noteq> 0xff"
    using assms byte_le_2_cases [of "frame_type f"] by (auto simp: sendable_def)
  then obtain h where "encode_frame_header (frame_type f) (payload_len f) (e > 24) = Inr h"
    using encode_frame_header_ok_iff [of "frame_type f" "payload_len f" "e > 24"] assms by (auto simp: sendable_def)
  with that t assms show thesis
    by (auto simp: sendable_def resolved_bytes_def resolve_deferred_segment_def frame_bytes_def)
qed

context byte_source
begin

lemma connection_reader_frames:
  assumes "\<forall>f \<in> set fs. sendable encode e f"
    and "\<forall>f \<in> set fs. frame_type f = 0 \<longrightarrow> (\<exists>m. parse (frame_payload encode f) = Inr m \<and> accepts m)"
    and "rest s = concat (map (resolved_bytes encode (e > 24)) fs) @ tail"
  shows "\<exists>s'. connection_reader pull parse accepts True has_pong e (length fs) s =
      (s', concat (map (\<lambda>f. frame_event parse has_pong (frame_type f) (frame_payload encode f)) fs), None)
    \<and> rest s' = tail"
  using assms
proof (induction fs arbitrary: s)
  case Nil
  then show ?case by simp
next
  case (Cons f fs)
  then have f: "sendable encode e f" by simp
  from sendable_bytes [OF this] obtain h where
    h: "encode_frame_header (frame_type f) (length (frame_payload encode f)) (e > 24) = Inr h"
      "resolved_bytes encode (e > 24) f = as_bytes h @ frame_payload encode f" by blast
  have lim: "length (frame_payload encode f) \<le> 2 ^ e" using f by (simp add: sendable_def)
  let ?tail = "concat (map (resolved_bytes encode (e > 24)) fs) @ tail"
  obtain s1 where s1: "read_inbound_frame pull (2 ^ e) (e > 24) s = (s1, classify_frame (frame_type f) (frame_payload encode f))"
    "rest s1 = ?tail"
    using read_inbound_frame_encoded [OF h(1) lim, of s ?tail] Cons.prems(3) h(2) by auto
  have t: "frame_type f = 0 \<or> frame_type f = 1 \<or> frame_type f = 2"
    using f byte_le_2_cases by (auto simp: sendable_def)
  obtain s2 where "connection_reader pull parse accepts True has_pong e (length fs) s1 =
      (s2, concat (map (\<lambda>f. frame_event parse has_pong (frame_type f) (frame_payload encode f)) fs), None)"
    "rest s2 = tail"
    using Cons.IH [OF _ _ s1(2)] Cons.prems(1,2) by auto
  with s1 t Cons.prems(2) show ?case
    by (auto simp: classify_frame_def handle_inbound_def frame_event_def)
qed

end

section \<open>What the connection guarantees\<close>

lemma written_bytes_all:
  "length os = length fs \<Longrightarrow> set os \<subseteq> {Written} \<Longrightarrow>
   written_bytes encode up (zip fs os) = concat (map (resolved_bytes encode up) fs)"
  by (induction fs os rule: list_induct2') auto

lemma written_bytes_member:
  "(f, Written) \<in> set xs \<Longrightarrow> \<exists>a b. written_bytes encode up xs = a @ resolved_bytes encode up f @ b"
proof (induction xs)
  case (Cons x xs)
  show ?case
  proof (cases "x = (f, Written)")
    case True
    then have "written_bytes encode up (x # xs) = [] @ resolved_bytes encode up f @ written_bytes encode up xs" by simp
    then show ?thesis by blast
  next
    case False
    with Cons obtain a b where "written_bytes encode up xs = a @ resolved_bytes encode up f @ b" by auto
    then have "written_bytes encode up (x # xs) =
        ((if snd x = Written then resolved_bytes encode up (fst x) else []) @ a) @ resolved_bytes encode up f @ b" by simp
    then show ?thesis by blast
  qed
qed simp

text \<open>A frame that the writer passes over: it has no header.\<close>

definition unframeable :: "nat \<Rightarrow> outbound_frame \<Rightarrow> bool" where
  "unframeable exponent f =
     (case resolve_deferred_segment f of
        Inl e \<Rightarrow> False
      | Inr f' \<Rightarrow> frame_type f' \<noteq> 0xff \<and>
          (frame_type f' > 2 \<or> (\<exists>e. encode_frame_header (frame_type f') (payload_len f') (exponent > 24) = Inl e)))"

lemma writer_order:
  assumes "connection_writer encode push flush zero_copy exponent fs s = (s', os)" and "i < length os" and "os ! i = Written"
    and "j < i"
  shows "os ! j = Written \<or> unframeable exponent (fs ! j)"
  using assms
proof (induction fs arbitrary: s s' os i j)
  case (Cons f fs)
  have not_all: "os \<noteq> replicate (length (f # fs)) Abandoned" using Cons.prems(2,3) by (metis nth_replicate length_replicate write_outcome.distinct(5))
  have go: "\<exists>f' s1 o1 os1. resolve_deferred_segment f = Inr f' \<and> os = o1 # os1
      \<and> (o1 = Written \<or> write_rawsocket_frame encode push flush zero_copy (exponent > 24) f' s = (s1, Skipped))
      \<and> connection_writer encode push flush zero_copy exponent fs s1 = (s', os1)"
  proof (cases "resolve_deferred_segment f")
    case (Inl e)
    with Cons.prems(1) not_all show ?thesis by auto
  next
    case (Inr f')
    obtain s1 st where w: "write_rawsocket_frame encode push flush zero_copy (exponent > 24) f' s = (s1, st)" by fastforce
    obtain s2 os2 where rec: "connection_writer encode push flush zero_copy exponent fs s1 = (s2, os2)" by fastforce
    show ?thesis using Cons.prems(1) not_all Inr w rec by (cases st) auto
  qed
  then obtain f' s1 o1 os1 where r: "resolve_deferred_segment f = Inr f'" "os = o1 # os1"
    "o1 = Written \<or> write_rawsocket_frame encode push flush zero_copy (exponent > 24) f' s = (s1, Skipped)"
    "connection_writer encode push flush zero_copy exponent fs s1 = (s', os1)" by blast
  obtain i' where i: "i = Suc i'" using Cons.prems(4) by (cases i) auto
  show ?case
  proof (cases j)
    case 0
    have "unframeable exponent f" if "write_rawsocket_frame encode push flush zero_copy (exponent > 24) f' s = (s1, Skipped)"
      using that r(1) by (auto simp: unframeable_def write_rawsocket_frame_def split: if_splits prod.splits option.splits sum.splits)
    with r(2,3) 0 show ?thesis by auto
  next
    case (Suc j')
    with Cons.IH [OF r(4), of i' j'] Cons.prems(2-4) r(2) i show ?thesis by simp
  qed
qed simp

text \<open>A completion is honest. Whatever the transport does, the writer task settles every
  queued frame once, as written or as abandoned, and the transport has accepted, in queue
  order, the complete bytes (header, segments, late segment, file range, suffix) of exactly the
  frames reported as written, followed at most by a part of the frame at which it stopped.\<close>

theorem written_means_complete:
  assumes "byte_sink push flush zero_copy encode out"
    and "connection_writer encode push flush zero_copy exponent fs s = (s', os)"
  shows "length os = length fs \<and> set os \<subseteq> {Written, Abandoned} \<and>
    (\<exists>part. out s' = out s @ written_bytes encode (exponent > 24) (zip fs os) @ part \<and>
      (set os \<subseteq> {Written} \<longrightarrow> part = []))"
  using byte_sink.connection_writer_out [OF assms] .

text \<open>C1: Both ends of a RawSocket connection together. When the writer task of one side has
  written its frames (messages of one or several segments, pings, pongs, file ranges) and the
  transport delivers the bytes in chunks of any size, the reader task of the other side hands
  over exactly these messages in order, answers every ping with its payload and stays in step:
  nothing is left over.\<close>

theorem rawsocket_delivers_in_order:
  assumes sink: "byte_sink push flush zero_copy encode out" and source: "byte_source pull rest"
    and wrote: "connection_writer encode push flush zero_copy e fs s = (s', os)" "set os \<subseteq> {Written}"
    and wire: "rest r = drop (length (out s)) (out s')"
    and frames: "\<forall>f \<in> set fs. sendable encode e f"
    and parses: "\<forall>f \<in> set fs. frame_type f = 0 \<longrightarrow> (\<exists>m. parse (frame_payload encode f) = Inr m \<and> accepts m)"
  shows "\<exists>r'. connection_reader pull parse accepts True has_pong e (length fs) r =
      (r', concat (map (\<lambda>f. frame_event parse has_pong (frame_type f) (frame_payload encode f)) fs), None)
    \<and> rest r' = []"
proof -
  have "length os = length fs" "out s' = out s @ written_bytes encode (e > 24) (zip fs os)"
    using byte_sink.connection_writer_out [OF sink wrote(1)] wrote(2) by auto
  with wire wrote(2) have "rest r = concat (map (resolved_bytes encode (e > 24)) fs) @ []"
    by (simp add: written_bytes_all)
  from byte_source.connection_reader_frames [OF source frames parses this] show ?thesis by simp
qed

text \<open>The negotiated maximum holds for what is received: a frame that announces more than
  \<open>2 ^ exponent\<close> bytes ends the connection after its header, before any of its payload is
  read or stored.\<close>

theorem oversized_frame_refused:
  assumes source: "byte_source pull rest"
    and header: "encode_frame_header t n (e > 24) = Inr h" and big: "2 ^ e < n"
    and wire: "rest s = as_bytes h @ tail"
  shows "\<exists>s'. connection_reader pull parse accepts send_open has_pong e (Suc k) s =
      (s', [], Some (Read_Failed (Frame_Protocol ''frame length exceeds negotiated maximum'')))
    \<and> rest s' = tail"
proof -
  have ok: "t \<le> 7" "n \<le> frame_limit (e > 24)" using header encode_frame_header_ok_iff [of t n "e > 24"] by auto
  from header_encoded [OF this] header have len: "length (as_bytes h) = (if e > 24 then 5 else 4)"
    and dec: "(if e > 24 then upgraded_header (as_bytes h) else classic_header (as_bytes h)) = Inr (t, n)" by auto
  obtain s1 where s1: "read_exact pull (length (as_bytes h)) s = (s1, Inr (as_bytes h))" "rest s1 = tail"
    using byte_source.read_exact_enough [OF source, of "length (as_bytes h)" s] wire by auto
  have "read_inbound_frame pull (2 ^ e) (e > 24) s =
      (s1, Inl (Frame_Protocol ''frame length exceeds negotiated maximum''))"
    using s1(1) dec big unfolding read_inbound_frame_def len [symmetric] by auto
  with s1(2) show ?thesis by simp
qed

section \<open>A concrete connection\<close>

text \<open>A message of two segments and a ping, through a pipe with room for 100 bytes, read from a
  wire that delivers it in two chunks; messages are parsed to their bytes.\<close>

definition demo_frames :: "outbound_frame list" where
  "demo_frames = [tracked 7 (message_segments [[1, 2], [3]]), control 1 [9]]"

definition demo_bytes :: "byte list" where
  "demo_bytes = [0, 0, 0, 3, 1, 2, 3, 1, 0, 0, 1, 9]"

definition demo_wire :: wire where
  "demo_wire = \<lparr>chunks = [take 5 demo_bytes, drop 5 demo_bytes], silent = True, sent = []\<rparr>"

lemma demo_written:
  "connection_writer rfc4648 pipe_push pipe_flush (Some pipe_sendfile) 16 demo_frames \<lparr>accepted = [], room = 100\<rparr> =
   (\<lparr>accepted = demo_bytes, room = 88\<rparr>, [Written, Written])"
  by (simp add: demo_frames_def demo_bytes_def tracked_def message_segments_def control_def total_len_def
      resolve_deferred_segment_def write_rawsocket_frame_def encode_frame_header_def MAX_FRAME_LEN_def Let_def
      as_bytes_def chain_def write_file_part_def pipe_push_def pipe_flush_def
      drop_bit_eq_div and_255_mod)

lemma demo_sendable: "\<forall>f \<in> set demo_frames. sendable rfc4648 16 f"
  by (simp add: demo_frames_def sendable_def tracked_def message_segments_def control_def total_len_def
      frame_payload_def file_bytes_def frame_limit_def MAX_FRAME_LEN_def)

lemma demo_len: "length demo_frames = 2"
  by (simp add: demo_frames_def)

lemma demo_payloads:
  "concat (map (\<lambda>f. frame_event (Inr :: byte list \<Rightarrow> unit + byte list) False (frame_type f) (frame_payload rfc4648 f)) demo_frames) =
   [Delivered [1, 2, 3], Replied (control 2 [9])]"
  by (simp add: demo_frames_def frame_event_def tracked_def message_segments_def control_def frame_payload_def file_bytes_def)

theorem written_means_complete_witness:
  "written_bytes rfc4648 False (zip demo_frames [Written, Written]) = demo_bytes"
  using written_means_complete [OF pipe.byte_sink_axioms demo_written] by simp

theorem rawsocket_delivers_in_order_witness:
  "snd (connection_reader wire_pull Inr (\<lambda>_. True) True False 16 2 demo_wire) =
     ([Delivered [1, 2, 3], Replied (control 2 [9])], None :: unit reader_stop option)"
proof -
  have "wire_rest demo_wire = drop (length (accepted \<lparr>accepted = [], room = 100\<rparr>)) (accepted \<lparr>accepted = demo_bytes, room = 88\<rparr>)"
    by (simp add: wire_rest_def demo_wire_def)
  from rawsocket_delivers_in_order [OF pipe.byte_sink_axioms wire.byte_source_axioms demo_written _ this demo_sendable,
      where parse = "Inr :: byte list \<Rightarrow> unit + byte list" and accepts = "\<lambda>_. True" and has_pong = False]
  show ?thesis
    by (auto simp del: connection_reader.simps simp: demo_len demo_payloads)
qed

theorem oversized_frame_refused_witness:
  "snd (connection_reader wire_pull (Inr :: byte list \<Rightarrow> unit + byte list) (\<lambda>_. True) True False 9 1
     \<lparr>chunks = [[0, 0, 2, 1]], silent = True, sent = []\<rparr>) =
   ([], Some (Read_Failed (Frame_Protocol ''frame length exceeds negotiated maximum'')))"
proof -
  have "encode_frame_header 0 513 (9 > (24 :: nat)) = Inr \<lparr>header_bytes = [0, 0, 2, 1, 0], header_len = 4\<rparr>"
    by (simp add: encode_frame_header_def MAX_FRAME_LEN_def Let_def)
  from oversized_frame_refused [OF wire.byte_source_axioms this, where k = 0 and tail = "[]"
      and s = "\<lparr>chunks = [[0, 0, 2, 1]], silent = True, sent = []\<rparr>" and send_open = True and has_pong = False
      and parse = "Inr :: byte list \<Rightarrow> unit + byte list" and accepts = "\<lambda>_. True"]
  show ?thesis by (auto simp: as_bytes_def wire_rest_def simp del: connection_reader.simps)
qed

end
