(* ===== verification/Rawsocket_Handshake.thy ===== *)
theory Rawsocket_Handshake
  imports Rawsocket_Frames Wamp_Message
begin

text \<open>
  The RawSocket handshake (\<^verbatim>\<open>ct_core/src/rawsocket.rs\<close>): the server side \<open>negotiate\<close> and the
  client side \<open>connect\<close>, with the optional second exchange that raises the maximum message size
  above 16 MiB. Exponents are natural numbers (they are at most 40). \<open>push\<close> writes to the
  transport; \<open>Elapsed\<close> is the handshake timer, which the source puts around reads and, on the
  client, around writes. \<open>clone_fd\<close> says whether the transport has a plain descriptor for
  sending files. Shutting the stream down after an error code is best effort in the source and
  has no effect on the model.
\<close>

unbundle bit_operations_syntax

section \<open>Constants and types\<close>

definition RAWSOCKET_MAGIC :: byte where "RAWSOCKET_MAGIC = 0x7F"
definition RAWSOCKET_UPGRADE_MAGIC :: byte where "RAWSOCKET_UPGRADE_MAGIC = 0x3F"
definition ERROR_SERIALIZER_UNSUPPORTED :: byte where "ERROR_SERIALIZER_UNSUPPORTED = 1"
definition ERROR_MESSAGE_LENGTH_EXCEEDED :: byte where "ERROR_MESSAGE_LENGTH_EXCEEDED = 2"
definition ERROR_RESERVED_BITS :: byte where "ERROR_RESERVED_BITS = 3"
definition CONNECTANUM_MAX_RAWSOCKET_SIZE_EXPONENT :: nat where "CONNECTANUM_MAX_RAWSOCKET_SIZE_EXPONENT = 30"

lemmas rawsocket_constants = RAWSOCKET_MAGIC_def RAWSOCKET_UPGRADE_MAGIC_def ERROR_SERIALIZER_UNSUPPORTED_def
  ERROR_MESSAGE_LENGTH_EXCEEDED_def ERROR_RESERVED_BITS_def CONNECTANUM_MAX_RAWSOCKET_SIZE_EXPONENT_def

datatype handshake_error = Handshake_Protocol label | Handshake_Io stream_error

record negotiated_session =
  session_serializer :: serializer
  max_message_size_exponent :: nat
  upgraded :: bool
  has_file_sender :: bool

fun serializer_to_wire_id :: "serializer \<Rightarrow> byte option" where
  "serializer_to_wire_id Json = Some 1"
| "serializer_to_wire_id MessagePack = Some 2"
| "serializer_to_wire_id Cbor = Some 3"
| "serializer_to_wire_id Ubjson = Some 4"
| "serializer_to_wire_id Flatbuffers = Some 5"

definition serializer_from_wire_id :: "byte \<Rightarrow> serializer option" where
  "serializer_from_wire_id v =
     (if v = 1 then Some Json else if v = 2 then Some MessagePack else if v = 3 then Some Cbor
      else if v = 4 then Some Ubjson else if v = 5 then Some Flatbuffers else None)"

section \<open>Steps of both sides\<close>

definition read_with_timeout :: "'s source \<Rightarrow> nat \<Rightarrow> 's io_stream \<Rightarrow> 's io_stream \<times> (handshake_error + byte list)" where
  "read_with_timeout pull n s =
     (case read_exact (poll_read pull) n s of
        (s', Inr bs) \<Rightarrow> (s', Inr bs)
      | (s', Inl Elapsed) \<Rightarrow> (s', Inl (Handshake_Protocol ''rawsocket handshake timed out''))
      | (s', Inl e) \<Rightarrow> (s', Inl (Handshake_Io e)))"

text \<open>A rejection: the error code is sent, and a failure to send it is the error reported.\<close>

definition reject :: "'s sink \<Rightarrow> byte \<Rightarrow> label \<Rightarrow> 's io_stream \<Rightarrow> 's io_stream \<times> (handshake_error + 'a)" where
  "reject push code reason s =
     (case poll_write push [RAWSOCKET_MAGIC, push_bit 4 code, 0, 0] s of
        (s', Some e) \<Rightarrow> (s', Inl (Handshake_Io e))
      | (s', None) \<Rightarrow> (s', Inl (Handshake_Protocol reason)))"

definition write_with_timeout :: "'s sink \<Rightarrow> label \<Rightarrow> byte list \<Rightarrow> 's io_stream \<Rightarrow> 's io_stream \<times> handshake_error option" where
  "write_with_timeout push reason bs s =
     (case poll_write push bs s of
        (s', None) \<Rightarrow> (s', None)
      | (s', Some Elapsed) \<Rightarrow> (s', Some (Handshake_Protocol reason))
      | (s', Some e) \<Rightarrow> (s', Some (Handshake_Io e)))"

definition finish_session ::
  "('s io_stream \<Rightarrow> stream_error + bool) \<Rightarrow> serializer \<Rightarrow> nat \<Rightarrow> bool \<Rightarrow> 's io_stream \<Rightarrow> 's io_stream \<times> (handshake_error + negotiated_session)" where
  "finish_session clone_fd ser e up s =
     (case (if ser = MessagePack \<or> ser = Cbor then clone_fd s else Inr False) of
        Inl err \<Rightarrow> (s, Inl (Handshake_Io err))
      | Inr fd \<Rightarrow> (s, Inr \<lparr>session_serializer = ser, max_message_size_exponent = e, upgraded = up, has_file_sender = fd\<rparr>))"

section \<open>The server\<close>

text \<open>The optional upgrade: two look-ahead bytes, which go back to the stream unless they ask
  for it.\<close>

definition server_upgrade ::
  "'s source \<Rightarrow> 's sink \<Rightarrow> nat \<Rightarrow> nat \<Rightarrow> 's io_stream \<Rightarrow> 's io_stream \<times> (handshake_error + nat \<times> bool)" where
  "server_upgrade pull push desired_exponent response_exponent s =
     (case fill (poll_read pull) 2 s of
        (s', buf, None) \<Rightarrow>
          if buf ! 0 = RAWSOCKET_UPGRADE_MAGIC then
            let client_upgrade = unat ((buf ! 1) AND 0x0F) + 25;
                negotiated_upgrade = min (min desired_exponent client_upgrade) CONNECTANUM_MAX_RAWSOCKET_SIZE_EXPONENT
            in if negotiated_upgrade \<le> 24
               then reject push ERROR_MESSAGE_LENGTH_EXCEEDED ''invalid upgrade exponent requested'' s'
               else (case poll_write push
                         [RAWSOCKET_UPGRADE_MAGIC, of_nat (min (negotiated_upgrade - 25) 15) AND 0x0F] s' of
                       (s'', Some e) \<Rightarrow> (s'', Inl (Handshake_Io e))
                     | (s'', None) \<Rightarrow> (s'', Inr (negotiated_upgrade, True)))
          else (buffer_front buf s', Inr (response_exponent, False))
      | (s', buf, Some Elapsed) \<Rightarrow> (buffer_front buf s', Inr (response_exponent, False))
      | (s', buf, Some e) \<Rightarrow> (s', Inl (Handshake_Io e)))"

definition negotiate ::
  "'s source \<Rightarrow> 's sink \<Rightarrow> ('s io_stream \<Rightarrow> stream_error + bool) \<Rightarrow> nat \<Rightarrow> 's io_stream \<Rightarrow>
   's io_stream \<times> (handshake_error + negotiated_session)" where
  "negotiate pull push clone_fd max_rawsocket_size_exponent s =
     (case read_with_timeout pull 4 s of
        (s', Inl e) \<Rightarrow> (s', Inl e)
      | (s', Inr buf) \<Rightarrow>
          if buf ! 0 \<noteq> RAWSOCKET_MAGIC then reject push ERROR_RESERVED_BITS ''invalid rawsocket magic'' s'
          else if buf ! 2 \<noteq> 0 \<or> buf ! 3 \<noteq> 0 then reject push ERROR_RESERVED_BITS ''reserved bits must be zero'' s'
          else case serializer_from_wire_id ((buf ! 1) AND 0x0F) of
              None \<Rightarrow> reject push ERROR_SERIALIZER_UNSUPPORTED ''unsupported serializer'' s'
            | Some ser \<Rightarrow>
                let client_exponent = unat (drop_bit 4 ((buf ! 1) AND 0xF0)) + 9;
                    desired_exponent = min max_rawsocket_size_exponent CONNECTANUM_MAX_RAWSOCKET_SIZE_EXPONENT;
                    response_exponent = min client_exponent (min desired_exponent 24)
                in if response_exponent < 9
                   then reject push ERROR_MESSAGE_LENGTH_EXCEEDED ''negotiated exponent below minimum'' s'
                   else let response_byte = push_bit 4 (of_nat (min (response_exponent - 9) 15)) OR ((buf ! 1) AND 0x0F)
                        in case poll_write push [RAWSOCKET_MAGIC, response_byte, 0, 0] s' of
                            (s'', Some e) \<Rightarrow> (s'', Inl (Handshake_Io e))
                          | (s'', None) \<Rightarrow>
                              if desired_exponent > response_exponent \<and> client_exponent \<ge> 24 then
                                (case server_upgrade pull push desired_exponent response_exponent s'' of
                                   (s3, Inl e) \<Rightarrow> (s3, Inl e)
                                 | (s3, Inr (final_exponent, up)) \<Rightarrow> finish_session clone_fd ser final_exponent up s3)
                              else finish_session clone_fd ser response_exponent False s'')"

section \<open>The client\<close>

definition error_reason :: "byte \<Rightarrow> label" where
  "error_reason code =
     (if code = ERROR_SERIALIZER_UNSUPPORTED then ''rawsocket serializer unsupported''
      else if code = ERROR_MESSAGE_LENGTH_EXCEEDED then ''rawsocket message length exceeded''
      else if code = ERROR_RESERVED_BITS then ''rawsocket reserved bits error''
      else ''rawsocket handshake failed'')"

definition client_upgrade ::
  "'s source \<Rightarrow> 's sink \<Rightarrow> nat \<Rightarrow> 's io_stream \<Rightarrow> 's io_stream \<times> (handshake_error + nat)" where
  "client_upgrade pull push requested_exponent s =
     (case write_with_timeout push ''rawsocket upgrade timed out''
             [RAWSOCKET_UPGRADE_MAGIC, of_nat (min (requested_exponent - 25) 15) AND 0x0F] s of
        (s', Some e) \<Rightarrow> (s', Inl e)
      | (s', None) \<Rightarrow>
          (case read_with_timeout pull 2 s' of
             (s'', Inl e) \<Rightarrow> (s'', Inl e)
           | (s'', Inr response) \<Rightarrow>
               if response ! 0 \<noteq> RAWSOCKET_UPGRADE_MAGIC
               then (s'', Inl (Handshake_Protocol ''invalid rawsocket upgrade response''))
               else (s'', Inr (unat ((response ! 1) AND 0x0F) + 25))))"

definition accept_response :: "serializer \<Rightarrow> byte list \<Rightarrow> handshake_error + nat" where
  "accept_response ser response =
     (if response ! 0 \<noteq> RAWSOCKET_MAGIC then Inl (Handshake_Protocol ''invalid rawsocket response magic'')
      else if response ! 2 \<noteq> 0 \<or> response ! 3 \<noteq> 0
        then Inl (Handshake_Protocol ''rawsocket reserved bits must be zero'')
      else let serializer_id = (response ! 1) AND 0x0F in
        if serializer_id = 0 then Inl (Handshake_Protocol (error_reason (drop_bit 4 (response ! 1))))
        else case serializer_from_wire_id serializer_id of
            None \<Rightarrow> Inl (Handshake_Protocol ''rawsocket serializer response invalid'')
          | Some negotiated \<Rightarrow>
              if negotiated \<noteq> ser then Inl (Handshake_Protocol ''rawsocket serializer mismatch'')
              else Inr (unat (drop_bit 4 ((response ! 1) AND 0xF0)) + 9))"

definition connect ::
  "'s source \<Rightarrow> 's sink \<Rightarrow> ('s io_stream \<Rightarrow> stream_error + bool) \<Rightarrow> serializer \<Rightarrow> nat \<Rightarrow> 's io_stream \<Rightarrow>
   's io_stream \<times> (handshake_error + negotiated_session)" where
  "connect pull push clone_fd ser desired_exponent s =
     (let requested_exponent = min desired_exponent CONNECTANUM_MAX_RAWSOCKET_SIZE_EXPONENT in
      case serializer_to_wire_id ser of
        None \<Rightarrow> (s, Inl (Handshake_Protocol ''unsupported serializer''))
      | Some serializer_id \<Rightarrow>
          let base_exponent = min requested_exponent 24;
              header = [RAWSOCKET_MAGIC, push_bit 4 (of_nat (min (base_exponent - 9) 15)) OR serializer_id, 0, 0]
          in case write_with_timeout push ''rawsocket handshake timed out'' header s of
               (s', Some e) \<Rightarrow> (s', Inl e)
             | (s', None) \<Rightarrow>
                 (case read_with_timeout pull 4 s' of
                    (s'', Inl e) \<Rightarrow> (s'', Inl e)
                  | (s'', Inr response) \<Rightarrow>
                      (case accept_response ser response of
                         Inl e \<Rightarrow> (s'', Inl e)
                       | Inr exponent \<Rightarrow>
                           if requested_exponent > 24 \<and> exponent \<ge> 24 then
                             (case client_upgrade pull push requested_exponent s'' of
                                (s3, Inl e) \<Rightarrow> (s3, Inl e)
                              | (s3, Inr final) \<Rightarrow> finish_session clone_fd ser final True s3)
                           else finish_session clone_fd ser exponent False s'')))"

section \<open>A connection in both directions\<close>

text \<open>What both sides rely on: written bytes are accepted, reading does not write, and a peer
  that has nothing more to say for now lets the timer fire. \<open>out s\<close> is what has been written.\<close>

locale duplex = transport pull rest for pull :: "'s source" and rest +
  fixes push :: "'s sink" and out :: "'s \<Rightarrow> byte list" and idle :: "'s \<Rightarrow> bool"
  assumes push_accepted: "\<exists>s'. push bs s = (s', None) \<and> rest s' = rest s \<and> out s' = out s @ bs \<and> (idle s' \<longleftrightarrow> idle s)"
    and pull_keeps: "pull n s = (s', r) \<Longrightarrow> out s' = out s \<and> (idle s' \<longleftrightarrow> idle s)"
    and pull_idle: "idle s \<Longrightarrow> rest s = [] \<Longrightarrow> 0 < n \<Longrightarrow> \<exists>s'. pull n s = (s', Inl Elapsed)"
begin

definition looks :: "'s io_stream \<Rightarrow> byte list \<Rightarrow> byte list \<Rightarrow> bool" where
  "looks s coming written = (pending rest s = coming \<and> out (inner s) = written \<and> idle (inner s))"

lemma poll_read_keeps:
  "poll_read pull n s = (s', r) \<Longrightarrow> out (inner s') = out (inner s) \<and> (idle (inner s') \<longleftrightarrow> idle (inner s))"
  using pull_keeps by (auto simp: poll_read_def Let_def split: if_splits prod.splits)

lemma fill_keeps:
  "fill (poll_read pull) n s = (s', bs, e) \<Longrightarrow> out (inner s') = out (inner s) \<and> (idle (inner s') \<longleftrightarrow> idle (inner s))"
proof (induction n arbitrary: s s' bs e rule: less_induct)
  case (less n)
  obtain s1 r where p: "poll_read pull n s = (s1, r)" by fastforce
  note kept = poll_read_keeps [OF p]
  show ?case
  proof (cases "n = 0 \<or> (\<exists>b cs. r \<noteq> Inr (b # cs)) \<and> \<not> (\<exists>b cs. r = Inr (b # cs))")
    case True
    with less.prems p kept show ?thesis
      by (subst (asm) fill.simps) (auto split: if_splits sum.splits list.splits)
  next
    case False
    then obtain b cs where r: "r = Inr (b # cs)" by blast
    obtain s2 acc e2 where rec: "fill (poll_read pull) (n - length (b # cs)) s1 = (s2, acc, e2)" by (metis prod_cases3)
    have "s2 = s'" using less.prems p r rec False by (subst (asm) fill.simps) auto
    with less.IH [OF _ rec] kept False show ?thesis by simp
  qed
qed

lemma read_with_timeout_looks:
  assumes "looks s (bs @ coming) written" and "n = length bs"
  shows "\<exists>s'. read_with_timeout pull n s = (s', Inr bs) \<and> looks s' coming written"
proof -
  obtain s' where s': "fill (poll_read pull) n s = (s', bs, None)" "pending rest s' = coming"
    using stream.fill_enough [of n s] assms by (auto simp: looks_def)
  with fill_keeps [OF s'(1)] assms show ?thesis
    by (auto simp: read_with_timeout_def read_exact_def looks_def)
qed

lemma poll_write_looks:
  assumes "looks s coming written"
  shows "\<exists>s'. poll_write push bs s = (s', None) \<and> looks s' coming (written @ bs)"
  using push_accepted [of bs "inner s"] assms by (auto simp: poll_write_def looks_def pending_def)

lemma fill_idle:
  "looks s coming written \<Longrightarrow> length coming < n \<Longrightarrow>
   \<exists>s'. fill (poll_read pull) n s = (s', coming, Some Elapsed) \<and> looks s' [] written"
proof (induction n arbitrary: s coming rule: less_induct)
  case (less n)
  then have n: "0 < n" by simp
  show ?case
  proof (cases "coming = []")
    case True
    have "\<not> buffered_offset s < length (buffered s)" "rest (inner s) = []" "idle (inner s)"
      using less.prems(1) True by (auto simp: looks_def pending_def)
    with pull_idle [of "inner s" n] n obtain i where i: "pull n (inner s) = (i, Inl Elapsed)" by blast
    with \<open>\<not> buffered_offset s < length (buffered s)\<close>
    have p: "poll_read pull n s = (s\<lparr>inner := i\<rparr>, Inl Elapsed)" by (simp add: poll_read_def)
    have "rest i = []" using pull_end [OF n \<open>rest (inner s) = []\<close>] i by auto
    with less.prems(1) True pull_keeps [OF i] p n show ?thesis
      by (subst fill.simps) (auto simp: looks_def pending_def)
  next
    case False
    then have "pending rest s \<noteq> []" using less.prems(1) by (simp add: looks_def)
    with stream.pull_data [OF n] obtain s1 b bs where
      s1: "poll_read pull n s = (s1, Inr (b # bs))" "pending rest s = (b # bs) @ pending rest s1" by blast
    have l: "looks s1 (pending rest s1) written"
      using poll_read_keeps [OF s1(1)] less.prems(1) by (auto simp: looks_def)
    have c: "coming = (b # bs) @ pending rest s1" using s1(2) less.prems(1) by (simp add: looks_def)
    then have "n - length (b # bs) < n" "length (pending rest s1) < n - length (b # bs)" using n less.prems(2) by auto
    from less.IH [OF this(1) l this(2)] c n s1(1) show ?thesis by (subst fill.simps) auto
  qed
qed

lemma fill_two:
  assumes "looks s (a # b # coming) written"
  shows "\<exists>s'. fill (poll_read pull) 2 s = (s', [a, b], None) \<and> looks s' coming written"
proof -
  obtain s' where s': "fill (poll_read pull) 2 s = (s', [a, b], None)" "pending rest s' = coming"
    using stream.fill_enough [of 2 s] assms by (auto simp: looks_def)
  with fill_keeps [OF s'(1)] assms show ?thesis by (auto simp: looks_def)
qed

end

lemma wire_pull_silent:
  assumes "silent w" "wire_rest w = []"
  shows "wire_pull n w = (w\<lparr>chunks := []\<rparr>, Inl Elapsed)"
proof -
  have "dropWhile (\<lambda>c. c = []) (chunks w) = []" using assms(2) by (simp add: wire_rest_def)
  then show ?thesis unfolding wire_pull_def using assms(1) by (simp only: list.case if_True)
qed

interpretation wire: duplex wire_pull wire_rest wire_push sent silent
  by unfold_locales
     (auto simp: wire_push_def wire_pull_silent, auto simp: wire_pull_def wire_rest_def split: list.splits)

section \<open>Agreement\<close>

lemma wire_id_roundtrip:
  "serializer_to_wire_id ser = Some i \<longleftrightarrow> serializer_from_wire_id i = Some ser"
  by (cases ser) (auto simp: serializer_from_wire_id_def)

lemma wire_id_cases: "serializer_from_wire_id i = Some ser \<Longrightarrow> i = 1 \<or> i = 2 \<or> i = 3 \<or> i = 4 \<or> i = 5"
  by (auto simp: serializer_from_wire_id_def split: if_splits)

lemma le_15_cases:
  "(k :: nat) \<le> 15 \<Longrightarrow> k = 0 \<or> k = 1 \<or> k = 2 \<or> k = 3 \<or> k = 4 \<or> k = 5 \<or> k = 6 \<or> k = 7 \<or> k = 8 \<or> k = 9
    \<or> k = 10 \<or> k = 11 \<or> k = 12 \<or> k = 13 \<or> k = 14 \<or> k = 15"
  by presburger

lemma nibbles:
  assumes "k \<le> 15" and "serializer_from_wire_id i = Some ser"
  shows "(push_bit 4 (of_nat k) OR i) AND 0x0F = i" "unat (drop_bit 4 ((push_bit 4 (of_nat k) OR i) AND 0xF0)) = k" "i \<noteq> 0"
  using le_15_cases [OF assms(1)] wire_id_cases [OF assms(2)] by (elim disjE; simp)+

lemma low_nibble: "k \<le> 15 \<Longrightarrow> unat ((of_nat k :: byte) AND 0x0F AND 0x0F) = k"
  by (drule le_15_cases) (elim disjE; simp)

definition hello_bytes :: "byte \<Rightarrow> nat \<Rightarrow> byte list" where
  "hello_bytes i e = [RAWSOCKET_MAGIC, push_bit 4 (of_nat (e - 9)) OR i, 0, 0]"

definition upgrade_bytes :: "nat \<Rightarrow> byte list" where
  "upgrade_bytes e = [RAWSOCKET_UPGRADE_MAGIC, of_nat (e - 25) AND 0x0F]"

lemma length_hello [simp]: "length (hello_bytes i e) = 4"
  by (simp add: hello_bytes_def)

lemma length_upgrade [simp]: "length (upgrade_bytes e) = 2"
  by (simp add: upgrade_bytes_def)

definition agreed :: "negotiated_session \<Rightarrow> serializer \<Rightarrow> nat \<Rightarrow> bool" where
  "agreed x ser e = (session_serializer x = ser \<and> max_message_size_exponent x = e \<and> (upgraded x \<longleftrightarrow> e > 24))"

lemma finish_agreed:
  assumes "\<exists>fd. clone_fd s = Inr fd" and "up \<longleftrightarrow> e > 24"
  shows "\<exists>x. finish_session clone_fd ser e up s = (s, Inr x) \<and> agreed x ser e"
  using assms by (auto simp: finish_session_def agreed_def split: sum.splits)

context duplex
begin

lemma server_upgrade_accepts:
  assumes "looks s (upgrade_bytes c @ app) written" and "25 \<le> c" "c \<le> 30" "25 \<le> d" "d \<le> 30"
  shows "\<exists>s'. server_upgrade pull push d r s = (s', Inr (min d c, True)) \<and> looks s' app (written @ upgrade_bytes (min d c))"
proof -
  obtain s1 where s1: "fill (poll_read pull) 2 s = (s1, upgrade_bytes c, None)" "looks s1 app written"
    using fill_two [of s RAWSOCKET_UPGRADE_MAGIC "of_nat (c - 25) AND 0x0F" app written] assms(1)
    by (auto simp: upgrade_bytes_def)
  obtain s2 where s2: "poll_write push (upgrade_bytes (min d c)) s1 = (s2, None)" "looks s2 app (written @ upgrade_bytes (min d c))"
    using poll_write_looks [OF s1(2)] by blast
  have "unat ((of_nat (c - 25) :: byte) AND 0x0F AND 0x0F) = c - 25" using assms(3) by (intro low_nibble) simp
  then have "unat ((upgrade_bytes c ! 1) AND 0x0F) + 25 = c" "upgrade_bytes c ! 0 = RAWSOCKET_UPGRADE_MAGIC"
    using assms(2) by (simp_all add: upgrade_bytes_def)
  moreover have "min (min d c - 25) 15 = min d c - 25" "\<not> min d c \<le> 24" "min (min d c) 30 = min d c"
    using assms by auto
  ultimately show ?thesis using s1(1) s2
    by (auto simp: server_upgrade_def Let_def CONNECTANUM_MAX_RAWSOCKET_SIZE_EXPONENT_def upgrade_bytes_def)
qed

lemma server_upgrade_declined:
  assumes "looks s app written" and "app = [] \<or> hd app \<noteq> RAWSOCKET_UPGRADE_MAGIC"
  shows "\<exists>s'. server_upgrade pull push d r s = (s', Inr (r, False)) \<and> looks s' app written"
proof (cases "length app < 2")
  case True
  from fill_idle [OF assms(1) True] show ?thesis by (auto simp: server_upgrade_def looks_def)
next
  case False
  then obtain a b coming where app: "app = a # b # coming" by (metis length_Cons lessI list.exhaust list.size(3) not_less_eq numeral_2_eq_2 zero_less_Suc)
  from fill_two [OF assms(1) [unfolded app]] obtain s1 where
    "fill (poll_read pull) 2 s = (s1, [a, b], None)" "looks s1 coming written" by blast
  with assms(2) app show ?thesis by (auto simp: server_upgrade_def looks_def)
qed

text \<open>After a valid greeting the server has answered it and goes on to the optional upgrade.\<close>

lemma negotiate_greets:
  assumes l: "looks s (hello_bytes i b @ coming) written" and i: "serializer_from_wire_id i = Some ser"
    and b: "9 \<le> b" "b \<le> 24" and m: "9 \<le> m"
  shows "\<exists>s'. looks s' coming (written @ hello_bytes i (min b (min m 24))) \<and>
    negotiate pull push clone_fd m s =
      (if min m 30 > min b (min m 24) \<and> b \<ge> 24 then
         (case server_upgrade pull push (min m 30) (min b (min m 24)) s' of
            (s3, Inl e) \<Rightarrow> (s3, Inl e)
          | (s3, Inr (final_exponent, up)) \<Rightarrow> finish_session clone_fd ser final_exponent up s3)
       else finish_session clone_fd ser (min b (min m 24)) False s')"
proof -
  obtain s1 where s1: "read_with_timeout pull 4 s = (s1, Inr (hello_bytes i b))" "looks s1 coming written"
    using read_with_timeout_looks [OF l] by auto
  obtain s2 where s2: "poll_write push (hello_bytes i (min b (min m 24))) s1 = (s2, None)"
    "looks s2 coming (written @ hello_bytes i (min b (min m 24)))"
    using poll_write_looks [OF s1(2)] by blast
  have nib: "(hello_bytes i b ! 1) AND 0x0F = i" "unat (drop_bit 4 ((hello_bytes i b ! 1) AND 0xF0)) + 9 = b"
    using nibbles [OF _ i, of "b - 9"] b by (simp_all add: hello_bytes_def)
  define r where "r = min b (min (min m 30) 24)"
  have r: "r = min b (min m 24)" "\<not> r < 9" "min (r - 9) 15 = r - 9" using b m by (auto simp: r_def)
  have fixed: "hello_bytes i b ! 0 = RAWSOCKET_MAGIC" "hello_bytes i b ! 2 = 0" "hello_bytes i b ! 3 = 0"
    by (simp_all add: hello_bytes_def)
  have reply: "[RAWSOCKET_MAGIC, push_bit 4 (of_nat (min (r - 9) 15)) OR i, 0, 0] = hello_bytes i r"
    unfolding r(3) by (simp add: hello_bytes_def)
  have "negotiate pull push clone_fd m s =
      (case poll_write push (hello_bytes i r) s1 of
         (s'', Some e) \<Rightarrow> (s'', Inl (Handshake_Io e))
       | (s'', None) \<Rightarrow>
           if min m 30 > r \<and> b \<ge> 24 then
             (case server_upgrade pull push (min m 30) r s'' of
                (s3, Inl e) \<Rightarrow> (s3, Inl e)
              | (s3, Inr (final_exponent, up)) \<Rightarrow> finish_session clone_fd ser final_exponent up s3)
           else finish_session clone_fd ser r False s'')"
    unfolding negotiate_def Let_def s1(1) prod.case sum.case CONNECTANUM_MAX_RAWSOCKET_SIZE_EXPONENT_def
      nib i option.case r_def [symmetric] reply
    using r(2) by (simp add: fixed del: min_less_iff_conj)
  with s2 r(1) show ?thesis by auto
qed

text \<open>The client writes its greeting, accepts the answer and goes on to its own upgrade.\<close>

lemma connect_greets:
  assumes l: "looks s (hello_bytes i r @ coming) written" and i: "serializer_from_wire_id i = Some ser"
    and r: "9 \<le> r" "r \<le> 24" and c: "9 \<le> c"
  shows "\<exists>s'. looks s' coming (written @ hello_bytes i (min c 24)) \<and>
    connect pull push clone_fd ser c s =
      (if c > 24 \<and> r \<ge> 24 then
         (case client_upgrade pull push (min c 30) s' of
            (s3, Inl e) \<Rightarrow> (s3, Inl e)
          | (s3, Inr final) \<Rightarrow> finish_session clone_fd ser final True s3)
       else finish_session clone_fd ser r False s')"
proof -
  obtain s1 where s1: "poll_write push (hello_bytes i (min c 24)) s = (s1, None)"
    "looks s1 (hello_bytes i r @ coming) (written @ hello_bytes i (min c 24))"
    using poll_write_looks [OF l] by blast
  obtain s2 where s2: "read_with_timeout pull 4 s1 = (s2, Inr (hello_bytes i r))"
    "looks s2 coming (written @ hello_bytes i (min c 24))"
    using read_with_timeout_looks [OF s1(2)] by auto
  have nib: "(hello_bytes i r ! 1) AND 0x0F = i" "unat (drop_bit 4 ((hello_bytes i r ! 1) AND 0xF0)) + 9 = r" "i \<noteq> 0"
    using nibbles [OF _ i, of "r - 9"] r by (simp_all add: hello_bytes_def)
  then have acc: "accept_response ser (hello_bytes i r) = Inr r"
    using i by (simp add: accept_response_def) (simp add: hello_bytes_def)
  have hello: "[RAWSOCKET_MAGIC, push_bit 4 (of_nat (min (min (min c 30) 24 - 9) 15)) OR i, 0, 0] = hello_bytes i (min c 24)"
    using c by (auto simp: hello_bytes_def min_def)
  have w: "write_with_timeout push x (hello_bytes i (min c 24)) s = (s1, None)" for x
    using s1(1) by (simp add: write_with_timeout_def)
  have id: "serializer_to_wire_id ser = Some i" using i wire_id_roundtrip by simp
  have "connect pull push clone_fd ser c s =
      (if c > 24 \<and> r \<ge> 24 then
         (case client_upgrade pull push (min c 30) s2 of
            (s3, Inl e) \<Rightarrow> (s3, Inl e)
          | (s3, Inr final) \<Rightarrow> finish_session clone_fd ser final True s3)
       else finish_session clone_fd ser r False s2)"
    unfolding connect_def Let_def CONNECTANUM_MAX_RAWSOCKET_SIZE_EXPONENT_def id option.case hello w prod.case s2(1) sum.case acc
    by simp
  with s2(2) show ?thesis by blast
qed

lemma client_upgrade_accepted:
  assumes "looks s (upgrade_bytes e @ coming) written" and "25 \<le> e" "e \<le> 30" "25 \<le> c" "c \<le> 30"
  shows "\<exists>s'. client_upgrade pull push c s = (s', Inr e) \<and> looks s' coming (written @ upgrade_bytes c)"
proof -
  obtain s1 where s1: "poll_write push (upgrade_bytes c) s = (s1, None)"
    "looks s1 (upgrade_bytes e @ coming) (written @ upgrade_bytes c)"
    using poll_write_looks [OF assms(1)] by blast
  obtain s2 where s2: "read_with_timeout pull 2 s1 = (s2, Inr (upgrade_bytes e))" "looks s2 coming (written @ upgrade_bytes c)"
    using read_with_timeout_looks [OF s1(2)] by auto
  have "unat ((of_nat (e - 25) :: byte) AND 0x0F AND 0x0F) = e - 25" using assms(3) by (intro low_nibble) simp
  moreover have "min (c - 25) 15 = c - 25" using assms(5) by simp
  ultimately show ?thesis using s1(1) s2 assms(2)
    by (auto simp: client_upgrade_def write_with_timeout_def upgrade_bytes_def)
qed

end

text \<open>The bytes that the two sides exchange.\<close>

definition client_transcript :: "byte \<Rightarrow> nat \<Rightarrow> nat \<Rightarrow> byte list" where
  "client_transcript i c m = hello_bytes i (min c 24) @ (if c > 24 \<and> m \<ge> 24 then upgrade_bytes (min c 30) else [])"

definition server_transcript :: "byte \<Rightarrow> nat \<Rightarrow> nat \<Rightarrow> byte list" where
  "server_transcript i c m =
     hello_bytes i (min (min c 24) m) @ (if c > 24 \<and> m > 24 then upgrade_bytes (min (min m 30) (min c 30)) else [])"

context duplex
begin

lemma server_agrees:
  assumes i: "serializer_from_wire_id i = Some ser" and cm: "9 \<le> c" "9 \<le> m" "\<not> (c > 24 \<and> m = 24)"
    and fd: "\<And>s. \<exists>fd. clone_fd s = Inr fd"
    and l: "looks s (client_transcript i c m @ app) []" and app: "app = [] \<or> hd app \<noteq> RAWSOCKET_UPGRADE_MAGIC"
  shows "\<exists>s' x. negotiate pull push clone_fd m s = (s', Inr x) \<and> agreed x ser (min (min c m) 30)
    \<and> looks s' app (server_transcript i c m)"
proof -
  let ?tail = "(if c > 24 \<and> m \<ge> 24 then upgrade_bytes (min c 30) else []) @ app"
  have "looks s (hello_bytes i (min c 24) @ ?tail) []" using l by (simp add: client_transcript_def)
  from negotiate_greets [OF this i _ _ cm(2)] cm(1) obtain s' where
    s': "looks s' ?tail (hello_bytes i (min (min c 24) (min m 24)))" and
    n: "negotiate pull push clone_fd m s =
      (if min m 30 > min (min c 24) (min m 24) \<and> min c 24 \<ge> 24 then
         (case server_upgrade pull push (min m 30) (min (min c 24) (min m 24)) s' of
            (s3, Inl e) \<Rightarrow> (s3, Inl e)
          | (s3, Inr (final_exponent, up)) \<Rightarrow> finish_session clone_fd ser final_exponent up s3)
       else finish_session clone_fd ser (min (min c 24) (min m 24)) False s')"
    by auto
  have r: "min (min c 24) (min m 24) = min (min c 24) m" by simp
  consider (both) "c > 24" "m > 24" | (declined) "c = 24" "m > 24" | (classic) "c < 24 \<or> m \<le> 24" by linarith
  then show ?thesis
  proof cases
    case both
    then have "looks s' (upgrade_bytes (min c 30) @ app) (hello_bytes i (min (min c 24) m))" using s' by (simp add: r)
    from server_upgrade_accepts [OF this, of "min m 30"] both obtain s3 where
      u: "server_upgrade pull push (min m 30) (min (min c 24) (min m 24)) s' = (s3, Inr (min (min m 30) (min c 30), True))"
      "looks s3 app (server_transcript i c m)"
      by (auto simp: server_transcript_def)
    have "min (min m 30) (min c 30) = min (min c m) 30" "min (min c m) 30 > 24" using both by auto
    moreover obtain x where "finish_session clone_fd ser (min (min c m) 30) True s3 = (s3, Inr x)" "agreed x ser (min (min c m) 30)"
      using finish_agreed [of clone_fd s3 True, OF fd] calculation(2) by blast
    ultimately show ?thesis using u n both by (intro exI [of _ s3] exI [of _ x]) simp
  next
    case declined
    then have "looks s' app (hello_bytes i (min (min c 24) m))" using s' by (simp add: r)
    from server_upgrade_declined [OF this app, of "min m 30" 24] declined obtain s3 where
      u: "server_upgrade pull push (min m 30) 24 s' = (s3, Inr (24, False))" "looks s3 app (server_transcript i c m)"
      by (auto simp: server_transcript_def)
    have "min (min c m) 30 = 24" using declined by simp
    moreover obtain x where "finish_session clone_fd ser 24 False s3 = (s3, Inr x)" "agreed x ser 24"
      using finish_agreed [of clone_fd s3 False 24, OF fd] by auto
    ultimately show ?thesis using u n declined by (intro exI [of _ s3] exI [of _ x]) simp
  next
    case classic
    then have "looks s' app (server_transcript i c m)" using s' [unfolded r] cm(3) by (auto simp: server_transcript_def)
    moreover have "\<not> (min m 30 > min (min c 24) (min m 24) \<and> min c 24 \<ge> 24)" using classic cm by auto
    moreover have "min (min c 24) (min m 24) = min (min c m) 30" "\<not> min (min c m) 30 > 24" using classic by auto
    moreover obtain x where "finish_session clone_fd ser (min (min c m) 30) False s' = (s', Inr x)" "agreed x ser (min (min c m) 30)"
      using finish_agreed [of clone_fd s' False, OF fd] calculation by blast
    ultimately show ?thesis using n by (intro exI [of _ s'] exI [of _ x]) auto
  qed
qed

lemma client_agrees:
  assumes i: "serializer_from_wire_id i = Some ser" and cm: "9 \<le> c" "9 \<le> m" "\<not> (c > 24 \<and> m = 24)"
    and fd: "\<And>s. \<exists>fd. clone_fd s = Inr fd"
    and l: "looks s (server_transcript i c m @ app) []"
  shows "\<exists>s' x. connect pull push clone_fd ser c s = (s', Inr x) \<and> agreed x ser (min (min c m) 30)
    \<and> looks s' app (client_transcript i c m)"
proof -
  let ?tail = "(if c > 24 \<and> m > 24 then upgrade_bytes (min (min m 30) (min c 30)) else []) @ app"
  have "looks s (hello_bytes i (min (min c 24) m) @ ?tail) []" using l by (simp add: server_transcript_def)
  moreover have "9 \<le> min (min c 24) m" "min (min c 24) m \<le> 24" using cm by auto
  ultimately obtain s' where
    s': "looks s' ?tail (hello_bytes i (min c 24))" and
    n: "connect pull push clone_fd ser c s =
      (if c > 24 \<and> min (min c 24) m \<ge> 24 then
         (case client_upgrade pull push (min c 30) s' of
            (s3, Inl e) \<Rightarrow> (s3, Inl e)
          | (s3, Inr final) \<Rightarrow> finish_session clone_fd ser final True s3)
       else finish_session clone_fd ser (min (min c 24) m) False s')"
    using connect_greets [OF _ i _ _ cm(1), of s "min (min c 24) m" ?tail "[]" clone_fd] by auto
  show ?thesis
  proof (cases "c > 24 \<and> m > 24")
    case True
    let ?e = "min (min m 30) (min c 30)"
    have e: "25 \<le> ?e" "?e \<le> 30" "25 \<le> min c 30" "min c 30 \<le> 30" "?e = min (min c m) 30" using True by auto
    have "looks s' (upgrade_bytes ?e @ app) (hello_bytes i (min c 24))" using s' True by simp
    from client_upgrade_accepted [OF this e(1-4)] obtain s3 where
      "client_upgrade pull push (min c 30) s' = (s3, Inr ?e)" "looks s3 app (client_transcript i c m)"
      using True by (auto simp: client_transcript_def)
    moreover obtain x where "finish_session clone_fd ser ?e True s3 = (s3, Inr x)" "agreed x ser ?e"
      using finish_agreed [of clone_fd s3 True ?e, OF fd] e(1) by auto
    ultimately show ?thesis using n e(5) True by (intro exI [of _ s3] exI [of _ x]) simp
  next
    case False
    then have "\<not> (c > 24 \<and> min (min c 24) m \<ge> 24)" using cm(3) by auto
    moreover have "min (min c 24) m = min (min c m) 30" "\<not> min (min c m) 30 > 24" using False by auto
    moreover have "looks s' app (client_transcript i c m)" using s' False cm(3) by (auto simp: client_transcript_def)
    moreover obtain x where "finish_session clone_fd ser (min (min c m) 30) False s' = (s', Inr x)" "agreed x ser (min (min c m) 30)"
      using finish_agreed [of clone_fd s' False, OF fd] calculation by blast
    ultimately show ?thesis using n by (intro exI [of _ s'] exI [of _ x]) auto
  qed
qed

lemma client_upgrade_unanswered:
  assumes "looks s [] written" and "25 \<le> c" "c \<le> 30"
  shows "\<exists>s'. client_upgrade pull push c s = (s', Inl (Handshake_Protocol ''rawsocket handshake timed out''))
    \<and> looks s' [] (written @ upgrade_bytes c)"
proof -
  obtain s1 where s1: "poll_write push (upgrade_bytes c) s = (s1, None)" "looks s1 [] (written @ upgrade_bytes c)"
    using poll_write_looks [OF assms(1)] by blast
  obtain s2 where s2: "fill (poll_read pull) 2 s1 = (s2, [], Some Elapsed)" "looks s2 [] (written @ upgrade_bytes c)"
    using fill_idle [OF s1(2), of 2] by auto
  moreover have "min (c - 25) 15 = c - 25" using assms(3) by simp
  ultimately show ?thesis using s1(1)
    by (auto simp: client_upgrade_def write_with_timeout_def read_with_timeout_def read_exact_def upgrade_bytes_def)
qed

end

text \<open>C7: The two sides of the handshake agree. Whatever serializer the client wants and
  whatever maxima the two sides are configured with (at least 9, as the configuration
  enforces), when each side reads what the other one writes, both finish with the same
  serializer, the same exponent (the smaller of the two maxima, at most 30) and the same
  framing, and application bytes that arrive right behind the handshake are neither lost nor
  reordered, even where the server has to look ahead for an upgrade that does not come. The
  one configuration left out is a client above 24 at a server of exactly 24.\<close>

theorem handshake_agreement:
  assumes link: "duplex pull rest push out idle"
    and ser: "serializer_to_wire_id ser = Some i"
    and maxima: "9 \<le> c" "9 \<le> m" "\<not> (c > 24 \<and> m = 24)"
    and fd: "\<And>s. \<exists>fd. clone_fd s = Inr fd"
    and server: "pending rest sv = client_transcript i c m @ to_server" "out (inner sv) = []" "idle (inner sv)"
    and client: "pending rest cl = server_transcript i c m @ to_client" "out (inner cl) = []" "idle (inner cl)"
    and frame: "to_server = [] \<or> hd to_server \<noteq> RAWSOCKET_UPGRADE_MAGIC"
  shows "(\<exists>sv' x. negotiate pull push clone_fd m sv = (sv', Inr x) \<and> agreed x ser (min (min c m) 30)
      \<and> pending rest sv' = to_server \<and> out (inner sv') = server_transcript i c m)
    \<and> (\<exists>cl' y. connect pull push clone_fd ser c cl = (cl', Inr y) \<and> agreed y ser (min (min c m) 30)
      \<and> pending rest cl' = to_client \<and> out (inner cl') = client_transcript i c m)"
proof -
  have i: "serializer_from_wire_id i = Some ser" using ser wire_id_roundtrip by simp
  have "duplex.looks rest out idle sv (client_transcript i c m @ to_server) []"
    "duplex.looks rest out idle cl (server_transcript i c m @ to_client) []"
    using server client by (simp_all add: duplex.looks_def [OF link])
  with duplex.server_agrees [OF link i maxima, of clone_fd sv to_server, OF fd _ frame]
    duplex.client_agrees [OF link i maxima, of clone_fd cl to_client, OF fd]
  show ?thesis unfolding duplex.looks_def [OF link] by blast
qed

theorem handshake_agreement_witness:
  "(\<exists>w x. negotiate wire_pull wire_push (\<lambda>_. Inr True) 28
      (plain \<lparr>chunks = [client_transcript 3 26 28, [0]], silent = True, sent = []\<rparr>) = (w, Inr x) \<and> agreed x Cbor 26)
   \<and> (\<exists>w y. connect wire_pull wire_push (\<lambda>_. Inr True) Cbor 26
      (plain \<lparr>chunks = [server_transcript 3 26 28], silent = True, sent = []\<rparr>) = (w, Inr y) \<and> agreed y Cbor 26)"
proof -
  have fd: "\<exists>fd. (\<lambda>_. Inr True :: stream_error + bool) s = Inr fd" for s :: "wire io_stream" by blast
  show ?thesis
    using handshake_agreement [OF wire.duplex_axioms, of Cbor 3 26 28, OF _ _ _ _ fd,
      of "plain \<lparr>chunks = [client_transcript 3 26 28, [0]], silent = True, sent = []\<rparr>" "[0]"
      "plain \<lparr>chunks = [server_transcript 3 26 28], silent = True, sent = []\<rparr>" "[]"]
    by (auto simp: wire_rest_def RAWSOCKET_UPGRADE_MAGIC_def)
qed

text \<open>C40: The configuration that is left out does not work. A client that may exceed 16 MiB
  asks a server whose maximum is exactly 16 MiB for the upgrade, because the server's answer
  looks the same as that of a server that supports it; the server has already finished and
  keeps the request as the beginning of a frame, which its reader refuses, and the client waits
  for an answer until its timer fires.\<close>

theorem upgrade_at_standard_server_fails:
  assumes link: "duplex pull rest push out idle"
    and ser: "serializer_to_wire_id ser = Some i" and c: "24 < c" and fd: "\<And>s. \<exists>fd. clone_fd s = Inr fd"
    and server: "pending rest sv = client_transcript i c 24" "out (inner sv) = []" "idle (inner sv)"
    and client: "pending rest cl = hello_bytes i 24" "out (inner cl) = []" "idle (inner cl)"
  shows "(\<exists>sv' x. negotiate pull push clone_fd 24 sv = (sv', Inr x) \<and> agreed x ser 24
      \<and> pending rest sv' = upgrade_bytes (min c 30) \<and> out (inner sv') = hello_bytes i 24)
    \<and> (\<exists>cl'. connect pull push clone_fd ser c cl = (cl', Inl (Handshake_Protocol ''rawsocket handshake timed out''))
      \<and> out (inner cl') = client_transcript i c 24)
    \<and> classic_header (upgrade_bytes (min c 30) @ more_bytes) = Inl (Frame_Protocol ''reserved bits must be zero'')"
proof -
  have i: "serializer_from_wire_id i = Some ser" using ser wire_id_roundtrip by simp
  note looks = duplex.looks_def [OF link]
  have sv: "duplex.looks rest out idle sv (hello_bytes i 24 @ upgrade_bytes (min c 30)) []"
    and cl: "duplex.looks rest out idle cl (hello_bytes i 24 @ []) []"
    using server client c by (simp_all add: looks client_transcript_def)
  obtain sv' where "pending rest sv' = upgrade_bytes (min c 30)" "out (inner sv') = hello_bytes i 24"
    "negotiate pull push clone_fd 24 sv = finish_session clone_fd ser 24 False sv'"
    using duplex.negotiate_greets [OF link sv i, of 24 clone_fd] by (auto simp: looks)
  moreover obtain x where "finish_session clone_fd ser 24 False sv' = (sv', Inr x)" "agreed x ser 24"
    using finish_agreed [of clone_fd sv' False 24, OF fd] by auto
  moreover obtain cl1 where cl1: "duplex.looks rest out idle cl1 [] (hello_bytes i 24)"
    and con: "connect pull push clone_fd ser c cl =
      (case client_upgrade pull push (min c 30) cl1 of
         (s3, Inl e) \<Rightarrow> (s3, Inl e)
       | (s3, Inr final) \<Rightarrow> finish_session clone_fd ser final True s3)"
    using duplex.connect_greets [OF link cl i, of c clone_fd] c by auto
  moreover obtain cl2 where "client_upgrade pull push (min c 30) cl1 = (cl2, Inl (Handshake_Protocol ''rawsocket handshake timed out''))"
    "out (inner cl2) = client_transcript i c 24"
    using duplex.client_upgrade_unanswered [OF link cl1, of "min c 30"] c by (auto simp: looks client_transcript_def)
  moreover have "classic_header (upgrade_bytes (min c 30) @ more_bytes) = Inl (Frame_Protocol ''reserved bits must be zero'')"
    by (simp add: classic_header_def upgrade_bytes_def RAWSOCKET_UPGRADE_MAGIC_def)
  ultimately show ?thesis by auto
qed

theorem upgrade_at_standard_server_fails_witness:
  "\<exists>w. connect wire_pull wire_push (\<lambda>_. Inr True) Json 30 (plain \<lparr>chunks = [hello_bytes 1 24], silent = True, sent = []\<rparr>) =
     (w, Inl (Handshake_Protocol ''rawsocket handshake timed out''))"
proof -
  have fd: "\<exists>fd. (\<lambda>_. Inr True :: stream_error + bool) s = Inr fd" for s :: "wire io_stream" by blast
  show ?thesis
    using upgrade_at_standard_server_fails [OF wire.duplex_axioms, of Json 1 30, OF _ _ fd,
      of "plain \<lparr>chunks = [client_transcript 1 30 24], silent = True, sent = []\<rparr>"
      "plain \<lparr>chunks = [hello_bytes 1 24], silent = True, sent = []\<rparr>"]
    by (auto simp: wire_rest_def)
qed

text \<open>The client takes the exponent of the upgrade from the answer as it is: an answer above
  what it asked for, even above the limit of 30, is accepted.\<close>

lemma client_trusts_upgrade_answer:
  "snd (client_upgrade wire_pull wire_push 26 (plain \<lparr>chunks = [[0x3F, 0x0F]], silent = True, sent = []\<rparr>)) = Inr 40"
  by code_simp

end
