(* ===== verification/Write_Receipts.thy ===== *)
theory Write_Receipts
  imports Owned_Buffers Outbound_Frames
begin

text \<open>
  Write receipts: the completion of a queued frame (\<^verbatim>\<open>ct_core/src/write_completion.rs\<close>), the
  queues of the connections and the tracked senders (\<^verbatim>\<open>ct_core/src/lib.rs\<close>), and the bounded
  table of receipts that the C interface gives out (\<^verbatim>\<open>ct_ffi/src/runtime/write_receipts.rs\<close>).
  A watch channel is a cell that its guard settles once and its receipts read; cells are
  numbered. The table is modelled operation by operation and with its atomic steps
  interleaved by any number of callers.
\<close>

section \<open>Completions\<close>

text \<open>A guard is the number of its cell as long as it has not settled it.\<close>

type_synonym outcome_cells = "write_outcome list"

definition guard_new :: "outcome_cells \<Rightarrow> outcome_cells \<times> nat" where
  "guard_new cells = (cells @ [Pending], length cells)"

definition guard_written :: "nat option \<Rightarrow> outcome_cells \<Rightarrow> outcome_cells" where
  "guard_written sender cells = (case sender of None \<Rightarrow> cells | Some g \<Rightarrow> cells[g := Written])"

definition guard_drop :: "nat option \<Rightarrow> outcome_cells \<Rightarrow> outcome_cells" where
  "guard_drop sender cells = (case sender of None \<Rightarrow> cells | Some g \<Rightarrow> cells[g := Abandoned])"

definition receipt_outcome :: "nat \<Rightarrow> outcome_cells \<Rightarrow> write_outcome" where
  "receipt_outcome g cells = cells ! g"

text \<open>\<open>wait\<close> on the values that the channel shows one after the other before it is closed.\<close>

primrec receipt_wait :: "write_outcome list \<Rightarrow> write_outcome" where
  "receipt_wait [] = Abandoned"
| "receipt_wait (v # vs) = (if v \<noteq> Pending then v else receipt_wait vs)"

text \<open>A writer task calls \<open>written\<close> for a frame that is sent and flushed; every other frame is
  dropped with its guard.\<close>

primrec settle :: "(outbound_frame \<times> write_outcome) list \<Rightarrow> outcome_cells \<Rightarrow> outcome_cells" where
  "settle [] cells = cells"
| "settle (x # xs) cells =
     settle xs (if snd x = Written then guard_written (completion (fst x)) cells else guard_drop (completion (fst x)) cells)"

section \<open>Connections\<close>

record send_queue =
  queued :: "outbound_frame list"
  queue_capacity :: nat
  queue_open :: bool

datatype connection_record = RawSocket bool send_queue | WebSocket send_queue | Mqtt | WebSocketPending | HttpPending
  | Http2Pending | Http3Pending

text \<open>The runtime, when it is started, and the cells of all completions.\<close>

record runtime =
  connections :: "(u32 \<rightharpoonup> connection_record) option"
  outcomes :: outcome_cells

definition try_send :: "u32 \<Rightarrow> outbound_frame \<Rightarrow> send_queue \<Rightarrow> core_error + send_queue" where
  "try_send cid f q =
     (if \<not> queue_open q then Inl (Connection_Not_Found cid)
      else if length (queued q) \<ge> queue_capacity q then Inl (Send_Queue_Full cid)
      else Inr (q\<lparr>queued := queued q @ [f]\<rparr>))"

definition enqueue_frame ::
  "u32 \<Rightarrow> outbound_frame \<Rightarrow> (u32 \<rightharpoonup> connection_record) \<Rightarrow> core_error + (u32 \<rightharpoonup> connection_record)" where
  "enqueue_frame cid f conns =
     (case conns cid of
        None \<Rightarrow> Inl (Connection_Not_Found cid)
      | Some (RawSocket files q) \<Rightarrow>
          (case try_send cid f q of Inl e \<Rightarrow> Inl e | Inr q' \<Rightarrow> Inr (conns(cid \<mapsto> RawSocket files q')))
      | Some (WebSocket q) \<Rightarrow>
          (case try_send cid f q of Inl e \<Rightarrow> Inl e | Inr q' \<Rightarrow> Inr (conns(cid \<mapsto> WebSocket q')))
      | Some _ \<Rightarrow> Inl (Unsupported_Protocol cid))"

definition enqueue_file_frame ::
  "u32 \<Rightarrow> outbound_frame \<Rightarrow> (u32 \<rightharpoonup> connection_record) \<Rightarrow> core_error + (u32 \<rightharpoonup> connection_record)" where
  "enqueue_file_frame cid f conns =
     (case conns cid of
        None \<Rightarrow> Inl (Connection_Not_Found cid)
      | Some (RawSocket True q) \<Rightarrow>
          (case try_send cid f q of Inl e \<Rightarrow> Inl e | Inr q' \<Rightarrow> Inr (conns(cid \<mapsto> RawSocket True q')))
      | Some (WebSocket q) \<Rightarrow>
          (case try_send cid f q of Inl e \<Rightarrow> Inl e | Inr q' \<Rightarrow> Inr (conns(cid \<mapsto> WebSocket q')))
      | Some _ \<Rightarrow> Inl (Unsupported_Protocol cid))"

text \<open>\<open>with_state\<close> and what happens to a frame that is refused: its completion is dropped.\<close>

definition submit_frame ::
  "((u32 \<rightharpoonup> connection_record) \<Rightarrow> core_error + (u32 \<rightharpoonup> connection_record)) \<Rightarrow> outbound_frame \<Rightarrow> runtime \<Rightarrow>
   runtime \<times> core_error option" where
  "submit_frame enqueue f rt =
     (case (case connections rt of None \<Rightarrow> Inl Runtime_Not_Started | Some conns \<Rightarrow> enqueue conns) of
        Inl e \<Rightarrow> (rt\<lparr>outcomes := guard_drop (completion f) (outcomes rt)\<rparr>, Some e)
      | Inr conns \<Rightarrow> (rt\<lparr>connections := Some conns\<rparr>, None))"

definition send_wamp_message :: "u32 \<Rightarrow> byte list \<Rightarrow> runtime \<Rightarrow> runtime \<times> core_error option" where
  "send_wamp_message cid payload rt = submit_frame (enqueue_frame cid (message payload)) (message payload) rt"

definition send_wamp_segments :: "u32 \<Rightarrow> byte list list \<Rightarrow> runtime \<Rightarrow> runtime \<times> core_error option" where
  "send_wamp_segments cid ss rt = submit_frame (enqueue_frame cid (message_segments ss)) (message_segments ss) rt"

definition submit_tracked_frame :: "u32 \<Rightarrow> outbound_frame \<Rightarrow> runtime \<Rightarrow> runtime \<times> (core_error + nat)" where
  "submit_tracked_frame cid f rt =
     (case guard_new (outcomes rt) of
        (cells, g) \<Rightarrow>
          (case submit_frame (enqueue_frame cid (tracked g f)) (tracked g f) (rt\<lparr>outcomes := cells\<rparr>) of
             (rt', Some e) \<Rightarrow> (rt', Inl e)
           | (rt', None) \<Rightarrow> (rt', Inr g)))"

definition send_wamp_message_tracked :: "u32 \<Rightarrow> byte list \<Rightarrow> runtime \<Rightarrow> runtime \<times> (core_error + nat)" where
  "send_wamp_message_tracked cid payload rt = submit_tracked_frame cid (message payload) rt"

definition send_wamp_segments_tracked :: "u32 \<Rightarrow> byte list list \<Rightarrow> runtime \<Rightarrow> runtime \<times> (core_error + nat)" where
  "send_wamp_segments_tracked cid ss rt = submit_tracked_frame cid (message_segments ss) rt"

definition drain_wamp_writes :: "u32 \<Rightarrow> runtime \<Rightarrow> runtime \<times> (core_error + nat)" where
  "drain_wamp_writes cid rt = submit_tracked_frame cid barrier rt"

definition send_wamp_deferred_segment_with_suffix ::
  "u32 \<Rightarrow> byte list \<Rightarrow> nat \<Rightarrow> byte list \<Rightarrow> prepared \<Rightarrow> runtime \<Rightarrow> runtime \<times> core_error option" where
  "send_wamp_deferred_segment_with_suffix cid prefix deferred_len suffix prepare rt =
     (case message_deferred_segment_with_suffix prefix deferred_len suffix prepare of
        Inl e \<Rightarrow> (rt, Some e)
      | Inr f \<Rightarrow> submit_frame (enqueue_frame cid f) f rt)"

definition send_wamp_deferred_segment ::
  "u32 \<Rightarrow> byte list \<Rightarrow> nat \<Rightarrow> prepared \<Rightarrow> runtime \<Rightarrow> runtime \<times> core_error option" where
  "send_wamp_deferred_segment cid prefix deferred_len prepare rt =
     (case message_deferred_segment prefix deferred_len prepare of
        Inl e \<Rightarrow> (rt, Some e)
      | Inr f \<Rightarrow> submit_frame (enqueue_frame cid f) f rt)"

text \<open>What \<open>send_wamp_file_segment\<close> and \<open>send_wamp_base64_file_segment\<close> share; \<open>file_len\<close> is the
  length that the file system answers, or a failure.\<close>

definition send_file_range ::
  "(byte list \<Rightarrow> nat option) \<Rightarrow> file_segment_encoding \<Rightarrow> u32 \<Rightarrow> byte list \<Rightarrow> byte list \<Rightarrow> nat \<Rightarrow> nat \<Rightarrow> byte list \<Rightarrow> runtime \<Rightarrow>
   runtime \<times> core_error option" where
  "send_file_range file_len enc cid prefix file off len suffix rt =
     (if off + len > u64_max then (rt, Some (Invalid_File_Segment ''file range overflow''))
      else case file_len file of
          None \<Rightarrow> (rt, Some Io_Error)
        | Some n \<Rightarrow>
            if off + len > n then (rt, Some (Invalid_File_Segment ''file range exceeds the current file length''))
            else case message_file_segment prefix file off len suffix enc of
                Inl e \<Rightarrow> (rt, Some e)
              | Inr f \<Rightarrow> submit_frame (enqueue_file_frame cid f) f rt)"

definition send_wamp_file_segment ::
  "(byte list \<Rightarrow> nat option) \<Rightarrow> u32 \<Rightarrow> byte list \<Rightarrow> byte list \<Rightarrow> nat \<Rightarrow> nat \<Rightarrow> byte list \<Rightarrow> runtime \<Rightarrow> runtime \<times> core_error option" where
  "send_wamp_file_segment file_len cid prefix file off len suffix rt = send_file_range file_len Identity cid prefix file off len suffix rt"

definition send_wamp_base64_file_segment ::
  "(byte list \<Rightarrow> nat option) \<Rightarrow> u32 \<Rightarrow> byte list \<Rightarrow> byte list \<Rightarrow> nat \<Rightarrow> nat \<Rightarrow> byte list \<Rightarrow> runtime \<Rightarrow> runtime \<times> core_error option" where
  "send_wamp_base64_file_segment file_len cid prefix file off len suffix rt = send_file_range file_len Base64 cid prefix file off len suffix rt"

section \<open>Error codes\<close>

definition ERR_UNSUPPORTED :: int where "ERR_UNSUPPORTED = -1"
definition ERR_ALREADY_STARTED :: int where "ERR_ALREADY_STARTED = -2"
definition ERR_RUNTIME_NOT_STARTED :: int where "ERR_RUNTIME_NOT_STARTED = -3"
definition ERR_LISTENER_NOT_FOUND :: int where "ERR_LISTENER_NOT_FOUND = -5"
definition ERR_CHANNEL_ALREADY_TAKEN :: int where "ERR_CHANNEL_ALREADY_TAKEN = -6"
definition ERR_ROUTER_CONFIG_INVALID :: int where "ERR_ROUTER_CONFIG_INVALID = -8"
definition ERR_ENDPOINT_NOT_CONFIGURED :: int where "ERR_ENDPOINT_NOT_CONFIGURED = -9"
definition ERR_CONNECTION_NOT_FOUND :: int where "ERR_CONNECTION_NOT_FOUND = -10"
definition ERR_UNSUPPORTED_PROTOCOL :: int where "ERR_UNSUPPORTED_PROTOCOL = -12"
definition ERR_HANDSHAKE_CONSUMED :: int where "ERR_HANDSHAKE_CONSUMED = -13"
definition ERR_SEND_QUEUE_FULL :: int where "ERR_SEND_QUEUE_FULL = -17"
definition ERR_WRITE_RECEIPT_QUOTA_EXCEEDED :: int where "ERR_WRITE_RECEIPT_QUOTA_EXCEEDED = -25"

lemmas error_codes = SUCCESS_def ERR_INVALID_ARGUMENT_def ERR_IO_def ERR_HANDLE_UNAVAILABLE_def ERR_UNSUPPORTED_def
  ERR_ALREADY_STARTED_def ERR_RUNTIME_NOT_STARTED_def ERR_LISTENER_NOT_FOUND_def ERR_CHANNEL_ALREADY_TAKEN_def
  ERR_ROUTER_CONFIG_INVALID_def ERR_ENDPOINT_NOT_CONFIGURED_def ERR_CONNECTION_NOT_FOUND_def ERR_UNSUPPORTED_PROTOCOL_def
  ERR_HANDSHAKE_CONSUMED_def ERR_SEND_QUEUE_FULL_def ERR_WRITE_RECEIPT_QUOTA_EXCEEDED_def

primrec map_error :: "core_error \<Rightarrow> int" where
  "map_error Runtime_Already_Started = ERR_ALREADY_STARTED"
| "map_error Runtime_Not_Started = ERR_RUNTIME_NOT_STARTED"
| "map_error Invalid_Backlog = ERR_INVALID_ARGUMENT"
| "map_error (Listener_Not_Found _) = ERR_LISTENER_NOT_FOUND"
| "map_error (Accept_Channel_Already_Taken _) = ERR_CHANNEL_ALREADY_TAKEN"
| "map_error (Address_Resolution _ _) = ERR_INVALID_ARGUMENT"
| "map_error Unsupported_Platform = ERR_UNSUPPORTED"
| "map_error (Router_Config_Invalid _) = ERR_ROUTER_CONFIG_INVALID"
| "map_error (Endpoint_Not_Configured _ _) = ERR_ENDPOINT_NOT_CONFIGURED"
| "map_error (Connection_Not_Found _) = ERR_CONNECTION_NOT_FOUND"
| "map_error (Unsupported_Protocol _) = ERR_UNSUPPORTED_PROTOCOL"
| "map_error (Handshake_Already_Taken _) = ERR_HANDSHAKE_CONSUMED"
| "map_error (Connection_Handle_Unavailable _) = ERR_HANDLE_UNAVAILABLE"
| "map_error (Http3_Response_Send _) = ERR_IO"
| "map_error (Send_Queue_Full _) = ERR_SEND_QUEUE_FULL"
| "map_error (Invalid_Runtime_Thread_Count _) = ERR_INVALID_ARGUMENT"
| "map_error (Invalid_File_Segment _) = ERR_INVALID_ARGUMENT"
| "map_error (Invalid_Deferred_Segment _) = ERR_INVALID_ARGUMENT"
| "map_error Io_Error = ERR_IO"

section \<open>The table of receipts\<close>

definition MAX_RECEIPTS :: nat where "MAX_RECEIPTS = 8192"

text \<open>An entry without a receipt is a reservation.\<close>

record receipt_store =
  handles :: "(u32, nat option) handle_table"
  live :: nat
  maximum :: nat

definition new_store :: "nat \<Rightarrow> receipt_store" where
  "new_store m = \<lparr>handles = \<lparr>next_id = 1, entries = Map.empty\<rparr>, live = 0, maximum = m\<rparr>"

text \<open>\<open>fetch_sub\<close> wraps.\<close>

definition fetch_sub :: "nat \<Rightarrow> nat" where
  "fetch_sub n = (if n = 0 then usize_max else n - 1)"

definition receipt_reserve :: "receipt_store \<Rightarrow> receipt_store \<times> (int + u32)" where
  "receipt_reserve st =
     (if \<not> live st < maximum st then (st, Inl ERR_WRITE_RECEIPT_QUOTA_EXCEEDED)
      else case insert_resource None (handles st) of
          (t, Inr h) \<Rightarrow> (st\<lparr>handles := t, live := live st + 1\<rparr>, Inr h)
        | (t, Inl _) \<Rightarrow> (st\<lparr>handles := t, live := fetch_sub (live st + 1)\<rparr>, Inl ERR_HANDLE_UNAVAILABLE))"

primrec outcome_code :: "write_outcome \<Rightarrow> int" where
  "outcome_code Pending = 0"
| "outcome_code Written = 1"
| "outcome_code Abandoned = 2"

definition receipt_state :: "u32 \<Rightarrow> receipt_store \<Rightarrow> outcome_cells \<Rightarrow> int + int" where
  "receipt_state h st cells =
     (if sint h \<le> 0 then Inl ERR_INVALID_ARGUMENT
      else case entries (handles st) h of
          Some (Some g) \<Rightarrow> Inr (outcome_code (receipt_outcome g cells))
        | _ \<Rightarrow> Inl ERR_INVALID_ARGUMENT)"

definition receipt_release :: "u32 \<Rightarrow> receipt_store \<Rightarrow> receipt_store \<times> (int + unit)" where
  "receipt_release h st =
     (if sint h \<le> 0 then (st, Inl ERR_INVALID_ARGUMENT)
      else case entries (handles st) h of
          Some (Some g) \<Rightarrow> (st\<lparr>handles := fst (remove_entry h (handles st)), live := fetch_sub (live st)\<rparr>, Inr ())
        | _ \<Rightarrow> (st, Inl ERR_INVALID_ARGUMENT))"

text \<open>A reservation is committed with its receipt, where the entry is expected to exist, or
  rolled back.\<close>

definition receipt_commit :: "u32 \<Rightarrow> nat \<Rightarrow> receipt_store \<Rightarrow> (int, receipt_store \<times> int) outcome" where
  "receipt_commit h g st =
     (case entries (handles st) h of
        None \<Rightarrow> Panic
      | Some _ \<Rightarrow> Ok (st\<lparr>handles := (handles st)\<lparr>entries := (entries (handles st))(h \<mapsto> Some g)\<rparr>\<rparr>, sint h))"

definition receipt_rollback :: "u32 \<Rightarrow> receipt_store \<Rightarrow> receipt_store" where
  "receipt_rollback h st = st\<lparr>handles := fst (remove_entry h (handles st)), live := fetch_sub (live st)\<rparr>"

definition submit_tracked ::
  "(runtime \<Rightarrow> runtime \<times> (core_error + nat)) \<Rightarrow> runtime \<Rightarrow> receipt_store \<Rightarrow> runtime \<times> (int, receipt_store \<times> int) outcome" where
  "submit_tracked submit rt st =
     (case receipt_reserve st of
        (st', Inl e) \<Rightarrow> (rt, Ok (st', e))
      | (st', Inr h) \<Rightarrow>
          (case submit rt of
             (rt', Inr g) \<Rightarrow> (rt', receipt_commit h g st')
           | (rt', Inl e) \<Rightarrow> (rt', Ok (receipt_rollback h st', map_error e))))"

definition ct_owned_buffer_send_tracked ::
  "u32 \<Rightarrow> u32 \<Rightarrow> buffer_store \<Rightarrow> runtime \<Rightarrow> receipt_store \<Rightarrow> buffer_store \<times> runtime \<times> (int, receipt_store \<times> int) outcome" where
  "ct_owned_buffer_send_tracked connection buffer bufs rt st =
     (case take_frozen buffer bufs of
        (bufs', Ok payload) \<Rightarrow> (bufs', submit_tracked (send_wamp_message_tracked connection payload) rt st)
      | (bufs', Err e) \<Rightarrow> (bufs', rt, Ok (st, e))
      | (bufs', Panic) \<Rightarrow> (bufs', rt, Panic))"

definition ct_connection_drain_writes :: "u32 \<Rightarrow> runtime \<Rightarrow> receipt_store \<Rightarrow> runtime \<times> (int, receipt_store \<times> int) outcome" where
  "ct_connection_drain_writes connection rt st = submit_tracked (drain_wamp_writes connection) rt st"

definition ct_write_receipt_state :: "u32 \<Rightarrow> receipt_store \<Rightarrow> outcome_cells \<Rightarrow> int" where
  "ct_write_receipt_state h st cells = (case receipt_state h st cells of Inl e \<Rightarrow> e | Inr c \<Rightarrow> c)"

definition ct_write_receipt_release :: "u32 \<Rightarrow> receipt_store \<Rightarrow> receipt_store \<times> int" where
  "ct_write_receipt_release h st = (case receipt_release h st of (st', Inr _) \<Rightarrow> (st', SUCCESS) | (st', Inl e) \<Rightarrow> (st', e))"

definition ct_write_receipt_finalizer :: "nat \<Rightarrow> receipt_store \<Rightarrow> receipt_store" where
  "ct_write_receipt_finalizer token st =
     (if 0 < token \<and> token \<le> i32_max then fst (receipt_release (of_nat token) st) else st)"

section \<open>Interleaved callers\<close>

text \<open>A caller that reserves counts itself, takes a number, places its entry, and then commits
  or rolls back; a caller that releases removes an entry. \<open>Leaving\<close> is a caller that has still
  to give its count back before it answers.\<close>

datatype receipt_caller = Wants | Counted | Numbered u32 | Holding u32 | Leaving int | Releasing u32 | Answered int | Crashed

record receipt_system =
  receipts :: receipt_store
  rcallers :: "receipt_caller list"

inductive receipt_step :: "receipt_system \<Rightarrow> receipt_system \<Rightarrow> bool" where
  arrive: "c = Wants \<or> c = Releasing h \<Longrightarrow> receipt_step s (s\<lparr>rcallers := rcallers s @ [c]\<rparr>)"
| count: "i < length (rcallers s) \<Longrightarrow> rcallers s ! i = Wants \<Longrightarrow> live (receipts s) < maximum (receipts s) \<Longrightarrow>
    receipt_step s \<lparr>receipts = (receipts s)\<lparr>live := live (receipts s) + 1\<rparr>, rcallers = (rcallers s)[i := Counted]\<rparr>"
| refuse: "i < length (rcallers s) \<Longrightarrow> rcallers s ! i = Wants \<Longrightarrow> \<not> live (receipts s) < maximum (receipts s) \<Longrightarrow>
    receipt_step s (s\<lparr>rcallers := (rcallers s)[i := Answered ERR_WRITE_RECEIPT_QUOTA_EXCEEDED]\<rparr>)"
| number: "i < length (rcallers s) \<Longrightarrow> rcallers s ! i = Counted \<Longrightarrow> resource_next (next_id (handles (receipts s))) = Some n \<Longrightarrow>
    receipt_step s \<lparr>receipts = (receipts s)\<lparr>handles := (handles (receipts s))\<lparr>next_id := n\<rparr>\<rparr>,
      rcallers = (rcallers s)[i := Numbered (next_id (handles (receipts s)))]\<rparr>"
| exhausted: "i < length (rcallers s) \<Longrightarrow> rcallers s ! i = Counted \<Longrightarrow> resource_next (next_id (handles (receipts s))) = None \<Longrightarrow>
    receipt_step s (s\<lparr>rcallers := (rcallers s)[i := Leaving ERR_HANDLE_UNAVAILABLE]\<rparr>)"
| fill: "i < length (rcallers s) \<Longrightarrow> rcallers s ! i = Numbered h \<Longrightarrow> place h None (handles (receipts s)) = (t, r) \<Longrightarrow>
    receipt_step s \<lparr>receipts = (receipts s)\<lparr>handles := t\<rparr>,
      rcallers = (rcallers s)[i := (case r of Some k \<Rightarrow> Holding k | None \<Rightarrow> Leaving ERR_HANDLE_UNAVAILABLE)]\<rparr>"
| commit: "i < length (rcallers s) \<Longrightarrow> rcallers s ! i = Holding h \<Longrightarrow> receipt_commit h g (receipts s) = Ok (st, c) \<Longrightarrow>
    receipt_step s \<lparr>receipts = st, rcallers = (rcallers s)[i := Answered c]\<rparr>"
| crash: "i < length (rcallers s) \<Longrightarrow> rcallers s ! i = Holding h \<Longrightarrow> receipt_commit h g (receipts s) = Panic \<Longrightarrow>
    receipt_step s (s\<lparr>rcallers := (rcallers s)[i := Crashed]\<rparr>)"
| rollback: "i < length (rcallers s) \<Longrightarrow> rcallers s ! i = Holding h \<Longrightarrow>
    receipt_step s \<lparr>receipts = (receipts s)\<lparr>handles := fst (remove_entry h (handles (receipts s)))\<rparr>,
      rcallers = (rcallers s)[i := Leaving e]\<rparr>"
| release: "i < length (rcallers s) \<Longrightarrow> rcallers s ! i = Releasing h \<Longrightarrow> 0 < sint h \<Longrightarrow> entries (handles (receipts s)) h = Some (Some g) \<Longrightarrow>
    receipt_step s \<lparr>receipts = (receipts s)\<lparr>handles := fst (remove_entry h (handles (receipts s)))\<rparr>,
      rcallers = (rcallers s)[i := Leaving SUCCESS]\<rparr>"
| unknown: "i < length (rcallers s) \<Longrightarrow> rcallers s ! i = Releasing h \<Longrightarrow>
    sint h \<le> 0 \<or> (\<forall>g. entries (handles (receipts s)) h \<noteq> Some (Some g)) \<Longrightarrow>
    receipt_step s (s\<lparr>rcallers := (rcallers s)[i := Answered ERR_INVALID_ARGUMENT]\<rparr>)"
| leave: "i < length (rcallers s) \<Longrightarrow> rcallers s ! i = Leaving e \<Longrightarrow>
    receipt_step s \<lparr>receipts = (receipts s)\<lparr>live := fetch_sub (live (receipts s))\<rparr>, rcallers = (rcallers s)[i := Answered e]\<rparr>"

inductive receipt_reachable :: "nat \<Rightarrow> receipt_system \<Rightarrow> bool" for m where
  initial: "receipt_reachable m \<lparr>receipts = new_store m, rcallers = []\<rparr>"
| step: "receipt_reachable m s \<Longrightarrow> receipt_step s s' \<Longrightarrow> receipt_reachable m s'"

text \<open>A caller that owes the counter something without having an entry, and the handle a caller
  works on.\<close>

primrec owes :: "receipt_caller \<Rightarrow> bool" where
  "owes Wants = False" | "owes Counted = True" | "owes (Numbered h) = True" | "owes (Holding h) = False"
| "owes (Leaving e) = True" | "owes (Releasing h) = False" | "owes (Answered e) = False" | "owes Crashed = False"

primrec held :: "receipt_caller \<Rightarrow> u32 option" where
  "held Wants = None" | "held Counted = None" | "held (Numbered h) = Some h" | "held (Holding h) = Some h"
| "held (Leaving e) = None" | "held (Releasing h) = None" | "held (Answered e) = None" | "held Crashed = None"

definition owing :: "receipt_caller list \<Rightarrow> nat" where
  "owing cs = length (filter owes cs)"

definition owned_by :: "(u32 \<rightharpoonup> nat option) \<Rightarrow> u32 \<Rightarrow> receipt_caller list \<Rightarrow> bool" where
  "owned_by es n cs =
     ((\<forall>h. es h \<noteq> None \<longrightarrow> 0 < sint h \<and> h < n)
    \<and> (\<forall>i < length cs. \<forall>h. held (cs ! i) = Some h \<longrightarrow> 0 < sint h \<and> h < n)
    \<and> (\<forall>i < length cs. \<forall>j < length cs. i \<noteq> j \<longrightarrow> held (cs ! i) = None \<or> held (cs ! i) \<noteq> held (cs ! j))
    \<and> (\<forall>i < length cs. \<forall>h. cs ! i = Numbered h \<longrightarrow> es h = None)
    \<and> (\<forall>i < length cs. \<forall>h. cs ! i = Holding h \<longrightarrow> es h = Some None)
    \<and> (\<forall>i < length cs. cs ! i \<noteq> Crashed))"

definition handles_owned :: "receipt_system \<Rightarrow> bool" where
  "handles_owned s = owned_by (entries (handles (receipts s))) (next_id (handles (receipts s))) (rcallers s)"

definition counts_exact :: "receipt_system \<Rightarrow> bool" where
  "counts_exact s =
     (finite (dom (entries (handles (receipts s))))
    \<and> live (receipts s) = card (dom (entries (handles (receipts s)))) + owing (rcallers s)
    \<and> live (receipts s) \<le> maximum (receipts s))"

lemma owing_update:
  "i < length cs \<Longrightarrow> owing (cs[i := c]) + (if owes (cs ! i) then 1 else 0) = owing cs + (if owes c then 1 else 0)"
proof (induction cs arbitrary: i)
  case (Cons d cs)
  then show ?case by (cases i) (auto simp: owing_def split: if_splits)
qed simp

lemma owing_snoc [simp]: "owing (cs @ [c]) = owing cs + (if owes c then 1 else 0)"
  by (simp add: owing_def)

lemma owing_pos: "i < length cs \<Longrightarrow> owes (cs ! i) \<Longrightarrow> 0 < owing cs"
  unfolding owing_def by (metis filter_empty_conv length_greater_0_conv nth_mem)

lemma owned_byD:
  assumes "owned_by es n cs" and "i < length cs"
  shows "held (cs ! i) = Some h \<Longrightarrow> 0 < sint h \<and> h < n"
    and "j < length cs \<Longrightarrow> j \<noteq> i \<Longrightarrow> held (cs ! i) = Some h \<Longrightarrow> held (cs ! j) \<noteq> Some h"
    and "cs ! i = Numbered h \<Longrightarrow> es h = None" and "cs ! i = Holding h \<Longrightarrow> es h = Some None"
proof -
  have i: "i < length cs" by (rule assms(2))
  note own = assms(1) [unfolded owned_by_def]
  show "held (cs ! i) = Some h \<Longrightarrow> 0 < sint h \<and> h < n" using own i by blast
  show "j < length cs \<Longrightarrow> j \<noteq> i \<Longrightarrow> held (cs ! i) = Some h \<Longrightarrow> held (cs ! j) \<noteq> Some h"
    using own i by (metis option.distinct(1))
  show "cs ! i = Numbered h \<Longrightarrow> es h = None" using own i by blast
  show "cs ! i = Holding h \<Longrightarrow> es h = Some None" using own i by blast
qed

text \<open>A caller moves on, and with it the table outside what the other callers hold.\<close>

lemma owned_by_update:
  assumes own: "owned_by es n cs" and i: "i < length cs" and up: "n \<le> n'"
    and entry: "\<And>h. es' h \<noteq> None \<Longrightarrow> es h \<noteq> None \<or> held (cs ! i) = Some h"
    and new: "\<And>h. held c = Some h \<Longrightarrow> 0 < sint h \<and> h < n' \<and> (\<forall>j < length cs. j \<noteq> i \<longrightarrow> held (cs ! j) \<noteq> Some h)"
    and state: "\<And>h. c = Numbered h \<Longrightarrow> es' h = None" "\<And>h. c = Holding h \<Longrightarrow> es' h = Some None" "c \<noteq> Crashed"
    and others: "\<And>j h. j < length cs \<Longrightarrow> j \<noteq> i \<Longrightarrow> held (cs ! j) = Some h \<Longrightarrow> es' h = es h"
  shows "owned_by es' n' (cs[i := c])"
proof -
  have at: "(cs[i := c]) ! j = (if j = i then c else cs ! j)" for j using i by (simp add: nth_list_update)
  have low: "0 < sint h \<and> h < n'" if "j < length cs" "held (cs ! j) = Some h" for j h
    using owned_byD(1) [OF own that] up by auto
  have "0 < sint h \<and> h < n'" if "es' h \<noteq> None" for h
    using entry [OF that] low [OF i] own up by (auto simp: owned_by_def)
  moreover have "es' h = None" if "j < length cs" "j \<noteq> i" "cs ! j = Numbered h" for j h
    using others [OF that(1,2)] owned_byD(3) [OF own that(1,3)] that(3) by simp
  moreover have "es' h = Some None" if "j < length cs" "j \<noteq> i" "cs ! j = Holding h" for j h
    using others [OF that(1,2)] owned_byD(4) [OF own that(1,3)] that(3) by simp
  moreover have "cs ! j \<noteq> Crashed" if "j < length cs" for j using own that by (auto simp: owned_by_def)
  moreover have "held (cs ! j) = None \<or> held (cs ! j) \<noteq> held (cs ! k)" if "j < length cs" "k < length cs" "j \<noteq> k" for j k
    using own that by (auto simp: owned_by_def)
  moreover have "held c = None \<or> held c \<noteq> held (cs ! j)" if "j < length cs" "j \<noteq> i" for j
    using new that by (cases "held c") auto
  moreover have "held (cs ! j) = None \<or> held (cs ! j) \<noteq> held c" if "j < length cs" "j \<noteq> i" for j
    using new that by (cases "held c") auto
  moreover have "0 < sint h \<and> h < n'" if "held c = Some h" for h using new [OF that] by blast
  ultimately show ?thesis
    unfolding owned_by_def length_list_update at using low state by (intro conjI allI impI) (auto split: if_splits)
qed

lemma handles_owned_step: "receipt_step s s' \<Longrightarrow> handles_owned s \<Longrightarrow> handles_owned s'"
proof (induction rule: receipt_step.induct)
  case (arrive c h s)
  then show ?case unfolding handles_owned_def owned_by_def by (fastforce simp: nth_append less_Suc_eq)
next
  case (number i s n)
  note up = resource.bump_rises [OF number(3)] resource.bump_valid [OF number(3)]
  have "held (rcallers s ! j) \<noteq> Some (next_id (handles (receipts s)))" if "j < length (rcallers s)" for j
    using owned_byD(1) [OF number(4) [unfolded handles_owned_def] that] by blast
  moreover have "entries (handles (receipts s)) (next_id (handles (receipts s))) = None"
    using number(4) unfolding handles_owned_def owned_by_def by (metis less_irrefl)
  ultimately show ?case using number up unfolding handles_owned_def
    by (auto intro!: owned_by_update)
next
  case (fill i s h t r)
  note own = fill(4) [unfolded handles_owned_def]
  have t: "t = (handles (receipts s))\<lparr>entries := (entries (handles (receipts s)))(h \<mapsto> None)\<rparr>" "r = Some h"
    using fill(3) owned_byD(3) [OF own fill(1,2)] by (auto simp: place_def)
  have h: "held (rcallers s ! i) = Some h" using fill(2) by simp
  show ?case unfolding handles_owned_def t
    using owned_byD(1) [OF own fill(1) h] owned_byD(2) [OF own fill(1) _ _ h] h
    by (auto intro!: owned_by_update [OF own fill(1)] split: if_splits)
next
  case (commit i s h g st c)
  note own = commit(4) [unfolded handles_owned_def]
  have h: "held (rcallers s ! i) = Some h" using commit(2) by simp
  show ?case using commit(3) owned_byD(2) [OF own commit(1) _ _ h] h unfolding handles_owned_def
    by (auto simp: receipt_commit_def intro!: owned_by_update [OF own commit(1)] split: if_splits option.splits)
next
  case (crash i s h g)
  note own = crash(4) [unfolded handles_owned_def]
  show ?case using crash(3) owned_byD(4) [OF own crash(1,2)] by (simp add: receipt_commit_def)
next
  case (rollback i s h e)
  note own = rollback(3) [unfolded handles_owned_def]
  have h: "held (rcallers s ! i) = Some h" using rollback(2) by simp
  show ?case using owned_byD(2) [OF own rollback(1) _ _ h] unfolding handles_owned_def
    by (auto simp: remove_entry_def intro!: owned_by_update [OF own rollback(1)] split: if_splits)
next
  case (release i s h g)
  note own = release(5) [unfolded handles_owned_def]
  have "held (rcallers s ! j) \<noteq> Some h" if "j < length (rcallers s)" for j
    using owned_byD(3,4) [OF own that, of h] release(4) by (cases "rcallers s ! j") auto
  then show ?case unfolding handles_owned_def
    by (auto simp: remove_entry_def intro!: owned_by_update [OF own release(1)] split: if_splits)
qed (auto simp: handles_owned_def intro: owned_by_update)

lemma counts_exact_step:
  assumes "receipt_step s s'" and "handles_owned s" and "counts_exact s"
  shows "counts_exact s'"
  using assms
proof (induction rule: receipt_step.induct)
  case (fill i s h t r)
  note own = fill(4) [unfolded handles_owned_def]
  have vac: "entries (handles (receipts s)) h = None" using owned_byD(3) [OF own fill(1,2)] .
  then have t: "t = (handles (receipts s))\<lparr>entries := (entries (handles (receipts s)))(h \<mapsto> None)\<rparr>" "r = Some h"
    using fill(3) by (auto simp: place_def)
  show ?case using owing_update [OF fill(1), of "Holding h"] fill(2,5) vac
    by (auto simp: counts_exact_def t card_insert_if domIff)
next
  case (commit i s h g st c)
  note own = commit(4) [unfolded handles_owned_def]
  have "entries (handles (receipts s)) h = Some None" using owned_byD(4) [OF own commit(1,2)] .
  then show ?case using owing_update [OF commit(1), of "Answered c"] commit(2,3,5)
    by (auto simp: counts_exact_def receipt_commit_def insert_absorb domI split: option.splits)
next
  case (rollback i s h e)
  note own = rollback(3) [unfolded handles_owned_def]
  have in_dom: "h \<in> dom (entries (handles (receipts s)))" using owned_byD(4) [OF own rollback(1,2)] by blast
  have "0 < card (dom (entries (handles (receipts s))))" using in_dom rollback(4) by (auto simp: counts_exact_def card_gt_0_iff)
  then show ?case using owing_update [OF rollback(1), of "Leaving e"] rollback(2,4) in_dom
    by (auto simp: counts_exact_def remove_entry_def card_Diff_singleton)
next
  case (release i s h g)
  have in_dom: "h \<in> dom (entries (handles (receipts s)))" using release(4) by blast
  have "0 < card (dom (entries (handles (receipts s))))" using in_dom release(6) by (auto simp: counts_exact_def card_gt_0_iff)
  then show ?case using owing_update [OF release(1), of "Leaving SUCCESS"] release(2,6) in_dom
    by (auto simp: counts_exact_def remove_entry_def card_Diff_singleton)
next
  case (leave i s e)
  have "0 < owing (rcallers s)" using owing_pos [OF leave(1)] leave(2) by simp
  then show ?case using owing_update [OF leave(1), of "Answered e"] leave(2,4)
    by (auto simp: counts_exact_def fetch_sub_def)
next
  case (crash i s h g)
  note own = crash(4) [unfolded handles_owned_def]
  show ?case using crash(3) owned_byD(4) [OF own crash(1,2)] by (simp add: receipt_commit_def)
next
  case (arrive c h s)
  then show ?case by (auto simp: counts_exact_def)
next
  case (count i s)
  then show ?case using owing_update [OF count(1), of Counted] by (simp add: counts_exact_def)
next
  case (number i s n)
  then show ?case using owing_update [OF number(1), of "Numbered (next_id (handles (receipts s)))"] by (simp add: counts_exact_def)
next
  case (refuse i s)
  then show ?case using owing_update [OF refuse(1), of "Answered ERR_WRITE_RECEIPT_QUOTA_EXCEEDED"] by (simp add: counts_exact_def)
next
  case (exhausted i s)
  then show ?case using owing_update [OF exhausted(1), of "Leaving ERR_HANDLE_UNAVAILABLE"] by (simp add: counts_exact_def)
next
  case (unknown i s h)
  then show ?case using owing_update [OF unknown(1), of "Answered ERR_INVALID_ARGUMENT"] by (simp add: counts_exact_def)
qed

lemma maximum_step: "receipt_step s s' \<Longrightarrow> maximum (receipts s') = maximum (receipts s)"
  by (induction rule: receipt_step.induct) (auto simp: receipt_commit_def split: option.splits)

lemma receipts_reachable: "receipt_reachable m s \<Longrightarrow> handles_owned s \<and> counts_exact s \<and> maximum (receipts s) = m"
proof (induction rule: receipt_reachable.induct)
  case initial
  show ?case by (simp add: handles_owned_def owned_by_def counts_exact_def new_store_def owing_def)
next
  case (step s s')
  then show ?case using handles_owned_step counts_exact_step maximum_step by metis
qed

section \<open>One operation after the other\<close>

text \<open>A table between two operations: no handle above the counter, and the count is that of the
  entries.\<close>

definition store_ok :: "receipt_store \<Rightarrow> bool" where
  "store_ok st =
     (handles_below (\<lambda>h. 0 < sint h) (handles st) \<and> finite (dom (entries (handles st)))
      \<and> live st = card (dom (entries (handles st))) \<and> live st \<le> maximum st)"

lemma store_ok_new: "store_ok (new_store m)"
  by (simp add: store_ok_def new_store_def handles_below_def)

lemma reserve_cases:
  assumes "store_ok st"
  obtains (full) "receipt_reserve st = (st, Inl ERR_WRITE_RECEIPT_QUOTA_EXCEEDED)" "live st = maximum st"
  | (exhausted) "receipt_reserve st = (st, Inl ERR_HANDLE_UNAVAILABLE)" "resource_next (next_id (handles st)) = None"
  | (reserved) st' h where "receipt_reserve st = (st', Inr h)" "entries (handles st) h = None" "0 < sint h"
      "entries (handles st') = (entries (handles st))(h \<mapsto> None)" "store_ok st'" "maximum st' = maximum st"
proof (cases "live st < maximum st")
  case False
  with assms full show thesis by (simp add: receipt_reserve_def store_ok_def)
next
  case True
  have below: "handles_below (\<lambda>h. 0 < sint h) (handles st)" using assms by (simp add: store_ok_def)
  obtain t r where ins: "insert_with resource_next None (handles st) = (t, r)" by fastforce
  show thesis
  proof (cases r)
    case None
    with resource.insert_refused [OF below] ins have "t = handles st" "resource_next (next_id (handles st)) = None" by auto
    with exhausted True ins None show thesis by (simp add: receipt_reserve_def insert_resource_def fetch_sub_def)
  next
    case (Some h)
    note fresh = resource.insert_fresh [OF below ins [unfolded Some]]
    have "handles_below (\<lambda>h. 0 < sint h) t" using resource.insert_keeps_below [OF below, of None] ins by simp
    then have "store_ok (st\<lparr>handles := t, live := live st + 1\<rparr>)"
      using fresh assms True by (auto simp: store_ok_def card_insert_if domIff)
    with reserved fresh True ins Some show thesis by (simp add: receipt_reserve_def insert_resource_def)
  qed
qed

lemma rollback_restores:
  assumes "store_ok st" and "receipt_reserve st = (st', Inr h)"
  shows "store_ok (receipt_rollback h st') \<and> entries (handles (receipt_rollback h st')) = entries (handles st)
    \<and> live (receipt_rollback h st') = live st"
  using assms
proof (cases rule: reserve_cases)
  case (reserved st'' k)
  then have eq: "st'' = st'" "k = h" using assms(2) by auto
  have "finite (dom (entries (handles st)))" "live st' = Suc (live st)"
    using reserved assms(1) unfolding eq by (auto simp: store_ok_def card_insert_if domIff)
  moreover have "(entries (handles st))(h := None) = entries (handles st)" using reserved(2) unfolding eq by (simp add: fun_upd_idem)
  ultimately show ?thesis using reserved assms(1) unfolding eq
    by (auto simp: receipt_rollback_def remove_entry_def fetch_sub_def store_ok_def handles_below_def)
qed (use assms(2) in auto)

lemma submit_tracked_frame_cell:
  assumes "submit_tracked_frame cid f rt = (rt', r)"
  shows "length (outcomes rt') = Suc (length (outcomes rt)) \<and> take (length (outcomes rt)) (outcomes rt') = outcomes rt
    \<and> (case r of
         Inr g \<Rightarrow> g = length (outcomes rt) \<and> outcomes rt' ! g = Pending
       | Inl e \<Rightarrow> outcomes rt' ! length (outcomes rt) = Abandoned \<and> connections rt' = connections rt)"
  using assms
  by (auto simp: submit_tracked_frame_def guard_new_def submit_frame_def guard_drop_def tracked_def list_update_append
      split: prod.splits option.splits sum.splits)

section \<open>Settled completions\<close>

lemma length_guards [simp]:
  "length (guard_written sender cells) = length cells" "length (guard_drop sender cells) = length cells"
  by (simp_all add: guard_written_def guard_drop_def split: option.splits)

lemma length_settle [simp]: "length (settle xs cells) = length cells"
  by (induction xs arbitrary: cells) simp_all

lemma settle_keeps:
  assumes "\<forall>x \<in> set xs. completion (fst x) \<noteq> Some g"
  shows "settle xs cells ! g = cells ! g"
  using assms
proof (induction xs arbitrary: cells)
  case (Cons x xs)
  then have "(if snd x = Written then guard_written (completion (fst x)) cells else guard_drop (completion (fst x)) cells) ! g = cells ! g"
    by (auto simp: guard_written_def guard_drop_def split: option.splits)
  with Cons show ?case by simp
qed simp

lemma settle_written:
  assumes "settle xs cells ! g = Written" and "cells ! g \<noteq> Written"
  shows "\<exists>x \<in> set xs. completion (fst x) = Some g \<and> snd x = Written"
  using assms
proof (induction xs arbitrary: cells)
  case (Cons x xs)
  let ?cells = "if snd x = Written then guard_written (completion (fst x)) cells else guard_drop (completion (fst x)) cells"
  show ?case
  proof (cases "?cells ! g = Written")
    case True
    then have "completion (fst x) = Some g \<and> snd x = Written"
      using Cons.prems(2)
      by (auto simp: guard_written_def guard_drop_def nth_list_update split: option.splits if_splits)
        (metis list_update_beyond not_le nth_list_update nth_list_update_neq write_outcome.distinct(5))+
    then show ?thesis by auto
  next
    case False
    with Cons show ?thesis by (metis list.set_intros(2) settle.simps(2))
  qed
qed simp

lemma settle_settles:
  assumes "\<exists>x \<in> set xs. completion (fst x) = Some g" and "g < length cells"
  shows "settle xs cells ! g \<noteq> Pending"
  using assms
proof (induction xs arbitrary: cells)
  case (Cons y ys)
  let ?cells = "if snd y = Written then guard_written (completion (fst y)) cells else guard_drop (completion (fst y)) cells"
  have len: "length ?cells = length cells" by simp
  show ?case
  proof (cases "\<exists>x \<in> set ys. completion (fst x) = Some g")
    case True
    from Cons.IH [OF this, of ?cells] len Cons.prems(2) show ?thesis by simp
  next
    case False
    then have "settle ys ?cells ! g = ?cells ! g" by (intro settle_keeps) blast
    moreover have "?cells ! g \<noteq> Pending"
      using False Cons.prems by (auto simp: guard_written_def guard_drop_def)
    ultimately show ?thesis by simp
  qed
qed simp

section \<open>What receipts guarantee\<close>

text \<open>C36: The table of receipts under any interleaving of callers. However reservations, commits,
  rollbacks and releases are interleaved, atomic step by atomic step, the counter is exactly the
  number of entries plus the callers that are between the two updates, and never above the
  maximum, so there are never more than that many receipts; it never wraps; a commit always finds
  its entry; and when every caller has its answer the counter is the number of receipts.\<close>

theorem receipt_quota_exact:
  assumes "receipt_reachable m s"
  shows "live (receipts s) = card (dom (entries (handles (receipts s)))) + owing (rcallers s)
    \<and> card (dom (entries (handles (receipts s)))) \<le> m \<and> Crashed \<notin> set (rcallers s)
    \<and> (\<forall>i h g. i < length (rcallers s) \<and> rcallers s ! i = Holding h \<longrightarrow> receipt_commit h g (receipts s) \<noteq> Panic)
    \<and> (\<forall>i e. i < length (rcallers s) \<and> rcallers s ! i = Leaving e \<longrightarrow> 0 < live (receipts s))
    \<and> ((\<forall>c \<in> set (rcallers s). \<exists>e. c = Answered e) \<longrightarrow> live (receipts s) = card (dom (entries (handles (receipts s)))))"
proof -
  note inv = receipts_reachable [OF assms]
  have own: "owned_by (entries (handles (receipts s))) (next_id (handles (receipts s))) (rcallers s)"
    using inv by (simp add: handles_owned_def)
  have "receipt_commit h g (receipts s) \<noteq> Panic" if "i < length (rcallers s)" "rcallers s ! i = Holding h" for i h g
    using owned_byD(4) [OF own that] by (simp add: receipt_commit_def)
  moreover have "0 < live (receipts s)" if "i < length (rcallers s)" "rcallers s ! i = Leaving e" for i e
    using owing_pos [OF that(1)] that(2) inv by (simp add: counts_exact_def)
  moreover have "Crashed \<notin> set (rcallers s)" using own unfolding owned_by_def by (metis in_set_conv_nth)
  moreover have "owing (rcallers s) = 0" if "\<forall>c \<in> set (rcallers s). \<exists>e. c = Answered e"
    using that by (fastforce simp: owing_def filter_empty_conv)
  ultimately show ?thesis using inv by (auto simp: counts_exact_def)
qed

text \<open>Two callers at a table of one receipt: the second is refused while the first holds its
  reservation.\<close>

lemma one_receipt_run:
  "receipt_reachable 1 \<lparr>receipts = \<lparr>handles = \<lparr>next_id = 2, entries = [1 \<mapsto> None]\<rparr>, live = 1, maximum = 1\<rparr>,
     rcallers = [Holding 1, Answered ERR_WRITE_RECEIPT_QUOTA_EXCEEDED]\<rparr>"
proof -
  have "receipt_reachable 1 \<lparr>receipts = new_store 1, rcallers = []\<rparr>" by (rule initial)
  from step [OF this arrive [of Wants 0]]
  have "receipt_reachable 1 \<lparr>receipts = new_store 1, rcallers = [Wants]\<rparr>" by simp
  from step [OF this arrive [of Wants 0]]
  have "receipt_reachable 1 \<lparr>receipts = new_store 1, rcallers = [Wants, Wants]\<rparr>" by simp
  from step [OF this receipt_step.count [of 0]]
  have "receipt_reachable 1 \<lparr>receipts = (new_store 1)\<lparr>live := 1\<rparr>, rcallers = [Counted, Wants]\<rparr>" by (simp add: new_store_def)
  from step [OF this refuse [of 1]]
  have "receipt_reachable 1 \<lparr>receipts = (new_store 1)\<lparr>live := 1\<rparr>,
      rcallers = [Counted, Answered ERR_WRITE_RECEIPT_QUOTA_EXCEEDED]\<rparr>" by (simp add: new_store_def)
  from step [OF this number [of 0 _ 2]]
  have "receipt_reachable 1 \<lparr>receipts = \<lparr>handles = \<lparr>next_id = 2, entries = Map.empty\<rparr>, live = 1, maximum = 1\<rparr>,
      rcallers = [Numbered 1, Answered ERR_WRITE_RECEIPT_QUOTA_EXCEEDED]\<rparr>"
    by (simp add: new_store_def resource_next_def i32_max_def)
  from step [OF this receipt_step.fill [of 0 _ 1 "\<lparr>next_id = 2, entries = [1 \<mapsto> None]\<rparr>" "Some 1"]]
  show ?thesis by (simp add: place_def)
qed

theorem receipt_quota_exact_witness:
  "card (dom (entries \<lparr>next_id = 2 :: u32, entries = [1 \<mapsto> None :: nat option]\<rparr>)) \<le> 1"
  using receipt_quota_exact [OF one_receipt_run] by simp

text \<open>C37: A tracked submission, from the C interface to the queue. It returns a positive handle that
  was not in use, whose receipt is pending, or a negative error code that leaves the receipts as
  they were, with the count given back; the refused frame's completion counts as abandoned. It
  never panics, and the receipts of all other handles stay as they are.\<close>

theorem submit_tracked_outcome:
  assumes "store_ok st" and "submit_tracked (submit_tracked_frame cid f) rt st = (rt', res)"
  shows "\<exists>st' code. res = Ok (st', code) \<and> store_ok st' \<and> maximum st' = maximum st
    \<and> (0 < code \<longrightarrow> (\<exists>h. code = sint h \<and> entries (handles st) h = None
          \<and> entries (handles st') = (entries (handles st))(h \<mapsto> Some (length (outcomes rt)))
          \<and> live st' = live st + 1 \<and> ct_write_receipt_state h st' (outcomes rt') = 0))
    \<and> (\<not> 0 < code \<longrightarrow> code < 0 \<and> entries (handles st') = entries (handles st) \<and> live st' = live st)"
  using assms
proof (cases rule: reserve_cases [OF assms(1)])
  case 1
  with assms show ?thesis by (auto simp: submit_tracked_def error_codes)
next
  case 2
  with assms show ?thesis by (auto simp: submit_tracked_def error_codes)
next
  case (3 st1 h)
  obtain r where sub: "submit_tracked_frame cid f rt = (rt', r)" "res = (case r of Inr g \<Rightarrow> receipt_commit h g st1
      | Inl e \<Rightarrow> Ok (receipt_rollback h st1, map_error e))"
    using assms(2) 3 by (auto simp: submit_tracked_def split: prod.splits sum.splits)
  note cell = submit_tracked_frame_cell [OF sub(1)]
  show ?thesis
  proof (cases r)
    case (Inl e)
    have "map_error e < 0" by (cases e) (simp_all add: error_codes)
    moreover have "maximum (receipt_rollback h st1) = maximum st" using 3 by (simp add: receipt_rollback_def)
    ultimately show ?thesis using Inl sub(2) rollback_restores [OF assms(1) 3(1)] by auto
  next
    case (Inr g)
    define st2 where "st2 = st1\<lparr>handles := (handles st1)\<lparr>entries := (entries (handles st1))(h \<mapsto> Some g)\<rparr>\<rparr>"
    have g: "g = length (outcomes rt)" "outcomes rt' ! g = Pending" using cell Inr by auto
    have "res = Ok (st2, sint h)" using Inr sub(2) 3(4) by (simp add: receipt_commit_def st2_def)
    moreover have "live st1 = live st + 1" using 3 assms(1) by (auto simp: store_ok_def card_insert_if domIff)
    moreover have "store_ok st2" using 3(4,5) by (auto simp: store_ok_def st2_def handles_below_def insert_absorb split: if_splits)
    ultimately show ?thesis using 3 g
      by (auto simp: st2_def ct_write_receipt_state_def receipt_state_def receipt_outcome_def)
  qed
qed

theorem submit_tracked_outcome_witness:
  "\<exists>rt' st' code. submit_tracked (submit_tracked_frame 7 barrier) \<lparr>connections = Some Map.empty, outcomes = []\<rparr> (new_store 1) =
      (rt', Ok (st', code)) \<and> store_ok st'"
proof -
  obtain rt' res where run: "submit_tracked (submit_tracked_frame 7 barrier) \<lparr>connections = Some Map.empty, outcomes = []\<rparr> (new_store 1) =
    (rt', res)" by fastforce
  from submit_tracked_outcome [OF store_ok_new this] run show ?thesis by auto
qed

text \<open>A tracked send consumes its buffer exactly when it is frozen: whatever the runtime, the
  connection, the queue or the quota answer, a frozen handle names nothing afterwards, and a
  handle that is unknown, mutable or reserved is refused without touching anything.\<close>

theorem send_tracked_consumes_frozen:
  assumes "ct_owned_buffer_send_tracked connection buffer bufs rt st = (bufs', rt', res)" and "0 < sint buffer"
  shows "case entries bufs buffer of
      Some (Frozen fz) \<Rightarrow> entries bufs' = (entries bufs)(buffer := None)
    | _ \<Rightarrow> bufs' = bufs \<and> rt' = rt \<and> res = Ok (st, ERR_INVALID_ARGUMENT)"
  using assms
  by (auto simp: ct_owned_buffer_send_tracked_def take_frozen_def buffer_take_def remove_entry_def
      split: option.splits storage.splits outcome.splits prod.splits)

theorem send_tracked_consumes_frozen_witness:
  "entries (fst (ct_owned_buffer_send_tracked 0 1 \<lparr>next_id = 2, entries = [1 \<mapsto> Frozen \<lparr>allocation = [5, 6], capacity = 2,
      range_start = 0, range_end = 2\<rparr>]\<rparr> \<lparr>connections = None, outcomes = []\<rparr> (new_store 1))) 1 = None"
proof -
  obtain b r o' where run: "ct_owned_buffer_send_tracked 0 1 \<lparr>next_id = 2, entries = [1 \<mapsto> Frozen \<lparr>allocation = [5, 6], capacity = 2,
      range_start = 0, range_end = 2\<rparr>]\<rparr> \<lparr>connections = None, outcomes = []\<rparr> (new_store 1) = (b, r, o')" by (metis prod_cases3)
  from send_tracked_consumes_frozen [OF this] run show ?thesis by simp
qed

end
