(* ===== verification/Mqtt_Bridge.thy ===== *)
theory Mqtt_Bridge
  imports Write_Receipts
begin

text \<open>
  The byte queues between an MQTT connection and the broker (\<open>MqttOutboundQueue\<close>, \<open>MqttInbound\<close>,
  the MQTT reader and writer tasks of \<^verbatim>\<open>ct_core/src/lib.rs\<close> and their entry points in
  \<^verbatim>\<open>ct_ffi/src/runtime/ffi.rs\<close>). Outbound chunks are bounded in number and in bytes; inbound
  chunks are handed out in slices that the caller bounds; the reader wakes the broker once until
  it has drained the queue. The wake-up protocol is modelled with the atomic steps of the reader
  task, of a polling broker and of the closing of the connection interleaved; the poll of the
  interleaved model and that of the entry point are made of the same three actions.
\<close>

section \<open>The outbound queue\<close>

definition MQTT_OUTBOUND_QUEUE_MAX_CHUNKS :: nat where "MQTT_OUTBOUND_QUEUE_MAX_CHUNKS = 512"
definition MQTT_OUTBOUND_QUEUE_MAX_BYTES :: nat where "MQTT_OUTBOUND_QUEUE_MAX_BYTES = 8 * 1024 * 1024"

text \<open>A queued chunk holds a permit for its bytes until the writer has written it: \<open>unsent\<close> is the
  chunk in the hands of the writer, \<open>budget\<close> the permits left.\<close>

record mqtt_outbound =
  out_chunks :: "byte list list"
  chunk_capacity :: nat
  out_open :: bool
  budget :: nat
  unsent :: "byte list option"

definition mqtt_outbound_new :: "nat \<Rightarrow> mqtt_outbound" where
  "mqtt_outbound_new configured_capacity =
     \<lparr>out_chunks = [], chunk_capacity = min configured_capacity MQTT_OUTBOUND_QUEUE_MAX_CHUNKS, out_open = True,
      budget = MQTT_OUTBOUND_QUEUE_MAX_BYTES, unsent = None\<rparr>"

text \<open>A chunk that is not accepted gives its permits back.\<close>

definition mqtt_enqueue :: "u32 \<Rightarrow> byte list \<Rightarrow> mqtt_outbound \<Rightarrow> mqtt_outbound \<times> core_error option" where
  "mqtt_enqueue cid bytes q =
     (if length bytes > MQTT_OUTBOUND_QUEUE_MAX_BYTES then (q, Some (Send_Queue_Full cid))
      else if length bytes > budget q then (q, Some (Send_Queue_Full cid))
      else if \<not> out_open q then (q, Some (Connection_Not_Found cid))
      else if length (out_chunks q) \<ge> chunk_capacity q then (q, Some (Send_Queue_Full cid))
      else (q\<lparr>out_chunks := out_chunks q @ [bytes], budget := budget q - length bytes\<rparr>, None))"

text \<open>The writer task: it takes a chunk and its permits, writes it and drops the permits; on an
  error it ends and drops the receiver with all that is queued.\<close>

definition mqtt_writer_take :: "mqtt_outbound \<Rightarrow> mqtt_outbound option" where
  "mqtt_writer_take q =
     (case out_chunks q of [] \<Rightarrow> None | c # cs \<Rightarrow> Some (q\<lparr>out_chunks := cs, unsent := Some c\<rparr>))"

definition permits :: "byte list option \<Rightarrow> nat" where
  "permits c = (case c of None \<Rightarrow> 0 | Some bs \<Rightarrow> length bs)"

definition mqtt_writer_wrote :: "mqtt_outbound \<Rightarrow> mqtt_outbound" where
  "mqtt_writer_wrote q = q\<lparr>unsent := None, budget := budget q + permits (unsent q)\<rparr>"

definition mqtt_writer_end :: "mqtt_outbound \<Rightarrow> mqtt_outbound" where
  "mqtt_writer_end q =
     q\<lparr>out_chunks := [], out_open := False, unsent := None, budget := budget q + permits (unsent q) + total_len (out_chunks q)\<rparr>"

text \<open>\<open>spawn_mqtt_tcp_writer\<close>: it writes chunk after chunk until one fails.\<close>

fun mqtt_tcp_writer :: "'s sink \<Rightarrow> byte list list \<Rightarrow> 's \<Rightarrow> 's \<times> byte list list" where
  "mqtt_tcp_writer push [] s = (s, [])"
| "mqtt_tcp_writer push (c # cs) s =
     (case push c s of
        (s', Some e) \<Rightarrow> (s', c # cs)
      | (s', None) \<Rightarrow> mqtt_tcp_writer push cs s')"

section \<open>The inbound queue\<close>

datatype try_recv_error = Empty | Disconnected

record mqtt_inbound =
  in_chunks :: "byte list list"
  in_closed :: bool
  pending :: "byte list option"

definition mqtt_inbound_new :: mqtt_inbound where
  "mqtt_inbound_new = \<lparr>in_chunks = [], in_closed = False, pending = None\<rparr>"

definition try_recv :: "mqtt_inbound \<Rightarrow> mqtt_inbound \<times> (try_recv_error + byte list)" where
  "try_recv q =
     (case in_chunks q of
        [] \<Rightarrow> (q, Inl (if in_closed q then Disconnected else Empty))
      | c # cs \<Rightarrow> (q\<lparr>in_chunks := cs\<rparr>, Inr c))"

text \<open>The loop that fills a slice from further chunks: the rest of the queue, the rest of a chunk
  that was split, and the bytes.\<close>

fun combine :: "nat \<Rightarrow> byte list \<Rightarrow> byte list list \<Rightarrow> byte list list \<times> byte list option \<times> byte list" where
  "combine max_bytes acc [] = ([], None, acc)"
| "combine max_bytes acc (c # cs) =
     (if length acc < max_bytes then
        let remaining = max_bytes - length acc in
        if length c > remaining then (cs, Some (drop remaining c), acc @ take remaining c)
        else combine max_bytes (acc @ c) cs
      else (c # cs, None, acc))"

definition try_recv_limited :: "nat \<Rightarrow> mqtt_inbound \<Rightarrow> mqtt_inbound \<times> (try_recv_error + byte list)" where
  "try_recv_limited max_bytes q =
     (case (case pending q of Some bytes \<Rightarrow> (q\<lparr>pending := None\<rparr>, Inr bytes) | None \<Rightarrow> try_recv q) of
        (q', Inl e) \<Rightarrow> (q', Inl e)
      | (q', Inr bytes) \<Rightarrow>
          if length bytes > max_bytes then (q'\<lparr>pending := Some (drop max_bytes bytes)\<rparr>, Inr (take max_bytes bytes))
          else case combine max_bytes bytes (in_chunks q') of
              (cs, p, acc) \<Rightarrow> (q'\<lparr>in_chunks := cs, pending := p\<rparr>, Inr acc))"

text \<open>A poll consists of three actions on the queue and the flag: a look, the reset of the flag when
  nothing was there, and a second look. Between two of them other threads may run.\<close>

datatype poll_phase = First_Look | Reset_Flag | Second_Look | Poll_Answer "byte list option"

fun poll_action :: "nat \<Rightarrow> poll_phase \<times> mqtt_inbound \<times> bool \<Rightarrow> poll_phase \<times> mqtt_inbound \<times> bool" where
  "poll_action max_bytes (First_Look, q, notification_pending) =
     (case try_recv_limited max_bytes q of
        (q', Inr bytes) \<Rightarrow> (Poll_Answer (Some bytes), q', notification_pending)
      | (q', Inl Empty) \<Rightarrow> (Reset_Flag, q', notification_pending)
      | (q', Inl Disconnected) \<Rightarrow> (Poll_Answer None, q', notification_pending))"
| "poll_action max_bytes (Reset_Flag, q, notification_pending) = (Second_Look, q, False)"
| "poll_action max_bytes (Second_Look, q, notification_pending) =
     (case try_recv_limited max_bytes q of
        (q', Inr bytes) \<Rightarrow> (Poll_Answer (Some bytes), q', notification_pending)
      | (q', Inl _) \<Rightarrow> (Poll_Answer None, q', notification_pending))"
| "poll_action max_bytes (Poll_Answer r, q, notification_pending) = (Poll_Answer r, q, notification_pending)"

text \<open>A poll that no other thread interferes with runs them one after the other.\<close>

definition poll_with_wake_reset :: "nat \<Rightarrow> mqtt_inbound \<times> bool \<Rightarrow> (mqtt_inbound \<times> bool) \<times> byte list option" where
  "poll_with_wake_reset max_bytes st =
     (case (poll_action max_bytes ^^ 3) (First_Look, st) of
        (Poll_Answer r, st') \<Rightarrow> (st', r)
      | (_, st') \<Rightarrow> (st', None))"

definition copy_mqtt_chunk :: "byte list \<Rightarrow> nat \<Rightarrow> int \<times> byte list option" where
  "copy_mqtt_chunk bytes out_capacity =
     (if length bytes > out_capacity then (ERR_INVALID_ARGUMENT, None) else (int (length bytes), Some bytes))"

text \<open>\<open>lookup\<close> is the connection with its flag, or the error of the registry.\<close>

definition ct_poll_mqtt_chunk ::
  "int \<Rightarrow> bool \<Rightarrow> int \<Rightarrow> core_error + mqtt_inbound \<times> bool \<Rightarrow> (core_error + mqtt_inbound \<times> bool) \<times> int \<times> byte list option" where
  "ct_poll_mqtt_chunk connection_id out_null out_capacity lookup =
     (if connection_id \<le> 0 \<or> out_null \<or> out_capacity < 16 * 1024 then (lookup, ERR_INVALID_ARGUMENT, None)
      else case lookup of
          Inl e \<Rightarrow> (Inl e, map_error e, None)
        | Inr st \<Rightarrow>
            (case poll_with_wake_reset (nat out_capacity) st of
               (st', Some bytes) \<Rightarrow> (Inr st', copy_mqtt_chunk bytes (nat out_capacity))
             | (st', None) \<Rightarrow> (Inr st', 0, None)))"

definition ct_send_mqtt_chunk ::
  "int \<Rightarrow> byte list option \<Rightarrow> int \<Rightarrow> u32 \<Rightarrow> core_error + mqtt_outbound \<Rightarrow> (core_error + mqtt_outbound) \<times> int" where
  "ct_send_mqtt_chunk connection_id bytes bytes_len cid lookup =
     (if connection_id \<le> 0 \<or> bytes = None \<or> \<not> (1 \<le> bytes_len \<and> bytes_len \<le> 1048576) then (lookup, ERR_INVALID_ARGUMENT)
      else case lookup of
          Inl e \<Rightarrow> (Inl e, map_error e)
        | Inr q \<Rightarrow>
            (case mqtt_enqueue cid (take (nat bytes_len) (the bytes)) q of
               (q', None) \<Rightarrow> (Inr q', SUCCESS)
             | (q', Some e) \<Rightarrow> (Inr q', map_error e)))"

section \<open>A slice is the front of the stream\<close>

definition inbound_bytes :: "mqtt_inbound \<Rightarrow> byte list" where
  "inbound_bytes q = (case pending q of None \<Rightarrow> [] | Some b \<Rightarrow> b) @ concat (in_chunks q)"

definition inbound_ready :: "mqtt_inbound \<Rightarrow> bool" where
  "inbound_ready q = (pending q \<noteq> None \<or> in_chunks q \<noteq> [])"

lemma combine_front:
  assumes "length acc \<le> max_bytes" and "combine max_bytes acc cs = (cs', p, bs)"
  shows "bs = take max_bytes (acc @ concat cs) \<and> (case p of None \<Rightarrow> [] | Some b \<Rightarrow> b) @ concat cs' = drop max_bytes (acc @ concat cs)"
  using assms
proof (induction max_bytes acc cs arbitrary: cs' p bs rule: combine.induct)
  case (2 max_bytes acc c cs)
  show ?case
  proof (cases "length acc < max_bytes \<and> length c \<le> max_bytes - length acc")
    case True
    with 2(3) have "combine max_bytes (acc @ c) cs = (cs', p, bs)" by (simp add: Let_def)
    with 2(1) [OF _ refl] True show ?thesis by (auto simp: less_diff_conv2)
  next
    case False
    with 2(2,3) show ?thesis by (auto simp: Let_def split: if_splits)
  qed
qed auto

lemma try_recv_limited_spec:
  "try_recv_limited max_bytes q = (q', r) \<Longrightarrow> in_closed q' = in_closed q \<and>
   (if inbound_ready q then r = Inr (take max_bytes (inbound_bytes q)) \<and> inbound_bytes q' = drop max_bytes (inbound_bytes q)
    else r = Inl (if in_closed q then Disconnected else Empty) \<and> q' = q)"
proof (cases "pending q")
  case None
  show "try_recv_limited max_bytes q = (q', r) \<Longrightarrow> ?thesis"
  proof (cases "in_chunks q")
    case Nil
    assume "try_recv_limited max_bytes q = (q', r)"
    with None Nil show ?thesis by (auto simp: try_recv_limited_def try_recv_def inbound_ready_def)
  next
    case (Cons c cs)
    assume run: "try_recv_limited max_bytes q = (q', r)"
    obtain cs' p bs where comb: "combine max_bytes c cs = (cs', p, bs)" by (metis prod_cases3)
    show ?thesis using run None Cons comb combine_front [OF _ comb]
      by (auto simp: try_recv_limited_def try_recv_def inbound_ready_def inbound_bytes_def not_less split: if_splits)
  qed
next
  case (Some b)
  assume run: "try_recv_limited max_bytes q = (q', r)"
  obtain cs' p bs where comb: "combine max_bytes b (in_chunks q) = (cs', p, bs)" by (metis prod_cases3)
  show ?thesis using run Some comb combine_front [OF _ comb]
    by (auto simp: try_recv_limited_def inbound_ready_def inbound_bytes_def not_less split: if_splits)
qed

text \<open>Chunks from the reader are never empty, so an empty answer means that nothing is there.\<close>

definition no_empty_chunk :: "mqtt_inbound \<Rightarrow> bool" where
  "no_empty_chunk q = ([] \<notin> set (in_chunks q) \<and> pending q \<noteq> Some [])"

lemma combine_no_empty:
  "combine max_bytes acc cs = (cs', p, bs) \<Longrightarrow> [] \<notin> set cs \<Longrightarrow> [] \<notin> set cs' \<and> p \<noteq> Some []"
  by (induction max_bytes acc cs arbitrary: cs' p bs rule: combine.induct) (auto simp: Let_def split: if_splits)

lemma try_recv_limited_no_empty:
  assumes "try_recv_limited max_bytes q = (q', r)" and "no_empty_chunk q"
  shows "no_empty_chunk q'"
proof -
  obtain b cs where split: "try_recv_limited max_bytes q = (q', r) \<Longrightarrow> r \<noteq> Inl Empty \<and> r \<noteq> Inl Disconnected \<Longrightarrow>
      (if length b > max_bytes then q' = q\<lparr>in_chunks := cs, pending := Some (drop max_bytes b)\<rparr>
       else \<exists>cs' p bs. combine max_bytes b cs = (cs', p, bs) \<and> q' = q\<lparr>in_chunks := cs', pending := p\<rparr>)" "[] \<notin> set cs"
  proof (cases "pending q")
    case (Some b)
    obtain cs' p bs where comb: "combine max_bytes b (in_chunks q) = (cs', p, bs)" by (metis prod_cases3)
    show thesis using Some assms comb by (intro that [of b "in_chunks q"]) (auto simp: try_recv_limited_def no_empty_chunk_def)
  next
    case None
    show thesis
    proof (cases "in_chunks q")
      case Nil
      then show thesis using None assms
        by (intro that [of "[]" "[]"]) (auto simp: try_recv_limited_def try_recv_def split: if_splits)
    next
      case (Cons c cs)
      obtain cs' p bs where comb: "combine max_bytes c cs = (cs', p, bs)" by (metis prod_cases3)
      show thesis using None Cons assms comb
        by (intro that [of c cs]) (auto simp: try_recv_limited_def try_recv_def no_empty_chunk_def)
    qed
  qed
  show ?thesis
  proof (cases "inbound_ready q")
    case True
    then have "r \<noteq> Inl Empty \<and> r \<noteq> Inl Disconnected" using try_recv_limited_spec [OF assms(1)] by auto
    with split assms combine_no_empty show ?thesis by (fastforce simp: no_empty_chunk_def split: if_splits)
  next
    case False
    then show ?thesis using try_recv_limited_spec [OF assms(1)] assms(2) by simp
  qed
qed

lemma ready_bytes: "no_empty_chunk q \<Longrightarrow> inbound_ready q \<longleftrightarrow> inbound_bytes q \<noteq> []"
  by (cases "in_chunks q") (auto simp: no_empty_chunk_def inbound_ready_def inbound_bytes_def split: option.splits)

text \<open>What an undisturbed poll does: the flag stays while there are bytes and is cleared by an empty
  look, and nothing else reports that nothing is there.\<close>

lemma poll_with_wake_reset_spec:
  assumes "no_empty_chunk q"
  shows "\<exists>q'. poll_with_wake_reset n (q, notification_pending) =
      ((q', notification_pending \<and> (inbound_bytes q \<noteq> [] \<or> in_closed q)),
       if inbound_bytes q = [] then None else Some (take n (inbound_bytes q)))
    \<and> inbound_bytes q' = drop n (inbound_bytes q)"
proof -
  obtain q' r where run: "try_recv_limited n q = (q', r)" by fastforce
  from try_recv_limited_spec [OF run] ready_bytes [OF assms] run show ?thesis
    by (auto simp: poll_with_wake_reset_def numeral_3_eq_3 split: if_splits)
qed

section \<open>Waking the broker\<close>

text \<open>The broker runs when a notification is outstanding (\<open>wake\<close>) and then polls until a poll has
  no bytes for it; it also polls a connection once after it has registered its callback. A poll
  holds the lock of the queue, so there is one at a time. The reader sends a chunk, swaps the
  flag, and notifies when the flag was clear. Whoever closes the connection takes it out of the
  registry (\<open>registered\<close>), clears its callback and aborts the reader; with the last reference to
  the connection the queue goes, and what was in it. \<open>produced\<close>, \<open>consumed\<close> and \<open>discarded\<close> are
  the bytes that the reader has queued, that polls have returned, and that went with the queue.\<close>

datatype broker_phase = Waiting | Draining | In_Poll poll_phase
datatype reader_phase = Reading | Sent | Notifying | Ended

record wake_system =
  inbound :: mqtt_inbound
  notification_pending :: bool
  wake :: bool
  callback_set :: bool
  registered :: bool
  queue_alive :: bool
  broker :: broker_phase
  reader :: reader_phase
  produced :: "byte list"
  consumed :: "byte list"
  discarded :: "byte list"

definition wake_init :: wake_system where
  "wake_init = \<lparr>inbound = mqtt_inbound_new, notification_pending = False, wake = False, callback_set = False,
     registered = True, queue_alive = True, broker = Waiting, reader = Reading, produced = [], consumed = [], discarded = []\<rparr>"

text \<open>The reader task. It ends at the end of the stream, at an error, and when the queue is gone.\<close>

inductive mqtt_reader_step :: "wake_system \<Rightarrow> wake_system \<Rightarrow> bool" where
  send: "reader s = Reading \<Longrightarrow> queue_alive s \<Longrightarrow> c \<noteq> [] \<Longrightarrow> length (in_chunks (inbound s)) < 64 \<Longrightarrow>
    mqtt_reader_step s (s\<lparr>inbound := (inbound s)\<lparr>in_chunks := in_chunks (inbound s) @ [c]\<rparr>, produced := produced s @ c, reader := Sent\<rparr>)"
| swap_clear: "reader s = Sent \<Longrightarrow> \<not> notification_pending s \<Longrightarrow>
    mqtt_reader_step s (s\<lparr>notification_pending := True, reader := Notifying\<rparr>)"
| swap_set: "reader s = Sent \<Longrightarrow> notification_pending s \<Longrightarrow> mqtt_reader_step s (s\<lparr>reader := Reading\<rparr>)"
| notify: "reader s = Notifying \<Longrightarrow> mqtt_reader_step s (s\<lparr>wake := (wake s \<or> callback_set s), reader := Reading\<rparr>)"
| finish: "reader s = Reading \<Longrightarrow> mqtt_reader_step s (s\<lparr>inbound := (inbound s)\<lparr>in_closed := True\<rparr>, reader := Ended\<rparr>)"

text \<open>The callback: \<open>set_mqtt_wakeup\<close> sets or clears it.\<close>

inductive mqtt_callback_step :: "wake_system \<Rightarrow> wake_system \<Rightarrow> bool" where
  set_callback: "registered s \<Longrightarrow> mqtt_callback_step s (s\<lparr>callback_set := True, wake := True\<rparr>)"
| reset_callback: "registered s \<Longrightarrow> mqtt_callback_step s (s\<lparr>callback_set := False\<rparr>)"

text \<open>The broker: \<open>poll_mqtt_chunk\<close> looks the connection up, takes the lock and runs the actions of a
  poll.\<close>

definition handed_out :: "poll_phase \<Rightarrow> byte list" where
  "handed_out p = (case p of Poll_Answer (Some bytes) \<Rightarrow> bytes | _ \<Rightarrow> [])"

inductive mqtt_poll_step :: "wake_system \<Rightarrow> wake_system \<Rightarrow> bool" where
  run: "broker s = Waiting \<Longrightarrow> wake s \<Longrightarrow> mqtt_poll_step s (s\<lparr>wake := False, broker := Draining\<rparr>)"
| not_found: "broker s = Draining \<Longrightarrow> \<not> registered s \<Longrightarrow> mqtt_poll_step s (s\<lparr>broker := Waiting\<rparr>)"
| begin_poll: "broker s = Draining \<Longrightarrow> registered s \<Longrightarrow> mqtt_poll_step s (s\<lparr>broker := In_Poll First_Look\<rparr>)"
| action: "broker s = In_Poll p \<Longrightarrow> p = First_Look \<or> p = Reset_Flag \<or> p = Second_Look \<Longrightarrow>
    poll_action max_bytes (p, inbound s, notification_pending s) = (p', q, flag) \<Longrightarrow>
    mqtt_poll_step s (s\<lparr>broker := In_Poll p', inbound := q, notification_pending := flag, consumed := consumed s @ handed_out p'\<rparr>)"
| again: "broker s = In_Poll (Poll_Answer (Some bytes)) \<Longrightarrow> mqtt_poll_step s (s\<lparr>broker := Draining\<rparr>)"
| drained: "broker s = In_Poll (Poll_Answer None) \<Longrightarrow> mqtt_poll_step s (s\<lparr>broker := Waiting\<rparr>)"

text \<open>Closing: the closer task after the reader or the writer has ended, or a caller of
  \<open>close_connection\<close> at any time. The reader is aborted where it waits; a poll that has begun
  still holds the queue.\<close>

inductive mqtt_close_step :: "wake_system \<Rightarrow> wake_system \<Rightarrow> bool" where
  remove: "registered s \<Longrightarrow> mqtt_close_step s (s\<lparr>registered := False\<rparr>)"
| clear_callback: "\<not> registered s \<Longrightarrow> mqtt_close_step s (s\<lparr>callback_set := False\<rparr>)"
| abort_reader: "\<not> registered s \<Longrightarrow> reader s = Reading \<Longrightarrow>
    mqtt_close_step s (s\<lparr>inbound := (inbound s)\<lparr>in_closed := True\<rparr>, reader := Ended\<rparr>)"
| drop_queue: "\<not> registered s \<Longrightarrow> queue_alive s \<Longrightarrow> broker s = Waiting \<or> broker s = Draining \<Longrightarrow>
    mqtt_close_step s (s\<lparr>queue_alive := False, inbound := (inbound s)\<lparr>in_chunks := [], pending := None\<rparr>,
      discarded := inbound_bytes (inbound s)\<rparr>)"

definition wake_step :: "wake_system \<Rightarrow> wake_system \<Rightarrow> bool" where
  "wake_step s s' = (mqtt_reader_step s s' \<or> mqtt_callback_step s s' \<or> mqtt_poll_step s s' \<or> mqtt_close_step s s')"












section \<open>Budgets\<close>

definition outbound_ok :: "mqtt_outbound \<Rightarrow> bool" where
  "outbound_ok q =
     (budget q + total_len (out_chunks q) + permits (unsent q) = MQTT_OUTBOUND_QUEUE_MAX_BYTES
    \<and> length (out_chunks q) \<le> chunk_capacity q \<and> chunk_capacity q \<le> MQTT_OUTBOUND_QUEUE_MAX_CHUNKS)"

inductive outbound_step :: "mqtt_outbound \<Rightarrow> mqtt_outbound \<Rightarrow> bool" where
  enqueue: "outbound_step q (fst (mqtt_enqueue cid bytes q))"
| take: "unsent q = None \<Longrightarrow> mqtt_writer_take q = Some q' \<Longrightarrow> outbound_step q q'"
| wrote: "outbound_step q (mqtt_writer_wrote q)"
| fail: "outbound_step q (mqtt_writer_end q)"

lemma outbound_ok_step: "outbound_step q q' \<Longrightarrow> outbound_ok q \<Longrightarrow> outbound_ok q'"
proof (induction rule: outbound_step.induct)
  case (enqueue q cid bytes)
  then show ?case by (auto simp: mqtt_enqueue_def outbound_ok_def total_len_def)
next
  case (take q q')
  then show ?case
    by (auto simp: mqtt_writer_take_def outbound_ok_def total_len_def permits_def split: list.splits)
next
  case (wrote q)
  then show ?case by (auto simp: mqtt_writer_wrote_def outbound_ok_def permits_def)
next
  case (fail q)
  then show ?case by (auto simp: mqtt_writer_end_def outbound_ok_def permits_def total_len_def)
qed

lemma outbound_reachable: "outbound_step\<^sup>*\<^sup>* (mqtt_outbound_new n) q \<Longrightarrow> outbound_ok q \<and> chunk_capacity q = min n MQTT_OUTBOUND_QUEUE_MAX_CHUNKS"
proof (induction rule: rtranclp_induct)
  case base
  show ?case by (simp add: outbound_ok_def mqtt_outbound_new_def permits_def total_len_def)
next
  case (step q q')
  moreover have "chunk_capacity q' = chunk_capacity q"
    using step(2) by (cases rule: outbound_step.cases)
      (auto simp: mqtt_enqueue_def mqtt_writer_take_def mqtt_writer_wrote_def mqtt_writer_end_def split: list.splits)
  ultimately show ?case using outbound_ok_step by simp
qed

section \<open>What the bridge guarantees\<close>

text \<open>A slice of the inbound queue is the front of the byte stream. Whatever the sizes of the
  chunks, a poll with room for \<open>n\<close> bytes returns exactly the next \<open>n\<close> bytes, or all there are,
  and leaves the rest; it reports nothing exactly when no byte is there, and the end of the
  connection only after the last byte.\<close>

theorem mqtt_slice_is_front:
  assumes "no_empty_chunk q" and "try_recv_limited n q = (q', r)"
  shows "no_empty_chunk q' \<and> r = (if inbound_bytes q = [] then Inl (if in_closed q then Disconnected else Empty)
      else Inr (take n (inbound_bytes q))) \<and> inbound_bytes q' = drop n (inbound_bytes q)"
  using try_recv_limited_no_empty [OF assms(2,1)] try_recv_limited_spec [OF assms(2)] ready_bytes [OF assms(1)]
  by (auto split: if_splits)

theorem mqtt_slice_is_front_witness:
  "snd (try_recv_limited 4 \<lparr>in_chunks = [[1, 2], [3], [4, 5, 6]], in_closed = False, pending = None\<rparr>) = Inr [1, 2, 3, 4]"
proof -
  obtain q' r where run: "try_recv_limited 4 \<lparr>in_chunks = [[1, 2], [3], [4, 5, 6]], in_closed = False, pending = None\<rparr> = (q', r)"
    by fastforce
  from mqtt_slice_is_front [OF _ this] run show ?thesis by (simp add: no_empty_chunk_def inbound_bytes_def)
qed


text \<open>The reader sends behind the broker's second look and has to notify again.\<close>

definition asleep :: wake_system where
  "asleep = wake_init\<lparr>callback_set := True, broker := Waiting\<rparr>"

definition bytes_waiting :: wake_system where
  "bytes_waiting = asleep\<lparr>inbound := mqtt_inbound_new\<lparr>in_chunks := [[7]]\<rparr>, notification_pending := True, wake := True, produced := [7]\<rparr>"

lemma empty_look: "try_recv_limited 1 mqtt_inbound_new = (mqtt_inbound_new, Inl Empty)"
  by (simp add: try_recv_limited_def try_recv_def mqtt_inbound_new_def)

lemma asleep_reached: "wake_step\<^sup>*\<^sup>* wake_init asleep"
proof -
  define s1 where "s1 = wake_init\<lparr>callback_set := True, wake := True\<rparr>"
  define at where "at b = s1\<lparr>wake := False, broker := b\<rparr>" for b
  note defs = s1_def at_def wake_init_def
  have "wake_step wake_init s1" using set_callback [of wake_init] by (simp add: wake_step_def defs)
  moreover have "wake_step s1 (at Draining)" using run [of s1] by (simp add: wake_step_def defs)
  moreover have "wake_step (at Draining) (at (In_Poll First_Look))"
    using begin_poll [of "at Draining"] by (simp add: wake_step_def defs)
  moreover have "wake_step (at (In_Poll First_Look)) (at (In_Poll Reset_Flag))"
    using action [of "at (In_Poll First_Look)" First_Look 1 Reset_Flag mqtt_inbound_new False] empty_look
    by (simp add: wake_step_def defs handed_out_def)
  moreover have "wake_step (at (In_Poll Reset_Flag)) (at (In_Poll Second_Look))"
    using action [of "at (In_Poll Reset_Flag)" Reset_Flag 1 Second_Look mqtt_inbound_new False]
    by (simp add: wake_step_def defs handed_out_def)
  moreover have "wake_step (at (In_Poll Second_Look)) (at (In_Poll (Poll_Answer None)))"
    using action [of "at (In_Poll Second_Look)" Second_Look 1 "Poll_Answer None" mqtt_inbound_new False] empty_look
    by (simp add: wake_step_def defs handed_out_def)
  moreover have "wake_step (at (In_Poll (Poll_Answer None))) (at Waiting)"
    using drained [of "at (In_Poll (Poll_Answer None))"] by (simp add: wake_step_def defs)
  moreover have "at Waiting = asleep" by (simp add: defs asleep_def)
  ultimately show ?thesis by (metis (no_types, lifting) r_into_rtranclp rtranclp.rtrancl_into_rtrancl)
qed

lemma bytes_waiting_reached: "wake_step\<^sup>*\<^sup>* wake_init bytes_waiting"
proof -
  define s1 where "s1 = asleep\<lparr>inbound := mqtt_inbound_new\<lparr>in_chunks := [[7]]\<rparr>, produced := [7], reader := Sent\<rparr>"
  define s2 where "s2 = s1\<lparr>notification_pending := True, reader := Notifying\<rparr>"
  note defs = s1_def s2_def asleep_def wake_init_def mqtt_inbound_new_def bytes_waiting_def
  have "wake_step asleep s1" using send [of asleep "[7]"] by (simp add: wake_step_def defs)
  moreover have "wake_step s1 s2" using swap_clear [of s1] by (simp add: wake_step_def defs)
  moreover have "wake_step s2 bytes_waiting" using notify [of s2] by (simp add: wake_step_def defs)
  ultimately show ?thesis using asleep_reached by (meson rtranclp.rtrancl_into_rtrancl)
qed


text \<open>The closer does not wait for the broker: bytes that arrived right before the end of the stream
  can be discarded although a notification for them is outstanding.\<close>

theorem mqtt_tail_discarded:
  "\<exists>s. wake_step\<^sup>*\<^sup>* wake_init s \<and> wake s \<and> produced s = [7] \<and> consumed s = [] \<and> discarded s = [7]"
proof -
  define s1 where "s1 = bytes_waiting\<lparr>inbound := (inbound bytes_waiting)\<lparr>in_closed := True\<rparr>, reader := Ended\<rparr>"
  define s2 where "s2 = s1\<lparr>registered := False\<rparr>"
  define s3 where "s3 = s2\<lparr>queue_alive := False, inbound := (inbound s2)\<lparr>in_chunks := [], pending := None\<rparr>, discarded := [7]\<rparr>"
  note defs = s1_def s2_def s3_def bytes_waiting_def asleep_def wake_init_def mqtt_inbound_new_def
  have "wake_step bytes_waiting s1" using finish [of bytes_waiting] by (simp add: wake_step_def defs)
  moreover have "wake_step s1 s2" using remove [of s1] by (simp add: wake_step_def defs)
  moreover have "wake_step s2 s3" using drop_queue [of s2] by (simp add: wake_step_def defs inbound_bytes_def)
  ultimately have "wake_step\<^sup>*\<^sup>* wake_init s3" using bytes_waiting_reached by (meson rtranclp.rtrancl_into_rtrancl)
  moreover have "wake s3 \<and> produced s3 = [7] \<and> consumed s3 = [] \<and> discarded s3 = [7]" by (simp add: defs)
  ultimately show ?thesis by blast
qed

text \<open>C31: The outbound queue is bounded. In every run of callers and writer, the permits left and the
  bytes queued or being written add up to eight mebibytes, so no more is ever held for a
  connection, in at most 512 chunks; and a refused chunk changes nothing.\<close>

theorem mqtt_outbound_bounded:
  assumes "outbound_step\<^sup>*\<^sup>* (mqtt_outbound_new n) q"
  shows "budget q + total_len (out_chunks q) + permits (unsent q) = 8388608 \<and> length (out_chunks q) \<le> min n 512
    \<and> (snd (mqtt_enqueue cid bytes q) \<noteq> None \<longrightarrow> fst (mqtt_enqueue cid bytes q) = q)"
  using outbound_reachable [OF assms]
  by (auto simp: outbound_ok_def MQTT_OUTBOUND_QUEUE_MAX_BYTES_def MQTT_OUTBOUND_QUEUE_MAX_CHUNKS_def mqtt_enqueue_def)

theorem mqtt_outbound_bounded_witness:
  "budget (fst (mqtt_enqueue 1 [1, 2, 3] (mqtt_outbound_new 4))) + 3 = 8388608"
proof -
  have "outbound_step\<^sup>*\<^sup>* (mqtt_outbound_new 4) (fst (mqtt_enqueue 1 [1, 2, 3] (mqtt_outbound_new 4)))"
    by (rule r_into_rtranclp) (rule enqueue)
  from mqtt_outbound_bounded [OF this] show ?thesis
    by (simp add: mqtt_enqueue_def mqtt_outbound_new_def total_len_def permits_def MQTT_OUTBOUND_QUEUE_MAX_BYTES_def
        MQTT_OUTBOUND_QUEUE_MAX_CHUNKS_def)
qed

end
