(* ===== verification/Websocket_Frames.thy ===== *)
theory Websocket_Frames
  imports Outbound_Frames
begin

text \<open>
  WebSocket frames (\<^verbatim>\<open>ct_core/src/lib.rs\<close>): the header, the masking of payloads sixteen
  bytes at a time, the reader of one frame, close payloads and the assembly of fragmented
  messages. Error values keep their text and close code. The pool of receive buffers only
  recycles memory and is not visible in the bytes; the random mask is an argument.
\<close>

unbundle bit_operations_syntax

section \<open>UTF-8\<close>

text \<open>\<open>std::str::from_utf8\<close>: well-formed UTF-8 as the Unicode standard defines it.\<close>

definition tail_byte :: "byte \<Rightarrow> bool" where
  "tail_byte b = (0x80 \<le> b \<and> b \<le> 0xBF)"

fun utf8_valid :: "byte list \<Rightarrow> bool" where
  "utf8_valid [] = True"
| "utf8_valid (a # bs) =
     (if a \<le> 0x7F then utf8_valid bs
      else if 0xC2 \<le> a \<and> a \<le> 0xDF then
        (case bs of b # rest \<Rightarrow> tail_byte b \<and> utf8_valid rest | _ \<Rightarrow> False)
      else if 0xE0 \<le> a \<and> a \<le> 0xEF then
        (case bs of b # c # rest \<Rightarrow>
            (if a = 0xE0 then 0xA0 \<le> b \<and> b \<le> 0xBF else if a = 0xED then 0x80 \<le> b \<and> b \<le> 0x9F else tail_byte b)
            \<and> tail_byte c \<and> utf8_valid rest
         | _ \<Rightarrow> False)
      else if 0xF0 \<le> a \<and> a \<le> 0xF4 then
        (case bs of b # c # d # rest \<Rightarrow>
            (if a = 0xF0 then 0x90 \<le> b \<and> b \<le> 0xBF else if a = 0xF4 then 0x80 \<le> b \<and> b \<le> 0x8F else tail_byte b)
            \<and> tail_byte c \<and> tail_byte d \<and> utf8_valid rest
         | _ \<Rightarrow> False)
      else False)"

section \<open>Frames and errors\<close>

definition MAX_WEBSOCKET_MESSAGE_LEN :: nat where "MAX_WEBSOCKET_MESSAGE_LEN = 2 ^ 24"

datatype websocket_frame =
    Ws_Data byte bool "byte list"
  | Ws_Ping "byte list"
  | Ws_Pong "byte list"
  | Ws_Close "u16 option" "byte list"

record websocket_frame_error =
  ws_message :: label
  close_code :: "u16 option"
  io_kind :: "stream_error option"

definition ws_io :: "stream_error \<Rightarrow> websocket_frame_error" where
  "ws_io e = \<lparr>ws_message = ''io'', close_code = None, io_kind = Some e\<rparr>"

definition ws_protocol :: "label \<Rightarrow> websocket_frame_error" where
  "ws_protocol m = \<lparr>ws_message = m, close_code = Some 1002, io_kind = None\<rparr>"

definition ws_invalid_payload :: "label \<Rightarrow> websocket_frame_error" where
  "ws_invalid_payload m = \<lparr>ws_message = m, close_code = Some 1007, io_kind = None\<rparr>"

definition ws_message_too_big :: "label \<Rightarrow> websocket_frame_error" where
  "ws_message_too_big m = \<lparr>ws_message = m, close_code = Some 1009, io_kind = None\<rparr>"

text \<open>The error kinds of a vanished peer are \<open>Unexpected_Eof\<close> and \<open>Broken\<close> here.\<close>

definition is_peer_disconnect :: "websocket_frame_error \<Rightarrow> bool" where
  "is_peer_disconnect e = (io_kind e = Some Unexpected_Eof \<or> io_kind e = Some Broken)"

section \<open>Masking\<close>

text \<open>\<open>u128::from_ne_bytes\<close> and \<open>to_ne_bytes\<close> on a little-endian target.\<close>

primrec ne_word :: "byte list \<Rightarrow> 128 word" where
  "ne_word [] = 0"
| "ne_word (b # bs) = ucast b OR push_bit 8 (ne_word bs)"

definition ne_bytes :: "128 word \<Rightarrow> byte list" where
  "ne_bytes w = map (\<lambda>i. ucast (drop_bit (8 * i) w)) [0..<16]"

definition mask_bytes :: "byte list \<Rightarrow> nat \<Rightarrow> byte list" where
  "mask_bytes key mask_offset = map (\<lambda>index. key ! ((mask_offset + index) AND 3)) [0..<16]"

text \<open>\<open>chunks_exact_mut(16)\<close> and its remainder.\<close>

function mask_chunks :: "128 word \<Rightarrow> (nat \<Rightarrow> byte) \<Rightarrow> byte list \<Rightarrow> byte list" where
  "mask_chunks mask_word mask_at payload =
     (if length payload < 16 then map (\<lambda>(index, b). b XOR mask_at index) (enumerate 0 payload)
      else ne_bytes (ne_word (take 16 payload) XOR mask_word) @ mask_chunks mask_word mask_at (drop 16 payload))"
  by pat_completeness auto
termination by (relation "measure (\<lambda>(_, _, payload). length payload)") auto

declare mask_chunks.simps [simp del]

definition xor_websocket_mask :: "byte list \<Rightarrow> byte list \<Rightarrow> nat \<Rightarrow> byte list" where
  "xor_websocket_mask payload key off =
     (let mask_offset = off AND 3 in
      mask_chunks (ne_word (mask_bytes key mask_offset)) (\<lambda>index. key ! ((mask_offset + index) AND 3)) payload)"

section \<open>The header\<close>

text \<open>\<open>key\<close> is the random mask, if the frame is masked.\<close>

definition websocket_frame_header :: "byte \<Rightarrow> bool \<Rightarrow> nat \<Rightarrow> byte list option \<Rightarrow> byte list" where
  "websocket_frame_header opcode fin len key =
     (let first = (if fin then 0x80 else 0) OR (opcode AND 0x0F);
          rest = (if len < 126 then [of_nat len]
                  else if len \<le> 0xFFFF then 126 # be_bytes 2 len
                  else 127 # be_bytes 8 len)
      in case key of
           None \<Rightarrow> first # rest
         | Some m \<Rightarrow> first # (hd rest OR 0x80) # tl rest @ m)"

text \<open>\<open>u16::from_be_bytes\<close> and \<open>u64::from_be_bytes\<close> as numbers.\<close>

definition be_nat :: "byte list \<Rightarrow> nat" where
  "be_nat bs = foldl (\<lambda>acc b. acc * 256 + unat b) 0 bs"

section \<open>Close payloads\<close>

definition parse_websocket_close_frame_payload :: "byte list \<Rightarrow> websocket_frame_error + u16 option \<times> byte list" where
  "parse_websocket_close_frame_payload payload =
     (case payload of
        [] \<Rightarrow> Inr (None, [])
      | [_] \<Rightarrow> Inl (ws_protocol ''websocket close frame payload must be empty or include a 2-byte status code'')
      | a # b # reason \<Rightarrow>
          if utf8_valid reason then Inr (Some (u16_from_be_bytes a b), reason)
          else Inl (ws_invalid_payload ''websocket close reason must be valid UTF-8''))"

definition encode_websocket_close_payload :: "u16 option \<Rightarrow> byte list \<Rightarrow> byte list" where
  "encode_websocket_close_payload code reason =
     (case code of
        None \<Rightarrow> []
      | Some c \<Rightarrow> be_bytes 2 (unat c) @ take (min (length reason) (125 - 2)) reason)"

definition close_frame :: "u16 option \<Rightarrow> byte list \<Rightarrow> outbound_frame" where
  "close_frame code reason = control 3 (encode_websocket_close_payload code reason)"

section \<open>Reading a frame\<close>

definition read_ws :: "'s source \<Rightarrow> nat \<Rightarrow> 's \<Rightarrow> 's \<times> (websocket_frame_error + byte list)" where
  "read_ws pull n s = (case read_exact pull n s of (s', Inl e) \<Rightarrow> (s', Inl (ws_io e)) | (s', Inr bs) \<Rightarrow> (s', Inr bs))"

definition and_read ::
  "'s \<times> (websocket_frame_error + 'a) \<Rightarrow> ('a \<Rightarrow> 's \<Rightarrow> 's \<times> (websocket_frame_error + 'b)) \<Rightarrow> 's \<times> (websocket_frame_error + 'b)" where
  "and_read m f = (case m of (s, Inl e) \<Rightarrow> (s, Inl e) | (s, Inr x) \<Rightarrow> f x s)"

definition read_ws_len :: "'s source \<Rightarrow> byte \<Rightarrow> 's \<Rightarrow> 's \<times> (websocket_frame_error + nat)" where
  "read_ws_len pull second s =
     (let len = unat (second AND 0x7F) in
      if len = 126 then and_read (read_ws pull 2 s) (\<lambda>bs s'. (s', Inr (be_nat bs)))
      else if len = 127 then and_read (read_ws pull 8 s) (\<lambda>bs s'. (s', Inr (be_nat bs)))
      else (s, Inr len))"

definition classify_ws :: "byte \<Rightarrow> bool \<Rightarrow> byte list \<Rightarrow> websocket_frame_error + websocket_frame" where
  "classify_ws opcode fin payload =
     (if opcode = 0 \<or> opcode = 1 \<or> opcode = 2 then Inr (Ws_Data opcode fin payload)
      else if opcode = 8 then
        (case parse_websocket_close_frame_payload payload of
           Inl e \<Rightarrow> Inl e | Inr (code, reason) \<Rightarrow> Inr (Ws_Close code reason))
      else if opcode = 9 then Inr (Ws_Ping payload)
      else if opcode = 0xA then Inr (Ws_Pong payload)
      else Inl (ws_protocol ''unsupported websocket opcode''))"

definition read_websocket_frame_mode ::
  "'s source \<Rightarrow> bool \<Rightarrow> 's \<Rightarrow> 's \<times> (websocket_frame_error + websocket_frame)" where
  "read_websocket_frame_mode pull expect_masked s =
     and_read (read_ws pull 2 s) (\<lambda>header s1.
       if (header ! 0) AND 0x70 \<noteq> 0 then (s1, Inl (ws_protocol ''websocket reserved bits must be zero''))
       else let fin = ((header ! 0) AND 0x80 \<noteq> 0);
                opcode = (header ! 0) AND 0x0F;
                masked = ((header ! 1) AND 0x80 \<noteq> 0)
       in if masked \<noteq> expect_masked then
            (s1, Inl (ws_protocol (if expect_masked then ''client websocket frames must be masked''
                                   else ''server websocket frames must not be masked'')))
       else let is_control_frame = (opcode AND 0x08 \<noteq> 0)
       in if is_control_frame \<and> \<not> fin then
            (s1, Inl (ws_protocol ''websocket control frames must not be fragmented''))
       else and_read (read_ws_len pull (header ! 1) s1) (\<lambda>len s2.
         if is_control_frame \<and> len > 125 then
           (s2, Inl (ws_protocol ''websocket control frames must not exceed 125 bytes''))
         else if len > MAX_WEBSOCKET_MESSAGE_LEN then
           (s2, Inl (ws_message_too_big ''websocket frame exceeds supported length''))
         else and_read (if masked then read_ws pull 4 s2 else (s2, Inr [0, 0, 0, 0])) (\<lambda>key s3.
           and_read (if len = 0 then (s3, Inr []) else read_ws pull len s3) (\<lambda>payload s4.
             (s4, classify_ws opcode fin (if len > 0 \<and> masked then xor_websocket_mask payload key 0 else payload))))))"

section \<open>Fragmented messages\<close>

datatype message_storage = Single "byte list" | Segmented "byte list list" nat

record accumulator =
  acc_opcode :: "byte option"
  storage :: "message_storage option"
  complete :: bool

definition new_accumulator :: accumulator where
  "new_accumulator = \<lparr>acc_opcode = None, storage = None, complete = False\<rparr>"

definition acc_len :: "accumulator \<Rightarrow> nat" where
  "acc_len a = (case storage a of Some (Single bs) \<Rightarrow> length bs | Some (Segmented _ n) \<Rightarrow> n | None \<Rightarrow> 0)"

definition store_fragment :: "byte list \<Rightarrow> message_storage option \<Rightarrow> message_storage" where
  "store_fragment payload st =
     (case st of
        None \<Rightarrow> Single payload
      | Some (Single existing) \<Rightarrow> Segmented [existing, payload] (length existing + length payload)
      | Some (Segmented ss n) \<Rightarrow> Segmented (ss @ [payload]) (n + length payload))"

text \<open>The state after a refused fragment matters only up to the opcode, which a first fragment
  has already set when its size is refused.\<close>

definition push_fragment :: "byte \<Rightarrow> bool \<Rightarrow> byte list \<Rightarrow> accumulator \<Rightarrow> accumulator \<times> websocket_frame_error option" where
  "push_fragment opcode fin payload a =
     (if opcode = 0 \<and> acc_opcode a = None then
        (a, Some (ws_protocol ''received continuation frame without initial opcode''))
      else if (opcode = 1 \<or> opcode = 2) \<and> acc_opcode a \<noteq> None then
        (a, Some (ws_protocol ''received new data frame before finishing continuation''))
      else if opcode \<noteq> 0 \<and> opcode \<noteq> 1 \<and> opcode \<noteq> 2 then (a, Some (ws_protocol ''unsupported data opcode''))
      else let a' = (if opcode = 0 then a else a\<lparr>acc_opcode := Some opcode\<rparr>) in
        if acc_len a' + length payload > MAX_WEBSOCKET_MESSAGE_LEN then
          (a', Some (ws_message_too_big ''websocket message exceeds supported length''))
        else (a'\<lparr>storage := Some (store_fragment payload (storage a')), complete := (fin \<or> complete a')\<rparr>, None))"

definition take_complete :: "accumulator \<Rightarrow> accumulator \<times> message_storage option" where
  "take_complete a =
     (if complete a then (a\<lparr>acc_opcode := None, complete := False, storage := None\<rparr>, storage a) else (a, None))"

text \<open>\<open>CompletedWebSocketMessage::into_bytes\<close>.\<close>

definition message_bytes :: "message_storage \<Rightarrow> byte list" where
  "message_bytes st = (case st of Single bs \<Rightarrow> bs | Segmented ss n \<Rightarrow> concat ss)"

section \<open>Masking is bytewise\<close>

lemma bit_ne_word:
  "bit (ne_word bs) k \<longleftrightarrow> k < 128 \<and> k < 8 * length bs \<and> bit (bs ! (k div 8)) (k mod 8)"
proof (induction bs arbitrary: k)
  case (Cons b bs)
  show ?case
  proof (cases "k < 8")
    case True
    then show ?thesis by (simp add: bit_simps)
  next
    case False
    then obtain j where "k = j + 8" by (metis add.commute le_Suc_ex not_less)
    moreover have "(j + 8) div 8 = Suc (j div 8)" by simp
    ultimately have "bs ! ((k - 8) div 8) = (b # bs) ! (k div 8)" "(k - 8) mod 8 = k mod 8" by (simp_all only: nth_Cons_Suc) simp_all
    moreover have "\<not> bit b k" using False by (auto dest: bit_byte_lt)
    ultimately show ?thesis using False by (auto simp: bit_simps Cons)
  qed
qed simp

lemma ne_bytes_xor:
  assumes "length a = 16" "length b = 16"
  shows "ne_bytes (ne_word a XOR ne_word b) = map2 (XOR) a b"
proof (rule nth_equalityI)
  fix i assume "i < length (ne_bytes (ne_word a XOR ne_word b))"
  then have i: "i < 16" by (simp add: ne_bytes_def)
  have "(ucast (drop_bit (8 * i) (ne_word a XOR ne_word b)) :: byte) = a ! i XOR b ! i"
  proof (rule bit_eqI)
    fix k assume "possible_bit TYPE(byte) k"
    then have "k < 8" by (simp add: possible_bit_def)
    moreover from this have "(8 * i + k) div 8 = i" "(8 * i + k) mod 8 = k" "8 * i + k < 128" using i by auto
    ultimately show "bit (ucast (drop_bit (8 * i) (ne_word a XOR ne_word b)) :: byte) k = bit (a ! i XOR b ! i) k"
      using assms by (simp add: bit_simps bit_ne_word)
  qed
  then show "ne_bytes (ne_word a XOR ne_word b) ! i = map2 (XOR) a b ! i" using i assms by (simp add: ne_bytes_def)
qed (simp add: ne_bytes_def assms)

text \<open>The reference: every byte with the byte of the mask at its position.\<close>

definition xor_at :: "(nat \<Rightarrow> byte) \<Rightarrow> nat \<Rightarrow> byte list \<Rightarrow> byte list" where
  "xor_at at start payload = map (\<lambda>(i, b). b XOR at i) (enumerate start payload)"

lemma length_xor_at [simp]: "length (xor_at at start payload) = length payload"
  by (simp add: xor_at_def)

lemma xor_at_Nil [simp]: "xor_at at start [] = []"
  by (simp add: xor_at_def)

lemma nth_xor_at: "i < length payload \<Longrightarrow> xor_at at start payload ! i = payload ! i XOR at (start + i)"
  by (simp add: xor_at_def nth_enumerate_eq)

lemma xor_at_append: "xor_at at start (a @ b) = xor_at at start a @ xor_at at (start + length a) b"
  by (simp add: xor_at_def enumerate_append_eq)

lemma xor_at_twice [simp]: "xor_at at start (xor_at at start payload) = payload"
  by (rule nth_equalityI) (simp_all add: nth_xor_at xor.assoc)

lemma xor_at_shift:
  assumes "\<And>i. at (i + d) = at' i"
  shows "xor_at at (start + d) payload = xor_at at' start payload"
proof (rule nth_equalityI)
  fix i assume "i < length (xor_at at (start + d) payload)"
  moreover have "at (start + d + i) = at' (start + i)" using assms [of "start + i"] by (simp add: ac_simps)
  ultimately show "xor_at at (start + d) payload ! i = xor_at at' start payload ! i" by (simp add: nth_xor_at)
qed simp

lemma mask_chunks_bytewise:
  assumes "\<And>i. at (i + 16) = at i"
  shows "mask_chunks (ne_word (map at [0..<16])) at payload = xor_at at 0 payload"
proof (induction payload rule: length_induct)
  case (1 payload)
  show ?case
  proof (cases "length payload < 16")
    case True
    then show ?thesis by (simp add: mask_chunks.simps xor_at_def)
  next
    case False
    have "map2 (XOR) (take 16 payload) (map at [0..<16]) = xor_at at 0 (take 16 payload)"
      using False by (intro nth_equalityI) (auto simp: nth_xor_at)
    then have "ne_bytes (ne_word (take 16 payload) XOR ne_word (map at [0..<16])) = xor_at at 0 (take 16 payload)"
      using False by (simp add: ne_bytes_xor)
    moreover have "xor_at at 16 (drop 16 payload) = xor_at at 0 (drop 16 payload)"
      using xor_at_shift [of at 16 at 0] assms by simp
    moreover have "xor_at at 0 payload = xor_at at 0 (take 16 payload) @ xor_at at 16 (drop 16 payload)"
      using xor_at_append [of at 0 "take 16 payload" "drop 16 payload"] False by simp
    ultimately show ?thesis using 1 False by (subst mask_chunks.simps) auto
  qed
qed

lemma and_3_mod: "n AND 3 = n mod 4" for n :: nat
  using take_bit_eq_mask [of 2 n] by (simp add: take_bit_eq_mod mask_eq_exp_minus_1)

definition mask_at :: "byte list \<Rightarrow> nat \<Rightarrow> byte" where
  "mask_at key i = key ! (i mod 4)"

lemma xor_websocket_mask_bytewise: "xor_websocket_mask payload key off = xor_at (mask_at key) off payload"
proof -
  let ?at = "\<lambda>i. key ! ((off mod 4 + i) mod 4)"
  have "?at (i + 16) = ?at i" for i
  proof -
    have "off mod 4 + (i + 16) = off mod 4 + i + 4 * 4" by simp
    then show ?thesis by (metis mod_mult_self2)
  qed
  then have "xor_websocket_mask payload key off = xor_at ?at 0 payload"
    using mask_chunks_bytewise [of ?at payload]
    by (simp add: xor_websocket_mask_def mask_bytes_def and_3_mod Let_def)
  also have "\<dots> = xor_at (mask_at key) (0 + off) payload"
    by (rule xor_at_shift [symmetric]) (simp add: mask_at_def mod_add_right_eq mod_add_left_eq add.commute)
  finally show ?thesis by simp
qed

section \<open>The header is read back\<close>

lemma be_nat_append: "be_nat (bs @ [b]) = be_nat bs * 256 + unat b"
  by (simp add: be_nat_def)

lemma be_nat_be_bytes: "n < 256 ^ k \<Longrightarrow> be_nat (be_bytes k n) = n"
proof (induction k arbitrary: n)
  case 0
  then show ?case by (simp add: be_bytes.simps be_nat_def)
next
  case (Suc k)
  then have "n div 256 < 256 ^ k" by (simp add: less_mult_imp_div_less mult.commute)
  with Suc.IH show ?case by (simp add: be_bytes.simps be_nat_append)
qed

lemma byte_le_15_cases:
  assumes "(b :: byte) \<le> 15"
  shows "b = 0 \<or> b = 1 \<or> b = 2 \<or> b = 3 \<or> b = 4 \<or> b = 5 \<or> b = 6 \<or> b = 7 \<or> b = 8 \<or> b = 9
    \<or> b = 10 \<or> b = 11 \<or> b = 12 \<or> b = 13 \<or> b = 14 \<or> b = 15"
proof -
  have "unat b \<le> 15" using assms by (simp add: word_le_nat_alt)
  then have "unat b \<le> 7 \<or> unat b = 8 \<or> unat b = 9 \<or> unat b = 10 \<or> unat b = 11 \<or> unat b = 12 \<or> unat b = 13
    \<or> unat b = 14 \<or> unat b = 15" by presburger
  moreover have "unat b \<le> 7 \<Longrightarrow> b \<le> 7" by (simp add: word_le_nat_alt)
  ultimately show ?thesis using byte_le_7_cases [of b] by (auto simp: word_unat_eq_iff)
qed

lemma first_byte:
  assumes "op \<le> 15"
  shows "((if fin then 0x80 else 0) OR (op AND 0x0F)) AND 0x70 = (0 :: byte)"
    "((if fin then 0x80 else 0) OR (op AND 0x0F)) AND 0x80 \<noteq> (0 :: byte) \<longleftrightarrow> fin"
    "((if fin then 0x80 else 0) OR (op AND 0x0F)) AND 0x0F = op"
  by (rule byte_le_15_cases [OF assms, THEN disjE]; (elim disjE)?; simp)+

lemma second_byte:
  assumes "n < 128"
  shows "(of_nat n :: byte) AND 0x80 = 0" "unat ((of_nat n :: byte) AND 0x7F) = n"
    "((of_nat n :: byte) OR 0x80) AND 0x80 \<noteq> 0" "unat (((of_nat n :: byte) OR 0x80) AND 0x7F) = n"
proof -
  have m: "(0x7F :: byte) = mask 7" by (simp add: mask_eq_exp_minus_1)
  have t: "(of_nat n :: byte) = take_bit 7 (of_nat n)"
    unfolding take_bit_of_nat using assms by (simp add: take_bit_eq_mod)
  show "(of_nat n :: byte) AND 0x80 = 0"
  proof -
    have "\<not> k < 7" if "bit (0x80 :: byte) k" for k
      using that bit_exp_iff [where ?'a = byte, of 7 k] by simp
    then have "take_bit 7 (of_nat n) AND 0x80 = (0 :: byte)"
      by (intro bit_eqI) (auto simp: bit_simps)
    then show ?thesis unfolding t [symmetric] .
  qed
  show *: "unat ((of_nat n :: byte) AND 0x7F) = n"
    unfolding m take_bit_eq_mask [symmetric] t [symmetric] using assms by simp
  show "((of_nat n :: byte) OR 0x80) AND 0x80 \<noteq> 0"
    by (simp add: bit.conj_disj_distrib2)
  show "unat (((of_nat n :: byte) OR 0x80) AND 0x7F) = n"
    using * by (simp add: bit.conj_disj_distrib2)
qed

text \<open>The payload as it goes over the wire.\<close>

definition masked_payload :: "byte list option \<Rightarrow> byte list \<Rightarrow> byte list" where
  "masked_payload key payload = (case key of None \<Rightarrow> payload | Some k \<Rightarrow> xor_at (mask_at k) 0 payload)"

lemma length_masked [simp]: "length (masked_payload key payload) = length payload"
  by (simp add: masked_payload_def split: option.splits)

definition websocket_frame_bytes :: "byte \<Rightarrow> bool \<Rightarrow> byte list option \<Rightarrow> byte list \<Rightarrow> byte list" where
  "websocket_frame_bytes opcode fin key payload =
     websocket_frame_header opcode fin (length payload) key @ masked_payload key payload"

text \<open>A frame the other side accepts: control frames are short and not fragmented.\<close>

definition acceptable :: "byte \<Rightarrow> bool \<Rightarrow> nat \<Rightarrow> bool" where
  "acceptable opcode fin n =
     (opcode \<le> 15 \<and> (opcode AND 8 \<noteq> 0 \<longrightarrow> fin \<and> n \<le> 125) \<and> n \<le> MAX_WEBSOCKET_MESSAGE_LEN)"

context byte_source
begin

lemma read_ws_bytes: "rest s = bs @ tail \<Longrightarrow> n = length bs \<Longrightarrow> \<exists>s'. read_ws pull n s = (s', Inr bs) \<and> rest s' = tail"
  using read_exact_enough [of n s] by (auto simp: read_ws_def)

lemma read_ws_len_bytes:
  assumes "n \<le> MAX_WEBSOCKET_MESSAGE_LEN"
    and "h = (if n < 126 then [of_nat n] else if n \<le> 0xFFFF then 126 # be_bytes 2 n else 127 # be_bytes 8 n)"
    and "second AND 0x7F = hd h AND 0x7F" and "rest s = tl h @ tail"
  shows "\<exists>s'. read_ws_len pull second s = (s', Inr n) \<and> rest s' = tail"
proof -
  consider (short) "n < 126" | (word) "126 \<le> n" "n \<le> 0xFFFF" | (long) "0xFFFF < n" by linarith
  then show ?thesis
  proof cases
    case short
    then show ?thesis using assms second_byte [of n] by (simp add: read_ws_len_def Let_def)
  next
    case word
    then have "be_nat (be_bytes 2 n) = n" by (intro be_nat_be_bytes) simp
    with read_ws_bytes [of s "be_bytes 2 n" tail 2] word assms(2-4) show ?thesis
      by (auto simp: read_ws_len_def and_read_def Let_def)
  next
    case long
    then have "be_nat (be_bytes 8 n) = n"
      using assms(1) by (intro be_nat_be_bytes) (simp add: MAX_WEBSOCKET_MESSAGE_LEN_def)
    with read_ws_bytes [of s "be_bytes 8 n" tail 8] long assms(2-4) show ?thesis
      by (auto simp: read_ws_len_def and_read_def Let_def)
  qed
qed

lemma read_websocket_frame_bytes:
  assumes ok: "acceptable opcode fin (length payload)"
    and key: "\<And>k. key = Some k \<Longrightarrow> length k = 4"
    and wire: "rest s = websocket_frame_bytes opcode fin key payload @ tail"
  shows "\<exists>s'. read_websocket_frame_mode pull (key \<noteq> None) s = (s', classify_ws opcode fin payload) \<and> rest s' = tail"
proof -
  let ?n = "length payload"
  define h where "h = (if ?n < 126 then [of_nat ?n] else if ?n \<le> 0xFFFF then 126 # be_bytes 2 ?n else 127 # be_bytes 8 ?n :: byte list)"
  define first where "first = ((if fin then 0x80 else 0) OR (opcode AND 0x0F) :: byte)"
  define second where "second = (if key = None then hd h else hd h OR 0x80)"
  define k where "k = (case key of None \<Rightarrow> [] | Some m \<Rightarrow> m)"
  have op: "opcode \<le> 15" and n: "?n \<le> MAX_WEBSOCKET_MESSAGE_LEN" using ok by (auto simp: acceptable_def)
  have hd: "\<exists>j. j < 128 \<and> hd h = of_nat j" unfolding h_def
    by (auto intro: exI [of _ ?n] exI [of _ "126 :: nat"] exI [of _ "127 :: nat"])
  have sec: "second AND 0x80 \<noteq> 0 \<longleftrightarrow> key \<noteq> None" "second AND 0x7F = hd h AND 0x7F"
    using hd second_byte unfolding second_def by (auto simp: bit.conj_disj_distrib2)
  have bytes: "rest s = [first, second] @ tl h @ k @ masked_payload key payload @ tail"
    using wire by (auto simp: websocket_frame_bytes_def websocket_frame_header_def Let_def h_def first_def second_def
        k_def split: option.splits if_splits)
  obtain s1 where s1: "read_ws pull 2 s = (s1, Inr [first, second])" "rest s1 = tl h @ k @ masked_payload key payload @ tail"
    using read_ws_bytes [OF bytes, of 2] by auto
  obtain s2 where s2: "read_ws_len pull second s1 = (s2, Inr ?n)" "rest s2 = k @ masked_payload key payload @ tail"
    using read_ws_len_bytes [OF n h_def sec(2) s1(2)] by blast
  obtain s3 m where s3: "(if key \<noteq> None then read_ws pull 4 s2 else (s2, Inr [0, 0, 0, 0])) = (s3, Inr m)"
    "rest s3 = masked_payload key payload @ tail" "key \<noteq> None \<Longrightarrow> key = Some m"
    using read_ws_bytes [OF s2(2), of 4] s2(2) key by (cases key) (auto simp: k_def)
  obtain s4 where s4: "(if ?n = 0 then (s3, Inr []) else read_ws pull ?n s3) = (s4, Inr (masked_payload key payload))" "rest s4 = tail"
  proof (cases "payload = []")
    case True
    then have "masked_payload key payload = []" by (metis length_0_conv length_masked)
    with that s3(2) True show thesis by simp
  next
    case False
    with that read_ws_bytes [OF s3(2), of ?n] show thesis by auto
  qed
  have unmask: "(if ?n > 0 \<and> key \<noteq> None then xor_websocket_mask (masked_payload key payload) m 0
      else masked_payload key payload) = payload"
    using s3(3) by (cases key) (auto simp: masked_payload_def xor_websocket_mask_bytewise)
  have nths: "[first, second] ! 0 = first" "[first, second] ! 1 = second" by simp_all
  note fb = first_byte [OF op, of fin, folded first_def]
  have c: "\<not> (opcode AND 0x08 \<noteq> 0 \<and> \<not> fin)" "\<not> (opcode AND 0x08 \<noteq> 0 \<and> ?n > 125)" "\<not> ?n > MAX_WEBSOCKET_MESSAGE_LEN"
    using ok by (auto simp: acceptable_def)
  have "read_websocket_frame_mode pull (key \<noteq> None) s = (s4, classify_ws opcode fin payload)"
    by (simp only: read_websocket_frame_mode_def and_read_def Let_def s1(1) prod.case sum.case nths fb sec(1) c
        s2(1) s3(1) s4(1) unmask if_False if_True simp_thms) (use c(1) fb(2) in auto)
  with s4(2) show ?thesis by blast
qed

end

section \<open>Reassembly\<close>

text \<open>Fragments are pushed one after the other until one is refused.\<close>

fun push_fragments :: "(byte \<times> bool \<times> byte list) list \<Rightarrow> accumulator \<Rightarrow> accumulator \<times> websocket_frame_error option" where
  "push_fragments [] a = (a, None)"
| "push_fragments ((opcode, fin, payload) # fs) a =
     (case push_fragment opcode fin payload a of (a', Some e) \<Rightarrow> (a', Some e) | (a', None) \<Rightarrow> push_fragments fs a')"

text \<open>The recorded length of a segmented message is that of its segments, and a message under
  assembly is within the limit.\<close>

definition accumulator_ok :: "accumulator \<Rightarrow> bool" where
  "accumulator_ok a =
     ((\<forall>ss n. storage a = Some (Segmented ss n) \<longrightarrow> n = total_len ss) \<and> acc_len a \<le> MAX_WEBSOCKET_MESSAGE_LEN
      \<and> (storage a \<noteq> None \<longrightarrow> acc_opcode a \<noteq> None))"

definition assembled :: "accumulator \<Rightarrow> byte list" where
  "assembled a = (case storage a of None \<Rightarrow> [] | Some st \<Rightarrow> message_bytes st)"

lemma acc_len_assembled: "accumulator_ok a \<Longrightarrow> acc_len a = length (assembled a)"
  by (auto simp: accumulator_ok_def acc_len_def assembled_def message_bytes_def total_len_def length_concat
      split: option.splits message_storage.splits)

lemma message_bytes_store:
  "message_bytes (store_fragment payload st) = (case st of None \<Rightarrow> [] | Some x \<Rightarrow> message_bytes x) @ payload"
  by (auto simp: store_fragment_def message_bytes_def split: option.splits message_storage.splits)

lemma push_fragment_ok:
  assumes ok: "accumulator_ok a" and p: "push_fragment opcode fin payload a = (a', r)"
  shows "accumulator_ok a' \<and>
    (r = None \<longrightarrow> assembled a' = assembled a @ payload \<and> acc_opcode a' = (if opcode = 0 then acc_opcode a else Some opcode)
      \<and> storage a' \<noteq> None \<and> (complete a' \<longleftrightarrow> fin \<or> complete a))"
proof (cases "r = None")
  case False
  with p ok show ?thesis
    by (auto simp: push_fragment_def Let_def accumulator_ok_def acc_len_def split: if_splits)
next
  case True
  define b where "b = (if opcode = 0 then a else a\<lparr>acc_opcode := Some opcode\<rparr>)"
  have a': "a' = b\<lparr>storage := Some (store_fragment payload (storage a)), complete := (fin \<or> complete a)\<rparr>"
    and fits: "acc_len a + length payload \<le> MAX_WEBSOCKET_MESSAGE_LEN" and op: "acc_opcode b \<noteq> None"
    using p True by (auto simp: push_fragment_def Let_def b_def acc_len_def split: if_splits)
  have "acc_len a' = acc_len a + length payload"
    using a' by (auto simp: acc_len_def store_fragment_def split: option.splits message_storage.splits)
  moreover have "n = total_len ss" if "store_fragment payload (storage a) = Segmented ss n" for ss n
    using that ok by (auto simp: accumulator_ok_def store_fragment_def total_len_def split: option.splits message_storage.splits)
  ultimately show ?thesis using a' fits op
    by (auto simp: accumulator_ok_def assembled_def message_bytes_store b_def)
qed

lemma push_fragments_ok:
  "accumulator_ok a \<Longrightarrow> push_fragments fs a = (a', r) \<Longrightarrow> accumulator_ok a' \<and>
   (r = None \<longrightarrow> assembled a' = assembled a @ concat (map (\<lambda>(_, _, payload). payload) fs)
     \<and> (complete a' \<longleftrightarrow> complete a \<or> (\<exists>(_, fin, _) \<in> set fs. fin)) \<and> (fs \<noteq> [] \<longrightarrow> storage a' \<noteq> None))"
proof (induction fs arbitrary: a)
  case (Cons f fs)
  obtain opcode fin payload where f: "f = (opcode, fin, payload)" by (metis prod_cases3)
  obtain a1 r1 where p: "push_fragment opcode fin payload a = (a1, r1)" by fastforce
  note step = push_fragment_ok [OF Cons.prems(1) p]
  show ?case
  proof (cases r1)
    case (Some e)
    with Cons.prems p f step show ?thesis by auto
  next
    case None
    then have rec: "push_fragments fs a1 = (a', r)" using Cons.prems(2) p f by simp
    have "fs = [] \<Longrightarrow> a' = a1" using rec by auto
    with Cons.IH [OF _ rec] step None f show ?thesis by auto
  qed
qed auto

text \<open>A well-formed sequence is accepted as long as it stays within the limit.\<close>

lemma push_continuations_accepted:
  assumes "accumulator_ok a" and "acc_opcode a \<noteq> None" and "acc_len a + total_len (map snd ps) \<le> MAX_WEBSOCKET_MESSAGE_LEN"
  shows "\<exists>a'. push_fragments (map (\<lambda>(fin, p). (0, fin, p)) ps) a = (a', None)"
  using assms
proof (induction ps arbitrary: a)
  case (Cons q ps)
  obtain fin p where q: "q = (fin, p)" by fastforce
  obtain a1 where p: "push_fragment 0 fin p a = (a1, None)"
    using Cons.prems q by (auto simp: push_fragment_def Let_def total_len_def)
  note step = push_fragment_ok [OF Cons.prems(1) this]
  moreover have "acc_len a1 = acc_len a + length p"
    using step acc_len_assembled Cons.prems(1) by simp
  ultimately show ?case using Cons.IH [of a1] Cons.prems p q by (auto simp: total_len_def)
qed simp

lemma accumulator_ok_new: "accumulator_ok new_accumulator"
  by (simp add: accumulator_ok_def new_accumulator_def acc_len_def)

lemma empty_continuations_accepted:
  assumes "acc_opcode a \<noteq> None" "\<not> complete a" "storage a = Some (Segmented ss 1)"
  shows "\<exists>a' ss'. push_fragments (replicate n (0, False, [])) a = (a', None) \<and> \<not> complete a'
    \<and> storage a' = Some (Segmented ss' 1) \<and> length ss' = length ss + n"
  using assms
proof (induction n arbitrary: a ss)
  case (Suc n)
  let ?a = "a\<lparr>storage := Some (Segmented (ss @ [[]]) 1), complete := False\<rparr>"
  have "push_fragment 0 False [] a = (?a, None)"
    using Suc.prems by (simp add: push_fragment_def acc_len_def store_fragment_def MAX_WEBSOCKET_MESSAGE_LEN_def)
  with Suc.IH [of ?a "ss @ [[]]"] Suc.prems show ?case by auto
qed auto

section \<open>What the frames guarantee\<close>

text \<open>C39: Masking sixteen bytes at a time through a 128-bit word is the same as masking each byte
  with the mask byte of its position, for every payload, every mask and every start position,
  so a payload may be masked in pieces of any size; and masking twice gives the payload back.\<close>

theorem xor_websocket_mask_reference:
  "xor_websocket_mask payload key off = map (\<lambda>i. payload ! i XOR key ! ((off + i) mod 4)) [0..<length payload]
   \<and> xor_websocket_mask (a @ b) key off = xor_websocket_mask a key off @ xor_websocket_mask b key (off + length a)
   \<and> xor_websocket_mask (xor_websocket_mask payload key off) key off = payload"
proof -
  have "xor_at (mask_at key) off payload = map (\<lambda>i. payload ! i XOR key ! ((off + i) mod 4)) [0..<length payload]"
    by (rule nth_equalityI) (simp_all add: nth_xor_at mask_at_def)
  then show ?thesis unfolding xor_websocket_mask_bytewise xor_at_append xor_at_twice by simp
qed

text \<open>Reassembly of fragmented messages. A message split into any number of fragments, the
  first with its opcode and the others as continuations, is accepted whenever it is within the
  supported length, and exactly at the last fragment the accumulator yields one message whose
  bytes are those of the fragments in order, and is ready for the next message; a message above
  the limit is never stored.\<close>

theorem fragments_reassembled:
  assumes op: "opcode = 1 \<or> opcode = 2" and len: "length p + total_len qs + length q \<le> MAX_WEBSOCKET_MESSAGE_LEN"
  shows "(\<exists>a st. push_fragments ((opcode, False, p) # map (\<lambda>q. (0, False, q)) qs @ [(0, True, q)]) new_accumulator = (a, None)
      \<and> take_complete a = (new_accumulator, Some st) \<and> message_bytes st = p @ concat qs @ q)
    \<and> (\<exists>a. push_fragments ((opcode, False, p) # map (\<lambda>q. (0, False, q)) qs) new_accumulator = (a, None)
      \<and> take_complete a = (a, None))
    \<and> length (assembled (fst (push_fragments fs new_accumulator))) \<le> MAX_WEBSOCKET_MESSAGE_LEN"
proof -
  obtain a0 where a0: "push_fragment opcode False p new_accumulator = (a0, None)"
    using op len by (auto simp: push_fragment_def new_accumulator_def acc_len_def Let_def)
  note s0 = push_fragment_ok [OF accumulator_ok_new a0]
  have ok: "accumulator_ok a0" and len0: "acc_len a0 = length p" and op0: "acc_opcode a0 \<noteq> None"
    and body0: "assembled a0 = p" "\<not> complete a0"
    using s0 acc_len_assembled op by (auto simp: assembled_def new_accumulator_def)
  note accepted = push_continuations_accepted [OF ok op0, unfolded len0]
  let ?inits = "map (\<lambda>q. (0 :: byte, False, q)) qs"
  have inits: "map (\<lambda>(fin, p). (0, fin, p)) (map (Pair False) qs) = ?inits" by (induction qs) auto
  obtain a1 where a1: "push_fragments ?inits a0 = (a1, None)"
    using accepted [of "map (Pair False) qs"] len inits by (auto simp: comp_def)
  have "\<not> complete a1" using push_fragments_ok [OF ok a1] body0 by auto
  obtain a2 where a2: "push_fragments (?inits @ [(0, True, q)]) a0 = (a2, None)"
    using accepted [of "map (Pair False) qs @ [(True, q)]"] len inits by (auto simp: comp_def total_len_def)
  note s2 = push_fragments_ok [OF ok a2]
  have "assembled a2 = p @ concat qs @ q" "complete a2" "storage a2 \<noteq> None"
    using s2 body0 by (auto simp: comp_def)
  then obtain st where "storage a2 = Some st" "message_bytes st = p @ concat qs @ q" by (auto simp: assembled_def)
  moreover have "length (assembled (fst (push_fragments fs new_accumulator))) \<le> MAX_WEBSOCKET_MESSAGE_LEN"
    using push_fragments_ok [OF accumulator_ok_new, of fs] acc_len_assembled
    by (metis accumulator_ok_def prod.collapse)
  ultimately show ?thesis using a0 a1 a2 \<open>complete a2\<close> \<open>\<not> complete a1\<close>
    by (simp add: take_complete_def new_accumulator_def)
qed

theorem fragments_reassembled_witness:
  "\<exists>a st. push_fragments [(1, False, [104]), (0, False, []), (0, True, [105])] new_accumulator = (a, None)
    \<and> take_complete a = (new_accumulator, Some st) \<and> message_bytes st = [104, 105]"
  using fragments_reassembled [of 1 "[104]" "[[]]" "[105]" "[]"]
  by (simp add: total_len_def MAX_WEBSOCKET_MESSAGE_LEN_def)

text \<open>The limit counts bytes, not fragments: a peer can send empty continuation frames
  for ever, every one of them is accepted, and the accumulator keeps a segment for each.\<close>

theorem empty_fragments_accumulate:
  "\<exists>a ss. push_fragments ((1, False, [104]) # replicate (Suc n) (0, False, [])) new_accumulator = (a, None)
    \<and> storage a = Some (Segmented ss 1) \<and> length ss = n + 2 \<and> \<not> complete a"
proof -
  let ?a = "\<lparr>acc_opcode = Some 1, storage = Some (Segmented [[104], []] 1), complete = False\<rparr>"
  have "push_fragments ((1, False, [104]) # replicate (Suc n) (0, False, [])) new_accumulator =
      push_fragments (replicate n (0, False, [])) ?a"
    by (simp add: push_fragment_def new_accumulator_def acc_len_def store_fragment_def MAX_WEBSOCKET_MESSAGE_LEN_def)
  with empty_continuations_accepted [of ?a "[[104], []]" n] show ?thesis by auto
qed

text \<open>A close reason of up to 123 bytes arrives as it was given. A longer one is cut at a
  byte, not at a character: the close frame of a reason whose 123rd byte falls inside a
  character is refused by the parser of the same code as invalid UTF-8.\<close>

theorem close_payload_roundtrip:
  "(utf8_valid reason \<and> length reason \<le> 123 \<longrightarrow>
      parse_websocket_close_frame_payload (encode_websocket_close_payload (Some code) reason) = Inr (Some code, reason))
   \<and> length (encode_websocket_close_payload c r) \<le> 125
   \<and> utf8_valid (replicate 122 0x61 @ [0xC3, 0xA4])
   \<and> parse_websocket_close_frame_payload (encode_websocket_close_payload (Some code) (replicate 122 0x61 @ [0xC3, 0xA4])) =
      Inl (ws_invalid_payload ''websocket close reason must be valid UTF-8'')"
proof -
  have "be_bytes 2 (unat code) = [of_nat (unat code div 256 mod 256), of_nat (unat code mod 256)]" by (rule be_bytes_2)
  moreover have "u16_from_be_bytes (of_nat (unat code div 256 mod 256)) (of_nat (unat code mod 256)) = code"
  proof -
    have "unat code < 65536" using unsigned_less [of code, where ?'a = nat] by simp
    then show ?thesis using be_bytes_u16 [of "unat code" "of_nat (unat code div 256 mod 256)" "of_nat (unat code mod 256)"]
        be_bytes_2 [of "unat code"] by (simp add: word_unat_eq_iff)
  qed
  moreover have ascii: "utf8_valid (replicate n 0x61 @ bs) = utf8_valid bs" for n bs by (induction n) auto
  ultimately show ?thesis
    using ascii [of 122] by (auto simp: parse_websocket_close_frame_payload_def encode_websocket_close_payload_def
        tail_byte_def split: option.splits)
qed

theorem close_payload_roundtrip_witness:
  "parse_websocket_close_frame_payload (encode_websocket_close_payload (Some 1000) [98, 121, 101]) = Inr (Some 1000, [98, 121, 101])"
  using close_payload_roundtrip [of "[98, 121, 101]" 1000] by simp

text \<open>A frame is read back as it was written, masked or not, in chunks of any size: for
  every opcode, every payload within the limits and every mask, the reader of the other side
  yields the frame that the opcode stands for with the unmasked payload, and stops exactly
  at its end.\<close>

theorem websocket_frame_roundtrip:
  assumes "byte_source pull rest" and "acceptable opcode fin (length payload)"
    and "\<forall>k. key = Some k \<longrightarrow> length k = 4"
    and "rest s = websocket_frame_header opcode fin (length payload) key
      @ (case key of None \<Rightarrow> payload | Some k \<Rightarrow> xor_websocket_mask payload k 0) @ tail"
  shows "\<exists>s'. read_websocket_frame_mode pull (key \<noteq> None) s = (s', classify_ws opcode fin payload) \<and> rest s' = tail"
proof -
  have "rest s = websocket_frame_bytes opcode fin key payload @ tail"
    using assms(4) by (cases key) (simp_all add: websocket_frame_bytes_def masked_payload_def xor_websocket_mask_bytewise)
  with byte_source.read_websocket_frame_bytes [OF assms(1,2)] assms(3) show ?thesis by blast
qed

theorem websocket_frame_roundtrip_witness:
  "\<exists>w. read_websocket_frame_mode wire_pull True
     \<lparr>chunks = [websocket_frame_header 2 True 3 (Some [1, 2, 3, 4]), xor_websocket_mask [7, 8, 9] [1, 2, 3, 4] 0], silent = True, sent = []\<rparr> =
     (w, Inr (Ws_Data 2 True [7, 8, 9]))"
  using websocket_frame_roundtrip [OF wire.byte_source_axioms, of 2 True "[7, 8, 9]" "Some [1, 2, 3, 4]"
      "\<lparr>chunks = [websocket_frame_header 2 True 3 (Some [1, 2, 3, 4]), xor_websocket_mask [7, 8, 9] [1, 2, 3, 4] 0], silent = True, sent = []\<rparr>" "[]"]
  by (auto simp: acceptable_def MAX_WEBSOCKET_MESSAGE_LEN_def wire_rest_def classify_ws_def numeral_3_eq_3)

end
