(* ===== verification/Websocket_Writer.thy ===== *)
theory Websocket_Writer
  imports Websocket_Frames
begin

text \<open>
  Writing WebSocket messages (\<^verbatim>\<open>ct_core/src/lib.rs\<close>). A data message of several segments
  becomes a sequence of continuation frames, of which small ones are collected into one
  write; a masked payload is masked in pieces; an unmasked frame may go out in one vectored
  write; a range of a file is masked and sent in chunks. The scratch buffers are values here.
  \<open>draw\<close> is the random generator that gives a mask, \<open>vectored\<close> the vectored write of a
  transport that has one. The lemmas say which frames the written bytes encode.
\<close>

unbundle bit_operations_syntax

section \<open>Writing one frame\<close>

definition WEBSOCKET_MASK_CHUNK_SIZE :: nat where "WEBSOCKET_MASK_CHUNK_SIZE = 1024 * 1024"
definition WEBSOCKET_COALESCE_FRAME_SIZE :: nat where "WEBSOCKET_COALESCE_FRAME_SIZE = 64 * 1024"

type_synonym 's vectored_write = "(byte list \<Rightarrow> byte list \<Rightarrow> 's \<Rightarrow> 's \<times> (stream_error + nat)) option"

definition draw_header ::
  "('s \<Rightarrow> 's \<times> byte list) \<Rightarrow> byte \<Rightarrow> bool \<Rightarrow> nat \<Rightarrow> bool \<Rightarrow> 's \<Rightarrow> 's \<times> byte list \<times> byte list option" where
  "draw_header draw opcode fin len mask_payload s =
     (if mask_payload then case draw s of (s', key) \<Rightarrow> (s', websocket_frame_header opcode fin len (Some key), Some key)
      else (s, websocket_frame_header opcode fin len None, None))"

function write_vectored_all ::
  "(byte list \<Rightarrow> byte list \<Rightarrow> 's \<Rightarrow> 's \<times> (stream_error + nat)) \<Rightarrow> byte list \<Rightarrow> byte list \<Rightarrow> 's \<Rightarrow> 's \<times> stream_error option" where
  "write_vectored_all wv header payload s =
     (if header = [] \<and> payload = [] then (s, None)
      else case wv header payload s of
          (s', Inl e) \<Rightarrow> (s', Some e)
        | (s', Inr 0) \<Rightarrow> (s', Some Broken)
        | (s', Inr (Suc n)) \<Rightarrow>
            if Suc n < length header then write_vectored_all wv (drop (Suc n) header) payload s'
            else write_vectored_all wv [] (drop (Suc n - length header) payload) s')"
  by pat_completeness auto
termination
  by (relation "measure (\<lambda>(_, header, payload, _). length header + length payload)")
     (auto simp: length_greater_0_conv [symmetric] simp del: length_greater_0_conv)

declare write_vectored_all.simps [simp del]

definition write_unmasked_websocket_frame ::
  "'s sink \<Rightarrow> 's vectored_write \<Rightarrow> byte list \<Rightarrow> byte list \<Rightarrow> 's \<Rightarrow> 's \<times> stream_error option" where
  "write_unmasked_websocket_frame push vectored header payload s =
     (if payload = [] then push header s
      else case vectored of
          Some wv \<Rightarrow> write_vectored_all wv header payload s
        | None \<Rightarrow>
            if length payload \<le> WEBSOCKET_COALESCE_FRAME_SIZE then push (header @ payload) s
            else chain (push header) (push payload) s)"

function write_masked_chunks :: "'s sink \<Rightarrow> byte list \<Rightarrow> nat \<Rightarrow> byte list \<Rightarrow> 's \<Rightarrow> 's \<times> stream_error option" where
  "write_masked_chunks push key payload_offset remaining s =
     (if remaining = [] then (s, None)
      else let chunk_len = min (length remaining) WEBSOCKET_MASK_CHUNK_SIZE in
        case push (xor_websocket_mask (take chunk_len remaining) key payload_offset) s of
          (s', Some e) \<Rightarrow> (s', Some e)
        | (s', None) \<Rightarrow> write_masked_chunks push key (payload_offset + chunk_len) (drop chunk_len remaining) s')"
  by pat_completeness auto
termination
  by (relation "measure (\<lambda>(_, _, _, remaining, _). length remaining)") (auto simp: WEBSOCKET_MASK_CHUNK_SIZE_def)

declare write_masked_chunks.simps [simp del]

definition write_masked_websocket_frame ::
  "'s sink \<Rightarrow> byte list \<Rightarrow> byte list \<Rightarrow> byte list \<Rightarrow> 's \<Rightarrow> 's \<times> stream_error option" where
  "write_masked_websocket_frame push header payload key s =
     (if payload = [] then push header s
      else let first_chunk_len = min (length payload) WEBSOCKET_MASK_CHUNK_SIZE in
        chain (push (header @ xor_websocket_mask (take first_chunk_len payload) key 0))
          (write_masked_chunks push key first_chunk_len (drop first_chunk_len payload)) s)"

definition write_websocket_frame_fragment_mode ::
  "'s sink \<Rightarrow> 's vectored_write \<Rightarrow> ('s \<Rightarrow> 's \<times> byte list) \<Rightarrow> byte \<Rightarrow> bool \<Rightarrow> nat \<Rightarrow> byte list \<Rightarrow> bool \<Rightarrow> 's \<Rightarrow> 's \<times> stream_error option" where
  "write_websocket_frame_fragment_mode push vectored draw opcode fin len payload mask_payload s =
     (case draw_header draw opcode fin len mask_payload s of
        (s', header, Some key) \<Rightarrow> write_masked_websocket_frame push header payload key s'
      | (s', header, None) \<Rightarrow> write_unmasked_websocket_frame push vectored header payload s')"

section \<open>Continuation frames\<close>

definition flush_websocket_frame_batch :: "'s sink \<Rightarrow> byte list \<Rightarrow> 's \<Rightarrow> 's \<times> stream_error option" where
  "flush_websocket_frame_batch push scratch s = (if scratch = [] then (s, None) else push scratch s)"

text \<open>The loop over the segments: \<open>scratch\<close> is the batch that has not been written yet.\<close>

fun continuation_loop ::
  "'s sink \<Rightarrow> 's vectored_write \<Rightarrow> ('s \<Rightarrow> 's \<times> byte list) \<Rightarrow> byte \<Rightarrow> nat \<Rightarrow> bool \<Rightarrow> nat \<Rightarrow> bool \<Rightarrow> byte list \<Rightarrow>
   byte list list \<Rightarrow> 's \<Rightarrow> 's \<times> stream_error option" where
  "continuation_loop push vectored draw opcode last_index mask_payload index sent_first scratch [] s =
     flush_websocket_frame_batch push scratch s"
| "continuation_loop push vectored draw opcode last_index mask_payload index sent_first scratch (segment # segs) s =
     (if segment = [] then
        continuation_loop push vectored draw opcode last_index mask_payload (Suc index) sent_first scratch segs s
      else let frame_opcode = (if sent_first then 0 else opcode) in
        case draw_header draw frame_opcode (index = last_index) (length segment) mask_payload s of
          (s1, header, key) \<Rightarrow>
            let frame_len = length header + length segment in
            if frame_len > WEBSOCKET_COALESCE_FRAME_SIZE then
              chain (flush_websocket_frame_batch push scratch)
                (chain (write_websocket_frame_fragment_mode push vectored draw frame_opcode (index = last_index)
                          (length segment) segment mask_payload)
                  (continuation_loop push vectored draw opcode last_index mask_payload (Suc index) True [] segs)) s1
            else
              let bytes = header @ (case key of None \<Rightarrow> segment | Some k \<Rightarrow> xor_websocket_mask segment k 0) in
              if length scratch + frame_len > WEBSOCKET_COALESCE_FRAME_SIZE then
                chain (flush_websocket_frame_batch push scratch)
                  (continuation_loop push vectored draw opcode last_index mask_payload (Suc index) True bytes segs) s1
              else continuation_loop push vectored draw opcode last_index mask_payload (Suc index) True (scratch @ bytes) segs s1)"

definition non_empty :: "byte list list \<Rightarrow> byte list list" where
  "non_empty ss = filter (\<lambda>p. p \<noteq> []) ss"

definition first_non_empty :: "byte list list \<Rightarrow> byte list" where
  "first_non_empty ss = (case find (\<lambda>p. p \<noteq> []) ss of None \<Rightarrow> [] | Some p \<Rightarrow> p)"

text \<open>The position of the last segment that is not empty.\<close>

definition last_non_empty :: "byte list list \<Rightarrow> nat option" where
  "last_non_empty ss = map_option fst (find (\<lambda>(i, p). p \<noteq> []) (rev (enumerate 0 ss)))"

definition write_websocket_continuation_frames ::
  "'s sink \<Rightarrow> 's vectored_write \<Rightarrow> ('s \<Rightarrow> 's \<times> byte list) \<Rightarrow> byte \<Rightarrow> byte list list \<Rightarrow> bool \<Rightarrow> 's \<Rightarrow> ('s \<times> stream_error option) option" where
  "write_websocket_continuation_frames push vectored draw opcode ss mask_payload s =
     (if length (non_empty ss) \<le> 1 then
        Some (write_websocket_frame_fragment_mode push vectored draw opcode True (length (first_non_empty ss))
          (first_non_empty ss) mask_payload s)
      else map_option (\<lambda>last_index.
        continuation_loop push vectored draw opcode last_index mask_payload 0 False [] ss s) (last_non_empty ss))"

definition is_data_opcode :: "byte \<Rightarrow> bool" where
  "is_data_opcode opcode = (opcode = 1 \<or> opcode = 2)"

text \<open>\<open>None\<close> is the panic of the \<open>expect\<close> in the continuation path.\<close>

definition write_websocket_frame_mode ::
  "'s sink \<Rightarrow> 's vectored_write \<Rightarrow> ('s \<Rightarrow> 's \<times> byte list) \<Rightarrow> byte \<Rightarrow> nat \<Rightarrow> byte list list \<Rightarrow> byte list list \<Rightarrow> bool \<Rightarrow> 's \<Rightarrow>
   ('s \<times> stream_error option) option" where
  "write_websocket_frame_mode push vectored draw opcode len segs suffix mask_payload s =
     (let ss = (if suffix = [] then segs else segs @ suffix) in
      if is_data_opcode opcode \<and> length (non_empty ss) > 1
      then write_websocket_continuation_frames push vectored draw opcode ss mask_payload s
      else Some (write_websocket_frame_fragment_mode push vectored draw opcode True
             (min len (length (first_non_empty ss))) (first_non_empty ss) mask_payload s))"

section \<open>Frames with a file range\<close>

text \<open>The position in the payload selects the byte of the mask. It counts only what was written,
  so a result carries it on.\<close>

definition write_websocket_payload ::
  "'s sink \<Rightarrow> byte list option \<Rightarrow> nat \<Rightarrow> byte list \<Rightarrow> 's \<Rightarrow> 's \<times> (stream_error + nat)" where
  "write_websocket_payload push key payload_offset payload s =
     (case (case key of
              None \<Rightarrow> if payload = [] then (s, None) else push payload s
            | Some k \<Rightarrow> write_masked_chunks push k payload_offset payload s) of
        (s', Some e) \<Rightarrow> (s', Inl e)
      | (s', None) \<Rightarrow> (s', Inr (payload_offset + length payload)))"

primrec write_websocket_payloads ::
  "'s sink \<Rightarrow> byte list option \<Rightarrow> nat \<Rightarrow> byte list list \<Rightarrow> 's \<Rightarrow> 's \<times> (stream_error + nat)" where
  "write_websocket_payloads push key payload_offset [] s = (s, Inr payload_offset)"
| "write_websocket_payloads push key payload_offset (p # ps) s =
     (case write_websocket_payload push key payload_offset p s of
        (s', Inl e) \<Rightarrow> (s', Inl e)
      | (s', Inr off) \<Rightarrow> write_websocket_payloads push key off ps s')"

definition mask_with :: "byte list option \<Rightarrow> nat \<Rightarrow> byte list \<Rightarrow> byte list" where
  "mask_with key payload_offset bs = (case key of None \<Rightarrow> bs | Some k \<Rightarrow> xor_websocket_mask bs k payload_offset)"

function websocket_file_chunks ::
  "(byte list \<Rightarrow> byte list) \<Rightarrow> 's sink \<Rightarrow> byte list \<Rightarrow> file_segment_encoding \<Rightarrow> byte list option \<Rightarrow> nat \<Rightarrow> nat \<Rightarrow> nat \<Rightarrow> 's \<Rightarrow>
   's \<times> (stream_error + nat)" where
  "websocket_file_chunks encode push fbytes enc key payload_offset off remaining s =
     (if remaining = 0 then (s, Inr payload_offset)
      else let chunk_len = (case enc of Identity \<Rightarrow> min remaining FILE_SEGMENT_BUFFER_SIZE
                                      | Base64 \<Rightarrow> min remaining BASE64_FILE_SEGMENT_INPUT_SIZE)
           in case read_file_exact_at fbytes off chunk_len of
                Inl e \<Rightarrow> (s, Inl e)
              | Inr bs \<Rightarrow>
                  let out_bytes = (case enc of Identity \<Rightarrow> bs | Base64 \<Rightarrow> encode bs) in
                  (case push (mask_with key payload_offset out_bytes) s of
                     (s', Some e) \<Rightarrow> (s', Inl e)
                   | (s', None) \<Rightarrow>
                       if off + chunk_len > u64_max then (s', Inl Broken)
                       else websocket_file_chunks encode push fbytes enc key (payload_offset + length out_bytes)
                              (off + chunk_len) (remaining - chunk_len) s'))"
  by pat_completeness auto
termination
  by (relation "measure (\<lambda>(_, _, _, _, _, _, _, remaining, _). remaining)")
     (auto simp: FILE_SEGMENT_BUFFER_SIZE_def BASE64_FILE_SEGMENT_INPUT_SIZE_def split: file_segment_encoding.splits)

declare websocket_file_chunks.simps [simp del]

text \<open>One step after the other, carrying the position on.\<close>

definition carry :: "('s \<times> (stream_error + nat)) \<Rightarrow> (nat \<Rightarrow> 's \<Rightarrow> 's \<times> (stream_error + nat)) \<Rightarrow> 's \<times> (stream_error + nat)" where
  "carry m f = (case m of (s, Inl e) \<Rightarrow> (s, Inl e) | (s, Inr off) \<Rightarrow> f off s)"

definition write_websocket_file_frame_mode ::
  "(byte list \<Rightarrow> byte list) \<Rightarrow> 's sink \<Rightarrow> ('s \<Rightarrow> 's \<times> byte list) \<Rightarrow> byte \<Rightarrow> nat \<Rightarrow> byte list list \<Rightarrow> outbound_file_segment \<Rightarrow>
   byte list list \<Rightarrow> bool \<Rightarrow> 's \<Rightarrow> 's \<times> stream_error option" where
  "write_websocket_file_frame_mode encode push draw opcode len prefix fs suffix mask_payload s =
     (case draw_header draw opcode True len mask_payload s of
        (s0, header, key) \<Rightarrow>
          (case push header s0 of
             (s1, Some e) \<Rightarrow> (s1, Some e)
           | (s1, None) \<Rightarrow>
               (case carry (carry (write_websocket_payloads push key 0 prefix s1)
                      (\<lambda>at. websocket_file_chunks encode push (content fs) (encoding fs) key at (offset fs) (source_len fs)))
                      (\<lambda>at. write_websocket_payloads push key at suffix) of
                  (s2, Inl e) \<Rightarrow> (s2, Some e)
                | (s2, Inr payload_offset) \<Rightarrow> (s2, if payload_offset \<noteq> len then Some Broken else None))))"

section \<open>What is written\<close>

text \<open>The frames of a message: its segments, the first with the opcode, the last one final.\<close>

fun fragments :: "byte \<Rightarrow> byte list list \<Rightarrow> (byte \<times> bool \<times> byte list) list" where
  "fragments opcode [] = [(opcode, True, [])]"
| "fragments opcode [p] = [(opcode, True, p)]"
| "fragments opcode (p # q # ps) = (opcode, False, p) # fragments 0 (q # ps)"

definition continued :: "byte \<Rightarrow> byte list list \<Rightarrow> (byte \<times> bool \<times> byte list) list" where
  "continued opcode ps = (if ps = [] then [] else fragments opcode ps)"

lemma continued_simps [simp]:
  "continued opcode [] = []"
  "continued opcode (p # ps) = (opcode, ps = [], p) # continued 0 ps"
  by (simp_all add: continued_def neq_Nil_conv) auto

lemma non_empty_simps [simp]:
  "non_empty [] = []" "non_empty (p # ps) = (if p = [] then non_empty ps else p # non_empty ps)"
  by (simp_all add: non_empty_def)

text \<open>\<open>last_index\<close> is the position of the last segment that is not empty, seen from \<open>index\<close>.\<close>

definition is_last :: "nat \<Rightarrow> nat \<Rightarrow> byte list list \<Rightarrow> bool" where
  "is_last last_index index ss =
     (\<forall>i < length ss. ss ! i \<noteq> [] \<longrightarrow> (index + i = last_index \<longleftrightarrow> non_empty (drop (Suc i) ss) = []))"

lemma is_last_Cons:
  "is_last last_index index (p # ps) \<longleftrightarrow>
   (p \<noteq> [] \<longrightarrow> (index = last_index \<longleftrightarrow> non_empty ps = [])) \<and> is_last last_index (Suc index) ps"
  by (auto simp: is_last_def less_Suc_eq_0_disj)

lemma last_non_empty_snoc:
  "last_non_empty (ss @ [p]) = (if p \<noteq> [] then Some (length ss) else last_non_empty ss)"
  by (simp add: last_non_empty_def enumerate_append_eq)

lemma last_non_empty_is_last:
  "non_empty ss \<noteq> [] \<Longrightarrow> \<exists>l. last_non_empty ss = Some l \<and> l < length ss \<and> ss ! l \<noteq> [] \<and> is_last l 0 ss"
proof (induction ss rule: rev_induct)
  case (snoc p ss)
  have ne: "non_empty (xs @ ys) = non_empty xs @ non_empty ys" for xs ys by (simp add: non_empty_def)
  show ?case
  proof (cases "p = []")
    case True
    with snoc show ?thesis
      by (fastforce simp: last_non_empty_snoc ne is_last_def nth_append less_Suc_eq)
  next
    case False
    then show ?thesis
      by (auto simp: last_non_empty_snoc ne is_last_def nth_append less_Suc_eq)
  qed
qed simp

lemma first_non_empty_Cons: "first_non_empty (p # ss) = (if p = [] then first_non_empty ss else p)"
  by (simp add: first_non_empty_def)

lemma all_empty: "non_empty ss = [] \<Longrightarrow> total_len ss = 0"
  by (induction ss) (auto simp: total_len_def split: if_splits)

lemma single_non_empty:
  "length (non_empty ss) \<le> 1 \<Longrightarrow>
   non_empty ss = (if first_non_empty ss = [] then [] else [first_non_empty ss]) \<and> total_len ss = length (first_non_empty ss)"
proof (induction ss)
  case Nil
  then show ?case by (simp add: first_non_empty_def total_len_def)
next
  case (Cons p ss)
  have len: "total_len (p # ss) = length p + total_len ss" by (simp add: total_len_def)
  show ?case
  proof (cases "p = []")
    case True
    with Cons have "non_empty ss = (if first_non_empty ss = [] then [] else [first_non_empty ss])"
      "total_len ss = length (first_non_empty ss)" by simp_all
    with True len show ?thesis by (metis add_0 first_non_empty_Cons list.size(3) non_empty_simps(2))
  next
    case False
    with Cons.prems have "non_empty ss = []" by simp
    with False len show ?thesis by (simp add: first_non_empty_Cons all_empty)
  qed
qed

text \<open>Bytes that encode a sequence of frames, with masks of the writer's choice.\<close>

inductive encoded :: "bool \<Rightarrow> (byte \<times> bool \<times> byte list) list \<Rightarrow> byte list \<Rightarrow> bool" for masked where
  none: "encoded masked [] []"
| frame: "encoded masked frs bs \<Longrightarrow> (key \<noteq> None) = masked \<Longrightarrow> (\<And>k. key = Some k \<Longrightarrow> length k = 4) \<Longrightarrow>
    encoded masked ((opcode, fin, payload) # frs) (websocket_frame_bytes opcode fin key payload @ bs)"

inductive_simps encoded_Nil [simp]: "encoded masked [] bs"
inductive_cases encoded_ConsE: "encoded masked (f # frs) bs"

lemma encoded_append: "encoded masked xs a \<Longrightarrow> encoded masked ys b \<Longrightarrow> encoded masked (xs @ ys) (a @ b)"
proof (induction rule: encoded.induct)
  case (frame frs bs key opcode fin payload)
  then show ?case using encoded.frame [of masked "frs @ ys" "bs @ b" key] by simp
qed simp

lemma mask_with_append: "mask_with key at (a @ b) = mask_with key at a @ mask_with key (at + length a) b"
  by (simp add: mask_with_def xor_websocket_mask_bytewise xor_at_append split: option.splits)

lemma mask_with_Nil: "mask_with key at [] = []"
  by (simp add: mask_with_def xor_websocket_mask_bytewise split: option.splits)

text \<open>There are always masks to choose, and the first bytes of an encoding.\<close>

lemma encoded_exists: "\<exists>bs. encoded masked frs bs"
proof (induction frs)
  case (Cons fr frs)
  then obtain bs where bs: "encoded masked frs bs" by blast
  obtain opcode fin payload where fr: "fr = (opcode, fin, payload)" by (metis prod_cases3)
  have "encoded masked (fr # frs) (websocket_frame_bytes opcode fin (if masked then Some [0, 0, 0, 0] else None) payload @ bs)"
    unfolding fr by (rule encoded.frame [OF bs]) (auto split: if_splits)
  then show ?case by blast
qed (auto intro: encoded.none)

definition begins :: "byte list \<Rightarrow> byte list \<Rightarrow> bool" where
  "begins p bs = (\<exists>q. bs = p @ q)"

lemma begins_refl [simp]: "begins bs bs" and begins_Nil [simp]: "begins [] bs"
  by (simp_all add: begins_def)

lemma begins_append: "begins p bs \<Longrightarrow> begins p (bs @ cs)" "begins p bs \<Longrightarrow> begins (a @ p) (a @ bs)"
  by (auto simp: begins_def)

text \<open>A transport that fails has accepted the beginning of the bytes it was given, and nothing
  of a vectored write.\<close>

definition clean_failures :: "'s sink \<Rightarrow> 's vectored_write \<Rightarrow> ('s \<Rightarrow> byte list) \<Rightarrow> bool" where
  "clean_failures push vectored out =
     ((\<forall>bs s s' e. push bs s = (s', Some e) \<longrightarrow> (\<exists>p. begins p bs \<and> out s' = out s @ p))
      \<and> (\<forall>wv h p s s' e. vectored = Some wv \<longrightarrow> wv h p s = (s', Inl e) \<longrightarrow> out s' = out s))"

text \<open>A transport that never fails.\<close>

definition reliable :: "'s sink \<Rightarrow> ('s \<Rightarrow> 's \<times> stream_error option) \<Rightarrow> 's vectored_write \<Rightarrow> bool" where
  "reliable push flush vectored =
     ((\<forall>bs s. snd (push bs s) = None) \<and> (\<forall>s. snd (flush s) = None)
      \<and> (\<forall>wv h p s. vectored = Some wv \<longrightarrow> h @ p \<noteq> [] \<longrightarrow> (\<exists>s' n. wv h p s = (s', Inr (Suc n)))))"

text \<open>What the generator and the vectored write promise.\<close>

locale websocket_sink = byte_sink +
  fixes draw :: "'a \<Rightarrow> 'a \<times> byte list" and vectored :: "'a vectored_write"
  assumes draw_mask: "draw s = (s', k) \<Longrightarrow> length k = 4 \<and> out s' = out s"
    and vectored_written: "vectored = Some wv \<Longrightarrow> wv h p s = (s', Inr n) \<Longrightarrow>
      n \<le> length h + length p \<and> out s' = out s @ take n (h @ p)"
    and vectored_failed: "vectored = Some wv \<Longrightarrow> wv h p s = (s', Inl e) \<Longrightarrow> \<exists>junk. out s' = out s @ junk"
begin

definition clean :: bool where
  "clean = clean_failures push vectored out"

text \<open>A step that sends bytes: all of them when it succeeds, and their beginning when it fails on a
  transport with clean failures.\<close>

definition sends :: "('a \<Rightarrow> 'a \<times> stream_error option) \<Rightarrow> byte list \<Rightarrow> bool" where
  "sends f bs = (\<forall>s s' r. f s = (s', r) \<longrightarrow>
     (if r = None then out s' = out s @ bs else \<exists>junk. out s' = out s @ junk \<and> (clean \<longrightarrow> begins junk bs)))"

lemma sends_push: "sends (push bs) bs"
  using push_ok push_failed by (fastforce simp: sends_def clean_def clean_failures_def)

lemma sends_chain: "sends f a \<Longrightarrow> sends g b \<Longrightarrow> sends (chain f g) (a @ b)"
  unfolding sends_def chain_def by (fastforce simp: begins_append split: prod.splits option.splits)

lemma write_vectored_all_sends:
  assumes wv: "vectored = Some wv"
  shows "sends (write_vectored_all wv header payload) (header @ payload)"
proof (induction "length header + length payload" arbitrary: header payload rule: less_induct)
  case less
  show ?case unfolding sends_def
  proof (intro allI impI)
    fix s s' r assume run: "write_vectored_all wv header payload s = (s', r)"
    obtain s1 w where w: "wv header payload s = (s1, w)" by fastforce
    show "if r = None then out s' = out s @ header @ payload else \<exists>junk. out s' = out s @ junk \<and> (clean \<longrightarrow> begins junk (header @ payload))"
    proof (cases "header = [] \<and> payload = []")
      case True
      with run show ?thesis by (simp add: write_vectored_all.simps)
    next
      case False
      show ?thesis
      proof (cases w)
        case (Inl e)
        obtain junk where "out s1 = out s @ junk" "clean \<longrightarrow> junk = []"
        proof -
          have "clean \<longrightarrow> out s1 = out s" using w Inl wv unfolding clean_def clean_failures_def by blast
          with vectored_failed [OF wv w [unfolded Inl]] show thesis using that by auto
        qed
        with run w False Inl show ?thesis by (subst (asm) write_vectored_all.simps) auto
      next
        case (Inr k)
        note wrote = vectored_written [OF wv w [unfolded Inr]]
        show ?thesis
        proof (cases k)
          case 0
          with wrote have "out s1 = out s" by simp
          with run w False Inr 0 show ?thesis by (subst (asm) write_vectored_all.simps) auto
        next
          case (Suc n)
          define h where "h = drop k header"
          define p where "p = drop (k - length header) payload"
          have split: "header @ payload = take k (header @ payload) @ h @ p"
            by (metis append_take_drop_id drop_append h_def p_def)
          have "write_vectored_all wv h p s1 = (s', r)"
            using run w False Inr Suc by (subst (asm) write_vectored_all.simps) (auto simp: h_def p_def split: if_splits)
          moreover have "length h + length p < length header + length payload"
            using Suc False wrote by (auto simp: h_def p_def)
          ultimately have rec: "if r = None then out s' = out s1 @ h @ p else \<exists>junk. out s' = out s1 @ junk \<and> (clean \<longrightarrow> begins junk (h @ p))"
            using less unfolding sends_def by blast
          show ?thesis
          proof (cases r)
            case None
            with rec wrote split show ?thesis by simp
          next
            case (Some e)
            define t where "t = take k (header @ payload)"
            from Some rec wrote obtain junk where "out s' = out s @ t @ junk" "clean \<longrightarrow> begins junk (h @ p)" by (auto simp: t_def)
            moreover have "header @ payload = t @ h @ p" using split by (simp only: t_def)
            ultimately show ?thesis using Some begins_append(2) [of junk "h @ p" t] by (metis option.discI)
          qed
        qed
      qed
    qed
  qed
qed

lemma write_masked_chunks_sends:
  "sends (write_masked_chunks push key off payload) (xor_at (mask_at key) off payload)"
proof (induction "length payload" arbitrary: off payload rule: less_induct)
  case less
  show ?case
  proof (cases "payload = []")
    case True
    then show ?thesis by (simp add: sends_def write_masked_chunks.simps)
  next
    case False
    define k where "k = min (length payload) WEBSOCKET_MASK_CHUNK_SIZE"
    have k: "0 < k" "k \<le> length payload" using False by (simp_all add: k_def WEBSOCKET_MASK_CHUNK_SIZE_def)
    have "write_masked_chunks push key off payload =
        chain (push (xor_at (mask_at key) off (take k payload))) (write_masked_chunks push key (off + k) (drop k payload))"
      using False by (intro ext, subst write_masked_chunks.simps)
        (simp add: chain_def k_def [symmetric] Let_def xor_websocket_mask_bytewise)
    moreover have "sends (write_masked_chunks push key (off + k) (drop k payload)) (xor_at (mask_at key) (off + k) (drop k payload))"
      using less k by simp
    moreover have "xor_at (mask_at key) off payload =
        xor_at (mask_at key) off (take k payload) @ xor_at (mask_at key) (off + k) (drop k payload)"
      using xor_at_append [of "mask_at key" off "take k payload" "drop k payload"] k by simp
    ultimately show ?thesis using sends_chain [OF sends_push] by metis
  qed
qed

lemma write_masked_sends:
  "sends (write_masked_websocket_frame push header payload key) (header @ xor_at (mask_at key) 0 payload)"
proof (cases "payload = []")
  case True
  then have "write_masked_websocket_frame push header payload key = push header"
    by (intro ext) (simp add: write_masked_websocket_frame_def)
  with True sends_push [of header] show ?thesis by simp
next
  case False
  define k where "k = min (length payload) WEBSOCKET_MASK_CHUNK_SIZE"
  have "write_masked_websocket_frame push header payload key =
      chain (push (header @ xor_at (mask_at key) 0 (take k payload))) (write_masked_chunks push key k (drop k payload))"
    using False by (intro ext) (simp add: write_masked_websocket_frame_def Let_def k_def [symmetric] xor_websocket_mask_bytewise)
  moreover have "xor_at (mask_at key) 0 payload = xor_at (mask_at key) 0 (take k payload) @ xor_at (mask_at key) k (drop k payload)"
    using xor_at_append [of "mask_at key" 0 "take k payload" "drop k payload"] by (simp add: k_def)
  ultimately show ?thesis using sends_chain [OF sends_push write_masked_chunks_sends] by (metis append.assoc)
qed

lemma write_unmasked_sends: "sends (write_unmasked_websocket_frame push vectored header payload) (header @ payload)"
proof -
  have "write_unmasked_websocket_frame push vectored header payload =
    (if payload = [] then push header
     else case vectored of Some wv \<Rightarrow> write_vectored_all wv header payload
       | None \<Rightarrow> if length payload \<le> WEBSOCKET_COALESCE_FRAME_SIZE then push (header @ payload)
           else chain (push header) (push payload))"
    by (intro ext) (simp add: write_unmasked_websocket_frame_def split: option.splits)
  then show ?thesis
    using sends_push [of header] sends_push [of "header @ payload"] write_vectored_all_sends
      sends_chain [OF sends_push sends_push, of header payload]
    by (auto split: option.splits)
qed

lemma fragment_mode_sends:
  assumes "write_websocket_frame_fragment_mode push vectored draw opcode fin (length payload) payload masked s = (s', r)"
  shows "if r = None then \<exists>bs. encoded masked [(opcode, fin, payload)] bs \<and> out s' = out s @ bs 
    else \<exists>junk. out s' = out s @ junk \<and> (clean \<longrightarrow> (\<exists>bs. encoded masked [(opcode, fin, payload)] bs \<and> begins junk bs))"
proof (cases masked)
  case True
  obtain s1 k where d: "draw s = (s1, k)" by fastforce
  with assms True have "write_masked_websocket_frame push (websocket_frame_header opcode fin (length payload) (Some k)) payload k s1 = (s', r)"
    by (simp add: write_websocket_frame_fragment_mode_def draw_header_def)
  moreover have "encoded masked [(opcode, fin, payload)] (websocket_frame_bytes opcode fin (Some k) payload)"
    using encoded.frame [OF encoded.none, of "Some k" masked] draw_mask [OF d] True by simp
  ultimately show ?thesis using write_masked_sends draw_mask [OF d]
    by (fastforce simp: sends_def websocket_frame_bytes_def masked_payload_def)
next
  case False
  with assms have "write_unmasked_websocket_frame push vectored (websocket_frame_header opcode fin (length payload) None) payload s = (s', r)"
    by (simp add: write_websocket_frame_fragment_mode_def draw_header_def)
  moreover have "encoded masked [(opcode, fin, payload)] (websocket_frame_bytes opcode fin None payload)"
    using encoded.frame [OF encoded.none, of None masked] False by simp
  ultimately show ?thesis using write_unmasked_sends
    by (fastforce simp: sends_def websocket_frame_bytes_def masked_payload_def)
qed

lemma draw_header_frame:
  assumes "draw_header draw opcode fin (length payload) masked s = (s', header, key)"
  shows "out s' = out s \<and> encoded masked [(opcode, fin, payload)]
    (header @ (case key of None \<Rightarrow> payload | Some k \<Rightarrow> xor_websocket_mask payload k 0))"
proof -
  have "websocket_frame_bytes opcode fin key payload =
      header @ (case key of None \<Rightarrow> payload | Some k \<Rightarrow> xor_websocket_mask payload k 0)"
    using assms by (auto simp: draw_header_def websocket_frame_bytes_def masked_payload_def xor_websocket_mask_bytewise
        split: if_splits prod.splits)
  moreover have "(key \<noteq> None) = masked" "\<And>k. key = Some k \<Longrightarrow> length k = 4" "out s' = out s"
    using assms draw_mask by (auto simp: draw_header_def split: if_splits prod.splits)
  ultimately show ?thesis using encoded.frame [OF encoded.none, of key masked opcode fin payload] by simp
qed

lemma flush_batch_sends: "sends (flush_websocket_frame_batch push scratch) scratch"
proof -
  have "flush_websocket_frame_batch push scratch = (if scratch = [] then (\<lambda>s. (s, None)) else push scratch)"
    by (intro ext) (simp add: flush_websocket_frame_batch_def)
  then show ?thesis using sends_push by (simp add: sends_def)
qed

lemma chain_outcome:
  "chain f g s = (s', r) \<Longrightarrow> (\<And>s1. f s = (s1, None) \<Longrightarrow> g s1 = (s', r) \<Longrightarrow> thesis) \<Longrightarrow>
   (\<And>e. f s = (s', Some e) \<Longrightarrow> r = Some e \<Longrightarrow> thesis) \<Longrightarrow> thesis"
  by (auto simp: chain_def split: prod.splits option.splits)

text \<open>\<open>written f masked frs\<close>: a successful run appends an encoding of the frames \<open>frs\<close>
  after the bytes \<open>batch\<close>.\<close>

definition appended :: "bool \<Rightarrow> byte list \<Rightarrow> (byte \<times> bool \<times> byte list) list \<Rightarrow> 'a \<Rightarrow> 'a \<times> stream_error option \<Rightarrow> bool" where
  "appended masked batch frs s res =
     (if snd res = None then \<exists>bs. encoded masked frs bs \<and> out (fst res) = out s @ batch @ bs
      else \<exists>junk. out (fst res) = out s @ junk \<and> (clean \<longrightarrow> (\<exists>bs. encoded masked frs bs \<and> begins junk (batch @ bs))))"

lemma appended_later:
  assumes "appended masked batch frs s1 res" and "out s1 @ batch = out s @ batch' @ bs" and "encoded masked fr bs"
    and "out s1 = out s @ sofar"
  shows "appended masked batch' (fr @ frs) s res"
proof (cases "snd res")
  case None
  then obtain cs where cs: "encoded masked frs cs" "out (fst res) = (out s1 @ batch) @ cs"
    using assms(1) by (auto simp: appended_def)
  with assms(2) have "out (fst res) = out s @ batch' @ bs @ cs" by simp
  with None encoded_append [OF assms(3) cs(1)] show ?thesis by (auto simp: appended_def)
next
  case (Some e)
  with assms(1,4) obtain junk where junk: "out (fst res) = out s @ sofar @ junk"
    "clean \<longrightarrow> (\<exists>cs. encoded masked frs cs \<and> begins junk (batch @ cs))" by (auto simp: appended_def)
  have "sofar @ batch = batch' @ bs" using assms(2,4) by simp
  then have "begins (sofar @ junk) (batch' @ bs @ cs)" if "begins junk (batch @ cs)" for cs
    using that begins_append(2) [OF that, of sofar] by (metis append.assoc)
  then have "clean \<longrightarrow> (\<exists>cs. encoded masked (fr @ frs) cs \<and> begins (sofar @ junk) (batch' @ cs))"
    using junk(2) encoded_append [OF assms(3)] by blast
  with Some junk(1) show ?thesis by (auto simp: appended_def)
qed

lemma appended_failed:
  assumes "out (fst res) = out s @ junk" "snd res \<noteq> None" and "clean \<longrightarrow> begins junk batch"
  shows "appended masked batch frs s res"
  using assms encoded_exists [of masked frs] begins_append(1) by (auto simp: appended_def)

lemma continuation_loop_appends:
  "is_last last_index index segs \<Longrightarrow>
   appended masked scratch (continued (if sent_first then 0 else opcode) (non_empty segs)) s
     (continuation_loop push vectored draw opcode last_index masked index sent_first scratch segs s)"
proof (induction segs arbitrary: index sent_first scratch s)
  case Nil
  have "sends (flush_websocket_frame_batch push scratch) scratch" by (rule flush_batch_sends)
  then show ?case by (cases "flush_websocket_frame_batch push scratch s") (auto simp: appended_def sends_def split: if_splits)
next
  case (Cons p segs)
  note last = Cons.prems [unfolded is_last_Cons]
  show ?case
  proof (cases "p = []")
    case True
    with Cons.IH last show ?thesis by simp
  next
    case False
    define op where "op = (if sent_first then 0 else opcode)"
    have fin: "index = last_index \<longleftrightarrow> non_empty segs = []" using last False by simp
    obtain s1 header key where d: "draw_header draw op (index = last_index) (length p) masked s = (s1, header, key)"
      by (metis prod_cases3)
    define bytes where "bytes = header @ (case key of None \<Rightarrow> p | Some k \<Rightarrow> xor_websocket_mask p k 0)"
    have drawn: "out s1 = out s" "encoded masked [(op, index = last_index, p)] bytes"
      using draw_header_frame [OF d] by (simp_all add: bytes_def)
    let ?loop = "continuation_loop push vectored draw opcode last_index masked (Suc index) True"
    let ?big = "length header + length p > WEBSOCKET_COALESCE_FRAME_SIZE"
    let ?full = "length scratch + (length header + length p) > WEBSOCKET_COALESCE_FRAME_SIZE"
    let ?flush = "flush_websocket_frame_batch push scratch"
    let ?one = "write_websocket_frame_fragment_mode push vectored draw op (index = last_index) (length p) p masked"
    have step: "continuation_loop push vectored draw opcode last_index masked index sent_first scratch (p # segs) s =
      (if ?big then chain ?flush (chain ?one (?loop [] segs)) s1
       else if ?full then chain ?flush (?loop bytes segs) s1
       else ?loop (scratch @ bytes) segs s1)"
      using False d by (simp add: op_def [symmetric] bytes_def Let_def cong: if_cong)
    have IH: "appended masked batch (continued 0 (non_empty segs)) t (?loop batch segs t)" for batch t
      using Cons.IH [of "Suc index" batch True t] last by simp
    have goal: "continued (if sent_first then 0 else opcode) (non_empty (p # segs)) =
        [(op, index = last_index, p)] @ continued 0 (non_empty segs)"
      using False fin by (simp add: op_def)
    obtain s2 r where f: "?flush s1 = (s2, r)" by fastforce
    obtain s3 r3 where one: "?one s2 = (s3, r3)" by fastforce
    note flushed = flush_batch_sends [of scratch, unfolded sends_def, rule_format, OF f]
    note wrote = fragment_mode_sends [OF one]
    consider (failed) "?big \<or> ?full" "r \<noteq> None" | (broke) ?big "r = None" "r3 \<noteq> None"
      | (alone) ?big "r = None" "r3 = None" | (later) "\<not> ?big" ?full "r = None" | (collect) "\<not> ?big" "\<not> ?full" by blast
    then have "appended masked scratch ([(op, index = last_index, p)] @ continued 0 (non_empty segs)) s
      (if ?big then chain ?flush (chain ?one (?loop [] segs)) s1
       else if ?full then chain ?flush (?loop bytes segs) s1 else ?loop (scratch @ bytes) segs s1)"
    proof cases
      case failed
      then obtain junk where "out s2 = out s @ junk" "clean \<longrightarrow> begins junk scratch" using flushed drawn by auto
      with appended_failed [of "(s2, r)" s junk scratch] failed f show ?thesis by (auto simp: chain_def)
    next
      case broke
      then obtain junk where junk: "out s3 = out s @ scratch @ junk"
        "clean \<longrightarrow> (\<exists>bs. encoded masked [(op, index = last_index, p)] bs \<and> begins junk bs)" using flushed wrote drawn by (simp split: if_splits) blast
      obtain cs where "encoded masked (continued 0 (non_empty segs)) cs" using encoded_exists by blast
      then have "clean \<longrightarrow> (\<exists>bs. encoded masked ([(op, index = last_index, p)] @ continued 0 (non_empty segs)) bs \<and> begins (scratch @ junk) (scratch @ bs))"
        using junk(2) encoded_append begins_append by metis
      with junk(1) broke f one show ?thesis by (auto simp: chain_def appended_def)
    next
      case alone
      then obtain bs where "encoded masked [(op, index = last_index, p)] bs" "out s3 @ [] = out s @ scratch @ bs"
        using flushed wrote drawn by auto
      from appended_later [OF IH this(2,1)] this(2) alone f one show ?thesis by (simp add: chain_def)
    next
      case later
      have "out s2 @ bytes = out s @ scratch @ bytes" using later flushed drawn by simp
      from appended_later [OF IH this drawn(2), of scratch] later f drawn flushed show ?thesis by (simp add: chain_def)
    next
      case collect
      have "out s1 @ scratch @ bytes = out s @ scratch @ bytes" using drawn by simp
      from appended_later [OF IH this drawn(2), of "[]"] collect drawn show ?thesis by simp
    qed
    then show ?thesis unfolding step goal .
  qed
qed

lemma frame_mode_appends:
  assumes "is_data_opcode opcode \<or> length (non_empty (segs @ suffix)) \<le> 1" and "len = total_len (segs @ suffix)"
  shows "\<exists>res. write_websocket_frame_mode push vectored draw opcode len segs suffix masked s = Some res
    \<and> appended masked [] (fragments opcode (non_empty (segs @ suffix))) s res"
proof -
  define ss where "ss = segs @ suffix"
  have ss: "(if suffix = [] then segs else segs @ suffix) = ss" by (simp add: ss_def)
  show ?thesis
  proof (cases "length (non_empty ss) > 1")
    case True
    then obtain l where l: "last_non_empty ss = Some l" "is_last l 0 ss"
      using last_non_empty_is_last [of ss] by fastforce
    have "fragments opcode (non_empty ss) = continued opcode (non_empty ss)" using True by (auto simp: continued_def)
    with continuation_loop_appends [OF l(2), of masked "[]" False opcode s] show ?thesis
      using True l(1) assms(1) ss
      by (auto simp: write_websocket_frame_mode_def write_websocket_continuation_frames_def ss_def [symmetric])
  next
    case False
    define p where "p = first_non_empty ss"
    have p: "non_empty ss = (if p = [] then [] else [p])" "total_len ss = length p"
      using single_non_empty [of ss] False by (simp_all add: p_def)
    obtain s' r where w: "write_websocket_frame_fragment_mode push vectored draw opcode True (length p) p masked s = (s', r)"
      by fastforce
    have "fragments opcode (non_empty ss) = [(opcode, True, p)]" using p by simp
    with fragment_mode_sends [OF w] have "appended masked [] (fragments opcode (non_empty ss)) s (s', r)"
      by (auto simp: appended_def)
    moreover have "write_websocket_frame_mode push vectored draw opcode len segs suffix masked s = Some (s', r)"
      using False w p(2) assms ss by (simp add: write_websocket_frame_mode_def Let_def p_def ss_def)
    ultimately show ?thesis by (simp add: ss_def)
  qed
qed

text \<open>A step of a masked payload: it appends its bytes under the mask and carries the position on.\<close>

definition places :: "byte list option \<Rightarrow> nat \<Rightarrow> byte list \<Rightarrow> 'a \<Rightarrow> 'a \<times> (stream_error + nat) \<Rightarrow> bool" where
  "places key at bs s res =
     (case snd res of
        Inl e \<Rightarrow> \<exists>junk. out (fst res) = out s @ junk \<and> (clean \<longrightarrow> begins junk (mask_with key at bs))
      | Inr at' \<Rightarrow> at' = at + length bs \<and> out (fst res) = out s @ mask_with key at bs)"

lemma places_carry:
  assumes "places key at a s m" and "\<And>s' . places key (at + length a) b s' (f (at + length a) s')"
  shows "places key at (a @ b) s (carry m f)"
proof (cases m)
  case (Pair s1 r)
  show ?thesis
  proof (cases r)
    case (Inl e)
    with Pair assms(1) show ?thesis by (auto simp: places_def carry_def mask_with_append begins_append)
  next
    case (Inr k)
    with Pair assms(1) have "k = at + length a" "out s1 = out s @ mask_with key at a" by (simp_all add: places_def)
    with Pair Inr assms(2) [of s1] show ?thesis
      by (auto simp: carry_def places_def mask_with_append begins_append split: sum.splits)
  qed
qed

lemma payload_places: "places key at payload s (write_websocket_payload push key at payload s)"
proof -
  have "sends (write_masked_chunks push k at payload) (xor_websocket_mask payload k at)" for k
    by (simp add: write_masked_chunks_sends xor_websocket_mask_bytewise)
  with sends_push [of payload] show ?thesis
    by (cases key) (auto simp: places_def write_websocket_payload_def mask_with_def sends_def split: prod.splits option.splits)
qed

lemma payloads_place: "places key at (concat ps) s (write_websocket_payloads push key at ps s)"
proof (induction ps arbitrary: at s)
  case Nil
  then show ?case by (simp add: places_def mask_with_Nil)
next
  case (Cons p ps)
  have "write_websocket_payloads push key at (p # ps) s =
      carry (write_websocket_payload push key at p s) (\<lambda>off. write_websocket_payloads push key off ps)"
    by (simp add: carry_def)
  moreover have "places key at (p @ concat ps) s \<dots>"
    by (rule places_carry [OF payload_places]) (rule Cons)
  ultimately show ?case by simp
qed

lemma file_chunks_place:
  "places key at (encoded_range encode fbytes enc off remaining) s
     (websocket_file_chunks encode push fbytes enc key at off remaining s)"
proof (induction remaining arbitrary: at off s rule: less_induct)
  case (less remaining)
  show ?case
  proof (cases "remaining = 0")
    case True
    then show ?thesis
      by (simp add: websocket_file_chunks.simps places_def encoded_range_def encode_Nil mask_with_Nil split: file_segment_encoding.splits)
  next
    case False
    define k where "k = (case enc of Identity \<Rightarrow> min remaining FILE_SEGMENT_BUFFER_SIZE
      | Base64 \<Rightarrow> min remaining BASE64_FILE_SEGMENT_INPUT_SIZE)"
    have k: "0 < k" "k \<le> remaining" "enc = Base64 \<longrightarrow> k = remaining \<or> 3 dvd k"
      using False by (auto simp: k_def FILE_SEGMENT_BUFFER_SIZE_def BASE64_FILE_SEGMENT_INPUT_SIZE_def min_def
          split: file_segment_encoding.splits)
    note step = websocket_file_chunks.simps [of _ _ _ enc _ _ _ remaining, folded k_def, unfolded Let_def]
    show ?thesis
    proof (cases "read_file_exact_at fbytes off k")
      case (Inl e)
      with False show ?thesis by (subst step) (simp add: places_def)
    next
      case (Inr bs)
      then have bs: "bs = take k (drop off fbytes)" "length bs = k" using read_file_exact_at_ok by auto
      then have avail: "k \<le> length fbytes - off" by auto
      define chunk where "chunk = (case enc of Identity \<Rightarrow> bs | Base64 \<Rightarrow> encode bs)"
      have chunk: "chunk = encoded_range encode fbytes enc off k"
        by (cases enc) (simp_all add: chunk_def encoded_range_def bs(1))
      define m where "m = (case push (mask_with key at chunk) s of (s', Some e) \<Rightarrow> (s', Inl e)
        | (s', None) \<Rightarrow> if off + k > u64_max then (s', Inl Broken) else (s', Inr (at + length chunk)))"
      have "places key at chunk s m"
        using sends_push [of "mask_with key at chunk"]
        by (auto simp: places_def m_def sends_def split: prod.splits option.splits)
      moreover have "websocket_file_chunks encode push fbytes enc key at off remaining s =
          carry m (\<lambda>at. websocket_file_chunks encode push fbytes enc key at (off + k) (remaining - k))"
        using False Inr by (subst step) (simp add: carry_def m_def chunk_def split: prod.splits option.splits)
      moreover have "places key a (encoded_range encode fbytes enc (off + k) (remaining - k)) t
          (websocket_file_chunks encode push fbytes enc key a (off + k) (remaining - k) t)" for a t
        using less.IH k False by simp
      ultimately show ?thesis
        using places_carry [of key at chunk s m] unfolding chunk encoded_range_split [OF k(2,3) avail] by simp
    qed
  qed
qed

lemma file_frame_appends:
  assumes "len = length payload" and "payload = concat prefix @ file_bytes encode (Some fs) @ concat suffix"
  shows "appended masked [] [(opcode, True, payload)] s
    (write_websocket_file_frame_mode encode push draw opcode len prefix fs suffix masked s)"
proof -
  obtain s0 header key where d: "draw_header draw opcode True (length payload) masked s = (s0, header, key)"
    by (metis prod_cases3)
  have drawn: "out s0 = out s" "encoded masked [(opcode, True, payload)] (header @ mask_with key 0 payload)"
    using draw_header_frame [OF d] by (simp_all add: mask_with_def)
  obtain s1 r1 where p: "push header s0 = (s1, r1)" by fastforce
  define m where "m = carry (carry (write_websocket_payloads push key 0 prefix s1)
      (\<lambda>at. websocket_file_chunks encode push (content fs) (encoding fs) key at (offset fs) (source_len fs)))
      (\<lambda>at. write_websocket_payloads push key at suffix)"
  have "places key 0 ((concat prefix @ file_bytes encode (Some fs)) @ concat suffix) s1 m"
    unfolding m_def file_bytes_def option.case
    by (intro places_carry payloads_place file_chunks_place)
  then have m: "places key 0 payload s1 m" by (simp add: assms(2))
  have "write_websocket_file_frame_mode encode push draw opcode len prefix fs suffix masked s =
    (case r1 of Some e \<Rightarrow> (s1, Some e) | None \<Rightarrow> (case m of (s2, Inl e) \<Rightarrow> (s2, Some e)
       | (s2, Inr payload_offset) \<Rightarrow> (s2, if payload_offset \<noteq> len then Some Broken else None)))"
    unfolding assms(1) using d p by (simp add: write_websocket_file_frame_mode_def m_def split: option.splits)
  note res = this
  note pushed = sends_push [of header, unfolded sends_def, rule_format, OF p]
  let ?bs = "header @ mask_with key 0 payload"
  show ?thesis
  proof (cases r1)
    case (Some e)
    with pushed drawn obtain junk where "out s1 = out s @ junk" "clean \<longrightarrow> begins junk ?bs" by (auto intro: begins_append)
    with Some res drawn(2) show ?thesis by (auto simp: appended_def)
  next
    case None
    obtain s2 w where m2: "m = (s2, w)" by fastforce
    show ?thesis
    proof (cases w)
      case (Inl e)
      with m m2 pushed None drawn obtain junk where "out s2 = out s @ header @ junk" "clean \<longrightarrow> begins (header @ junk) ?bs"
        by (auto simp: places_def intro: begins_append)
      with Inl None res m2 drawn(2) show ?thesis by (auto simp: appended_def)
    next
      case (Inr k)
      with m m2 pushed None drawn have "out s2 = out s @ ?bs" "k = len" using assms(1) by (simp_all add: places_def)
      with Inr None res m2 drawn(2) show ?thesis by (auto simp: appended_def)
    qed
  qed
qed

text \<open>On a transport that never fails nothing but a short file stops a frame.\<close>

lemma write_vectored_all_reliable:
  "reliable push flush vectored \<Longrightarrow> vectored = Some wv \<Longrightarrow> snd (write_vectored_all wv header payload s) = None"
proof (induction wv header payload s rule: write_vectored_all.induct)
  case (1 wv header payload s)
  show ?case
  proof (cases "header = [] \<and> payload = []")
    case False
    with 1(3,4) obtain s' n where w: "wv header payload s = (s', Inr (Suc n))" unfolding reliable_def by blast
    with False 1 show ?thesis by (subst write_vectored_all.simps) auto
  qed (simp add: write_vectored_all.simps)
qed

lemma push_reliable: "reliable push flush vectored \<Longrightarrow> \<exists>s'. push bs s = (s', None)"
  unfolding reliable_def by (metis prod.collapse)

lemma chain_reliable: "(\<And>s. snd (f s) = None) \<Longrightarrow> (\<And>s. snd (g s) = None) \<Longrightarrow> snd (chain f g s) = None"
  by (auto simp: chain_def split: prod.splits option.splits) (metis snd_conv option.discI)

lemma write_masked_chunks_reliable:
  "reliable push flush vectored \<Longrightarrow> snd (write_masked_chunks push key off payload s) = None"
proof (induction "length payload" arbitrary: off payload s rule: less_induct)
  case less
  show ?case
  proof (cases "payload = []")
    case False
    define k where "k = min (length payload) WEBSOCKET_MASK_CHUNK_SIZE"
    have "length (drop k payload) < length payload" using False by (simp add: k_def WEBSOCKET_MASK_CHUNK_SIZE_def)
    from less.hyps [OF this less.prems] push_reliable [OF less.prems, of "xor_websocket_mask (take k payload) key off" s] False
    show ?thesis by (subst write_masked_chunks.simps) (auto simp: k_def [symmetric] Let_def)
  qed (simp add: write_masked_chunks.simps)
qed

lemma fragment_mode_reliable:
  assumes r: "reliable push flush vectored"
  shows "snd (write_websocket_frame_fragment_mode push vectored draw opcode fin len payload masked s) = None"
proof -
  have p: "\<And>bs s. snd (push bs s) = None" using r by (simp add: reliable_def)
  have "snd (write_masked_websocket_frame push header payload key t) = None" for header key t
    using p chain_reliable [OF p write_masked_chunks_reliable [OF r]] by (simp add: write_masked_websocket_frame_def Let_def)
  moreover have "snd (write_unmasked_websocket_frame push vectored header payload t) = None" for header t
    using p chain_reliable [OF p p] write_vectored_all_reliable [OF r]
    by (auto simp: write_unmasked_websocket_frame_def split: option.splits)
  ultimately show ?thesis by (auto simp: write_websocket_frame_fragment_mode_def split: prod.splits option.splits)
qed

lemma continuation_loop_reliable:
  assumes r: "reliable push flush vectored"
  shows "snd (continuation_loop push vectored draw opcode last_index masked index sent_first scratch segs s) = None"
proof (induction segs arbitrary: index sent_first scratch s)
  case Nil
  then show ?case using r by (simp add: flush_websocket_frame_batch_def reliable_def)
next
  case (Cons p segs)
  have fl: "\<And>t. snd (flush_websocket_frame_batch push scratch t) = None" using r by (simp add: flush_websocket_frame_batch_def reliable_def)
  note one = fragment_mode_reliable [OF r]
  show ?case
    by (auto simp: Let_def Cons.IH chain_reliable [OF fl chain_reliable [OF one Cons.IH]] chain_reliable [OF fl Cons.IH] split: prod.splits)
qed

lemma frame_mode_reliable:
  "reliable push flush vectored \<Longrightarrow> write_websocket_frame_mode push vectored draw opcode len segs suffix masked s = Some res \<Longrightarrow> snd res = None"
  by (auto simp: write_websocket_frame_mode_def write_websocket_continuation_frames_def Let_def fragment_mode_reliable continuation_loop_reliable
      split: if_splits)

lemma payloads_reliable:
  assumes r: "reliable push flush vectored"
  shows "\<exists>s' at'. write_websocket_payloads push key at ps s = (s', Inr at')"
proof (induction ps arbitrary: at s)
  case (Cons p ps)
  have "snd (write_masked_chunks push k at p s) = None" for k by (rule write_masked_chunks_reliable [OF r])
  then have "\<exists>s'. write_websocket_payload push key at p s = (s', Inr (at + length p))"
    using push_reliable [OF r, of p s] by (auto simp: write_websocket_payload_def split: option.splits prod.splits) (metis snd_conv option.discI)+
  with Cons.IH show ?case by fastforce
qed simp

lemma read_file_enough:
  assumes "off + n \<le> length fbytes" "off + n \<le> u64_max"
  shows "\<exists>bs. read_file_exact_at fbytes off n = Inr bs"
proof (cases "n = 0")
  case True
  then show ?thesis by (simp add: read_file_exact_at_def read_exact_def fill.simps)
next
  case False
  define bs where "bs = take n (drop off fbytes)"
  have len: "length bs = n" using assms by (simp add: bs_def)
  then obtain b cs where Cons: "bs = b # cs" using False by (cases bs) auto
  have "file_read_at fbytes n off = (off + n, Inr (b # cs))" using assms len Cons by (simp add: file_read_at_def bs_def [symmetric])
  then have "fill (file_read_at fbytes) n off = (off + n, bs, None)"
    using False len Cons by (subst fill.simps) (simp add: fill.simps [of _ 0])
  then show ?thesis by (simp add: read_file_exact_at_def read_exact_def)
qed

lemma file_chunks_reliable:
  assumes r: "reliable push flush vectored"
  shows "off + remaining \<le> length fbytes \<Longrightarrow> off + remaining \<le> u64_max \<Longrightarrow>
    \<exists>s' at'. websocket_file_chunks encode push fbytes enc key at off remaining s = (s', Inr at')"
proof (induction remaining arbitrary: at off s rule: less_induct)
  case (less remaining)
  show ?case
  proof (cases "remaining = 0")
    case False
    define k where "k = (case enc of Identity \<Rightarrow> min remaining FILE_SEGMENT_BUFFER_SIZE
      | Base64 \<Rightarrow> min remaining BASE64_FILE_SEGMENT_INPUT_SIZE)"
    have k: "0 < k" "k \<le> remaining" using False
      by (auto simp: k_def FILE_SEGMENT_BUFFER_SIZE_def BASE64_FILE_SEGMENT_INPUT_SIZE_def split: file_segment_encoding.splits)
    note step = websocket_file_chunks.simps [of _ _ _ enc _ _ _ remaining, folded k_def, unfolded Let_def]
    obtain bs where bs: "read_file_exact_at fbytes off k = Inr bs" using read_file_enough [of off k fbytes] k less.prems by auto
    obtain s1 where "push (mask_with key at (case enc of Identity \<Rightarrow> bs | Base64 \<Rightarrow> encode bs)) s = (s1, None)"
      using push_reliable [OF r] by blast
    moreover have "\<exists>s' at'. websocket_file_chunks encode push fbytes enc key a (off + k) (remaining - k) s1 = (s', Inr at')" for a
      using less.IH [of "remaining - k"] k less.prems by simp
    ultimately show ?thesis using False bs k less.prems by (subst step) auto
  qed (simp add: websocket_file_chunks.simps)
qed

lemma file_frame_reliable:
  assumes r: "reliable push flush vectored" and len: "len = length payload" "payload = concat prefix @ file_bytes encode (Some fs) @ concat suffix"
    and source: "offset fs + source_len fs \<le> length (content fs)" "offset fs + source_len fs \<le> u64_max"
  shows "snd (write_websocket_file_frame_mode encode push draw opcode len prefix fs suffix masked s) = None"
proof -
  obtain s0 header key where d: "draw_header draw opcode True len masked s = (s0, header, key)" by (metis prod_cases3)
  obtain s1 where p: "push header s0 = (s1, None)" using push_reliable [OF r] by blast
  define m where "m = carry (carry (write_websocket_payloads push key 0 prefix s1)
      (\<lambda>at. websocket_file_chunks encode push (content fs) (encoding fs) key at (offset fs) (source_len fs)))
      (\<lambda>at. write_websocket_payloads push key at suffix)"
  have "places key 0 ((concat prefix @ file_bytes encode (Some fs)) @ concat suffix) s1 m"
    unfolding m_def file_bytes_def option.case by (intro places_carry payloads_place file_chunks_place)
  moreover obtain s2 where "\<exists>at. m = (s2, Inr at)"
  proof -
    obtain sa a where a: "write_websocket_payloads push key 0 prefix s1 = (sa, Inr a)" using payloads_reliable [OF r] by blast
    obtain sb b where b: "websocket_file_chunks encode push (content fs) (encoding fs) key a (offset fs) (source_len fs) sa = (sb, Inr b)"
      using file_chunks_reliable [OF r source] by blast
    obtain sc c where c: "write_websocket_payloads push key b suffix sb = (sc, Inr c)" using payloads_reliable [OF r] by blast
    from a b c have "m = (sc, Inr c)" by (simp add: m_def carry_def)
    with that show thesis by blast
  qed
  ultimately have "m = (s2, Inr len)" using len by (auto simp: places_def)
  with d p show ?thesis by (simp add: write_websocket_file_frame_mode_def m_def)
qed

end

text \<open>The stream over a transport is such a sink again: \<open>poll_write_vectored\<close> goes to the transport.\<close>

definition poll_write_vectored ::
  "(byte list \<Rightarrow> byte list \<Rightarrow> 's \<Rightarrow> 's \<times> (stream_error + nat)) \<Rightarrow> byte list \<Rightarrow> byte list \<Rightarrow> 's io_stream \<Rightarrow> 's io_stream \<times> (stream_error + nat)" where
  "poll_write_vectored wv header payload s = (case wv header payload (inner s) of (i, r) \<Rightarrow> (s\<lparr>inner := i\<rparr>, r))"

definition stream_draw :: "('s \<Rightarrow> 's \<times> byte list) \<Rightarrow> 's io_stream \<Rightarrow> 's io_stream \<times> byte list" where
  "stream_draw draw s = (case draw (inner s) of (i, k) \<Rightarrow> (s\<lparr>inner := i\<rparr>, k))"

locale websocket_socket = websocket_sink

sublocale websocket_socket \<subseteq> ws_stream: websocket_sink "poll_write push" "poll_flush flush" "map_option stream_sendfile zero_copy"
  encode "out \<circ> inner" "stream_draw draw" "map_option poll_write_vectored vectored"
  using push_ok push_failed flush_out sendfile_sent sendfile_failed encode_append encode_Nil draw_mask vectored_written vectored_failed
  by unfold_locales (fastforce simp: poll_write_def poll_flush_def stream_sendfile_def stream_draw_def poll_write_vectored_def split: prod.splits)+

end
