(* ===== verification/Websocket_Connection.thy ===== *)
theory Websocket_Connection
  imports Websocket_Writer Raw_Frame
begin

text \<open>
  The writer and the reader task of a WebSocket connection (\<open>spawn_websocket_writer\<close>,
  \<open>spawn_websocket_reader\<close> and \<open>handle_websocket_message\<close> of \<^verbatim>\<open>ct_core/src/lib.rs\<close>) and both
  ends of a connection together. The parser of messages and the answer of the queue to the
  application are parameters, as for RawSocket; \<open>json\<close> says whether the serializer is JSON.
  The reader's loop takes the number of frames it may read; a run that is not over yet has no
  reason to stop.
\<close>

section \<open>The writer task\<close>

definition ws_opcode :: "bool \<Rightarrow> byte \<Rightarrow> byte option" where
  "ws_opcode json t =
     (if t = 0 then Some (if json then 1 else 2) else if t = 1 then Some 9 else if t = 2 then Some 0xA
      else if t = 3 then Some 8 else None)"

definition write_ws_frame ::
  "(byte list \<Rightarrow> byte list) \<Rightarrow> 's sink \<Rightarrow> 's vectored_write \<Rightarrow> ('s \<Rightarrow> 's \<times> byte list) \<Rightarrow> byte \<Rightarrow> bool \<Rightarrow> outbound_frame \<Rightarrow> 's \<Rightarrow>
   ('s \<times> stream_error option) option" where
  "write_ws_frame encode push vectored draw opcode masked f s =
     (case file_segment f of
        Some fs \<Rightarrow> Some (write_websocket_file_frame_mode encode push draw opcode (payload_len f) (segments f) fs
                     (suffix_segments f) masked s)
      | None \<Rightarrow> write_websocket_frame_mode push vectored draw opcode (payload_len f) (segments f) (suffix_segments f) masked s)"

text \<open>The close frame that ends the stream when the queue is closed and nothing went wrong; its
  own result only matters for the log.\<close>

definition final_close ::
  "'s sink \<Rightarrow> 's vectored_write \<Rightarrow> ('s \<Rightarrow> 's \<times> byte list) \<Rightarrow> bool \<Rightarrow> 's \<Rightarrow> 's" where
  "final_close push vectored draw masked s =
     (let f = close_frame (Some 1000) [] in
      case write_websocket_frame_mode push vectored draw 8 (payload_len f) (segments f) (suffix_segments f) masked s of
        None \<Rightarrow> s | Some (s', _) \<Rightarrow> s')"

text \<open>One outcome per queued frame; a frame behind the one at which the task ends is dropped, and
  so is one of an unknown type. A panic ends the task.\<close>

fun websocket_writer ::
  "(byte list \<Rightarrow> byte list) \<Rightarrow> 's sink \<Rightarrow> ('s \<Rightarrow> 's \<times> stream_error option) \<Rightarrow> 's vectored_write \<Rightarrow> ('s \<Rightarrow> 's \<times> byte list) \<Rightarrow>
   bool \<Rightarrow> bool \<Rightarrow> outbound_frame list \<Rightarrow> 's \<Rightarrow> 's \<times> write_outcome list" where
  "websocket_writer encode push flush vectored draw json masked [] s = (final_close push vectored draw masked s, [])"
| "websocket_writer encode push flush vectored draw json masked (f # fs) s =
     (case resolve_deferred_segment f of
        Inl e \<Rightarrow> (s, replicate (length (f # fs)) Abandoned)
      | Inr f' \<Rightarrow>
          if frame_type f' = 0xff then
            (case flush s of
               (s', Some e) \<Rightarrow> (s', replicate (length (f # fs)) Abandoned)
             | (s', None) \<Rightarrow>
                 (case websocket_writer encode push flush vectored draw json masked fs s' of (s'', os) \<Rightarrow> (s'', Written # os)))
          else case ws_opcode json (frame_type f') of
              None \<Rightarrow> (case websocket_writer encode push flush vectored draw json masked fs s of (s'', os) \<Rightarrow> (s'', Abandoned # os))
            | Some opcode \<Rightarrow>
                (case write_ws_frame encode push vectored draw opcode masked f' s of
                   None \<Rightarrow> (s, replicate (length (f # fs)) Abandoned)
                 | Some (s', Some e) \<Rightarrow> (s', replicate (length (f # fs)) Abandoned)
                 | Some (s', None) \<Rightarrow>
                     (case flush s' of
                        (s'', Some e) \<Rightarrow> (s'', replicate (length (f # fs)) Abandoned)
                      | (s'', None) \<Rightarrow>
                          if frame_type f' = 3 then (s'', Written # replicate (length fs) Abandoned)
                          else (case websocket_writer encode push flush vectored draw json masked fs s'' of
                                  (s3, os) \<Rightarrow> (s3, Written # os)))))"

section \<open>The reader task\<close>

datatype 'm ws_event = Ws_Delivered 'm | Ws_Queued outbound_frame | Ws_Ponged "byte list"

datatype 'e ws_failure = Not_Utf8 | Queue_Closed | Unparsable 'e

datatype 'e ws_stop = Ws_Idle | Ws_Read_Failed websocket_frame_error | Ws_Bad_Fragment websocket_frame_error
  | Ws_Bad_Message "'e ws_failure" | Ws_Peer_Closed



text \<open>A close frame is queued for every error that has a close code. The flag of a stop says
  whether a graceful close was requested.\<close>

definition close_reply :: "bool \<Rightarrow> websocket_frame_error \<Rightarrow> 'm ws_event list \<times> bool" where
  "close_reply send_open e =
     (case close_code e of
        Some code \<Rightarrow> if send_open then ([Ws_Queued (close_frame (Some code) [])], True) else ([], False)
      | None \<Rightarrow> ([], False))"


definition read_error :: "bool \<Rightarrow> websocket_frame_error \<Rightarrow> 'm ws_event list \<times> ('e ws_stop \<times> bool) option" where
  "read_error send_open e =
     (if io_kind e = Some Elapsed then ([], Some (Ws_Idle, False))
      else if is_peer_disconnect e then ([], Some (Ws_Read_Failed e, False))
      else case close_reply send_open e of (evs, graceful) \<Rightarrow> (evs, Some (Ws_Read_Failed e, graceful)))"


section \<open>What the writer task sends\<close>

text \<open>A frame as the constructors make it: the payload has the announced length, and a control
  frame has one segment.\<close>

definition ws_sendable :: "(byte list \<Rightarrow> byte list) \<Rightarrow> outbound_frame \<Rightarrow> bool" where
  "ws_sendable encode f =
     (length (frame_payload encode f) = payload_len f
      \<and> (frame_type f \<noteq> 0 \<longrightarrow> file_segment f = None \<and> length (non_empty (segments f @ suffix_segments f)) \<le> 1))"

text \<open>The WebSocket frames of an outbound frame.\<close>

definition ws_parts :: "(byte list \<Rightarrow> byte list) \<Rightarrow> outbound_frame \<Rightarrow> byte list list" where
  "ws_parts encode f =
     (if file_segment f = None then non_empty (segments f @ suffix_segments f) else [frame_payload encode f])"

definition ws_frames :: "(byte list \<Rightarrow> byte list) \<Rightarrow> bool \<Rightarrow> outbound_frame \<Rightarrow> (byte \<times> bool \<times> byte list) list" where
  "ws_frames encode json f =
     (case ws_opcode json (frame_type f) of None \<Rightarrow> [] | Some opcode \<Rightarrow> fragments opcode (ws_parts encode f))"

definition resolved_ws_frames :: "(byte list \<Rightarrow> byte list) \<Rightarrow> bool \<Rightarrow> outbound_frame \<Rightarrow> (byte \<times> bool \<times> byte list) list" where
  "resolved_ws_frames encode json f =
     (case resolve_deferred_segment f of Inl e \<Rightarrow> [] | Inr f' \<Rightarrow> ws_frames encode json f')"

text \<open>How the writer settles a frame it has dealt with: a frame of an unknown type is dropped, and a
  barrier or a frame that was sent is reported as written. A close frame is the last one it
  sends.\<close>

definition ws_outcome :: "bool \<Rightarrow> outbound_frame \<Rightarrow> write_outcome" where
  "ws_outcome json f =
     (case resolve_deferred_segment f of
        Inl e \<Rightarrow> Abandoned
      | Inr g \<Rightarrow> if frame_type g \<noteq> 0xff \<and> ws_opcode json (frame_type g) = None then Abandoned else Written)"

definition ws_closing :: "outbound_frame \<Rightarrow> bool" where
  "ws_closing f = (case resolve_deferred_segment f of Inl e \<Rightarrow> False | Inr g \<Rightarrow> frame_type g = 3)"

text \<open>The WebSocket frames behind the first \<open>n\<close> outbound frames: nothing behind a close frame, the
  next outbound frame, and at the end of the queue the close frame with code 1000.\<close>

definition ws_next :: "(byte list \<Rightarrow> byte list) \<Rightarrow> bool \<Rightarrow> outbound_frame list \<Rightarrow> nat \<Rightarrow> (byte \<times> bool \<times> byte list) list" where
  "ws_next encode json fs n =
     (if 0 < n \<and> ws_closing (fs ! (n - 1)) then []
      else if n < length fs then resolved_ws_frames encode json (fs ! n)
      else [(8, True, [0x03, 0xe8])])"

text \<open>How many frames the writer deals with when nothing fails: up to the first close frame, or to
  a frame whose deferred part could not be prepared. A file range has to lie in its file.\<close>

fun ws_handled :: "outbound_frame list \<Rightarrow> nat" where
  "ws_handled [] = 0"
| "ws_handled (f # fs) =
     (case resolve_deferred_segment f of Inl e \<Rightarrow> 0 | Inr g \<Rightarrow> if frame_type g = 3 then 1 else Suc (ws_handled fs))"

definition ws_readable :: "outbound_frame \<Rightarrow> bool" where
  "ws_readable f =
     (case file_segment f of
        None \<Rightarrow> True
      | Some fs \<Rightarrow> offset fs + source_len fs \<le> length (content fs) \<and> offset fs + source_len fs \<le> u64_max)"

lemma resolved_file: "resolve_deferred_segment f = Inr g \<Longrightarrow> file_segment g = file_segment f"
  by (auto simp: resolve_deferred_segment_def Let_def split: option.splits prepared.splits if_splits)

lemma ws_next_Cons: "\<not> ws_closing f \<Longrightarrow> ws_next encode json (f # fs) (Suc n) = ws_next encode json fs n"
  by (cases n) (simp_all add: ws_next_def)

lemma ws_opcode_data: "ws_opcode json t = Some opcode \<Longrightarrow> t = 0 \<longleftrightarrow> is_data_opcode opcode"
  by (auto simp: ws_opcode_def is_data_opcode_def split: if_splits)

context websocket_sink
begin

lemma write_ws_frame_appends:
  assumes "ws_sendable encode f" and "ws_opcode json (frame_type f) = Some opcode"
  shows "\<exists>res. write_ws_frame encode push vectored draw opcode masked f s = Some res
    \<and> appended masked [] (ws_frames encode json f) s res"
proof (cases "file_segment f")
  case None
  then have "payload_len f = total_len (segments f @ suffix_segments f)"
    using assms(1) by (simp add: ws_sendable_def frame_payload_def file_bytes_def length_concat_total total_len_def)
  moreover have "is_data_opcode opcode \<or> length (non_empty (segments f @ suffix_segments f)) \<le> 1"
    using assms ws_opcode_data by (auto simp: ws_sendable_def)
  ultimately show ?thesis using frame_mode_appends None assms(2) by (simp add: write_ws_frame_def ws_frames_def ws_parts_def)
next
  case (Some fs)
  then have "payload_len f = length (frame_payload encode f)"
    "frame_payload encode f = concat (segments f) @ file_bytes encode (Some fs) @ concat (suffix_segments f)"
    using assms(1) by (simp_all add: ws_sendable_def frame_payload_def)
  from file_frame_appends [OF this] Some assms(2) show ?thesis by (simp add: write_ws_frame_def ws_frames_def ws_parts_def)
qed

lemma write_ws_frame_reliable:
  assumes "reliable push flush vectored" and "ws_sendable encode f" and "ws_readable f"
    and "write_ws_frame encode push vectored draw opcode masked f s = Some res"
  shows "snd res = None"
proof (cases "file_segment f")
  case None
  with assms(4) frame_mode_reliable [OF assms(1)] show ?thesis by (simp add: write_ws_frame_def)
next
  case (Some fs)
  with assms(2,3) have len: "payload_len f = length (frame_payload encode f)"
    "frame_payload encode f = concat (segments f) @ file_bytes encode (Some fs) @ concat (suffix_segments f)"
    and src: "offset fs + source_len fs \<le> length (content fs)" "offset fs + source_len fs \<le> u64_max"
    by (simp_all add: ws_sendable_def frame_payload_def ws_readable_def)
  from file_frame_reliable [OF assms(1) len src] Some assms(4) show ?thesis by (auto simp: write_ws_frame_def)
qed

lemma final_close_appends:
  "\<exists>part. out (final_close push vectored draw masked s) = out s @ part
    \<and> (clean \<longrightarrow> (\<exists>e. encoded masked [(8, True, [0x03, 0xe8])] e \<and> begins part e))
    \<and> (reliable push flush vectored \<longrightarrow> encoded masked [(8, True, [0x03, 0xe8])] part)"
proof -
  define f where "f = close_frame (Some 1000) []"
  have f: "non_empty (segments f @ suffix_segments f) = [[0x03, 0xe8]]" "payload_len f = total_len (segments f @ suffix_segments f)"
    by (simp_all add: f_def close_frame_def control_def encode_websocket_close_payload_def total_len_def be_bytes_2)
  then obtain res where res: "write_websocket_frame_mode push vectored draw 8 (payload_len f) (segments f) (suffix_segments f) masked s = Some res"
    "appended masked [] [(8, True, [0x03, 0xe8])] s res"
    using frame_mode_appends [of 8 "segments f" "suffix_segments f" "payload_len f"] by fastforce
  then have "final_close push vectored draw masked s = fst res" by (simp add: final_close_def f_def [symmetric] Let_def split: prod.splits)
  with res(2) frame_mode_reliable [OF _ res(1)] show ?thesis
    by (auto simp: appended_def intro: begins_refl split: if_splits)
qed

text \<open>The three ways of one round: the task stops, goes on, or has sent a close frame. On a
  transport that never fails it stops only at a frame that could not be prepared.\<close>

lemma websocket_writer_step:
  assumes "\<forall>f'. resolve_deferred_segment f = Inr f' \<longrightarrow> ws_sendable encode f'"
  obtains (stopped) s1 junk where "websocket_writer encode push flush vectored draw json masked (f # fs) s =
      (s1, replicate (Suc (length fs)) Abandoned)" "out s1 = out s @ junk"
      "clean \<longrightarrow> (\<exists>e. encoded masked (resolved_ws_frames encode json f) e \<and> begins junk e)"
      "reliable push flush vectored \<and> ws_readable f \<longrightarrow> ws_handled (f # fs) = 0 \<and> resolved_ws_frames encode json f = [] \<and> junk = []"
  | (going) s1 bs where "websocket_writer encode push flush vectored draw json masked (f # fs) s =
      (case websocket_writer encode push flush vectored draw json masked fs s1 of (s2, os) \<Rightarrow> (s2, ws_outcome json f # os))"
      "\<not> ws_closing f" "ws_handled (f # fs) = Suc (ws_handled fs)"
      "encoded masked (resolved_ws_frames encode json f) bs" "out s1 = out s @ bs"
  | (closed) s1 bs where "websocket_writer encode push flush vectored draw json masked (f # fs) s =
      (s1, ws_outcome json f # replicate (length fs) Abandoned)" "ws_closing f" "ws_handled (f # fs) = 1"
      "encoded masked (resolved_ws_frames encode json f) bs" "out s1 = out s @ bs"
proof (cases "resolve_deferred_segment f")
  case (Inl e)
  then show ?thesis using stopped [of s "[]"] by (auto simp: resolved_ws_frames_def)
next
  case (Inr g)
  then have ok: "ws_sendable encode g" using assms by blast
  have fr: "resolved_ws_frames encode json f = ws_frames encode json g" by (simp add: resolved_ws_frames_def Inr)
  have readable: "ws_readable g = ws_readable f" using resolved_file [OF Inr] by (simp add: ws_readable_def)
  have closing: "ws_closing f \<longleftrightarrow> frame_type g = 3" by (simp add: ws_closing_def Inr)
  obtain sf r where fl: "flush s = (sf, r)" by fastforce
  note kept = flush_out [OF fl]
  have flush_ok: "reliable push flush vectored \<Longrightarrow> snd (flush t) = None" for t by (simp add: reliable_def)
  consider (barrier) "frame_type g = 0xff" | (unknown) "frame_type g \<noteq> 0xff" "ws_opcode json (frame_type g) = None"
    | (frame) opcode where "frame_type g \<noteq> 0xff" "ws_opcode json (frame_type g) = Some opcode" by blast
  then show ?thesis
  proof cases
    case barrier
    then have none: "ws_frames encode json g = []" "ws_outcome json f = Written" "\<not> ws_closing f" "ws_handled (f # fs) = Suc (ws_handled fs)"
      by (simp_all add: ws_frames_def ws_opcode_def ws_outcome_def closing Inr)
    show ?thesis
    proof (cases r)
      case None
      with going [of sf "[]"] none fr Inr barrier fl kept show ?thesis by simp
    next
      case (Some e)
      with stopped [of sf "[]"] none fr Inr barrier fl kept flush_ok [of s] show ?thesis by auto
    qed
  next
    case unknown
    then have "ws_frames encode json g = []" "ws_outcome json f = Abandoned" "\<not> ws_closing f" "ws_handled (f # fs) = Suc (ws_handled fs)"
      by (auto simp: ws_frames_def ws_opcode_def ws_outcome_def closing Inr)
    then show ?thesis using Inr unknown fr going [of s "[]"] by simp
  next
    case frame
    then have outcome: "ws_outcome json f = Written" by (simp add: ws_outcome_def Inr)
    obtain s1 r1 where w: "write_ws_frame encode push vectored draw opcode masked g s = Some (s1, r1)"
      "appended masked [] (ws_frames encode json g) s (s1, r1)"
      using write_ws_frame_appends [OF ok frame(2)] by (metis surj_pair)
    have written: "r1 = None" if "reliable push flush vectored" "ws_readable f"
      using write_ws_frame_reliable [OF that(1) ok _ w(1)] that readable by simp
    obtain s2 r2 where fl2: "flush s1 = (s2, r2)" by fastforce
    note out2 = flush_out [OF fl2]
    show ?thesis
    proof (cases r1)
      case (Some e)
      then obtain junk where "out s1 = out s @ junk" "clean \<longrightarrow> (\<exists>bs. encoded masked (ws_frames encode json g) bs \<and> begins junk bs)"
        using w(2) by (auto simp: appended_def)
      with stopped [of s1 junk] Some frame Inr w(1) fr written show ?thesis by auto
    next
      case None
      then obtain bs where bs: "encoded masked (ws_frames encode json g) bs" "out s2 = out s @ bs"
        using w(2) out2 by (auto simp: appended_def)
      show ?thesis
      proof (cases r2)
        case (Some e)
        have "clean \<longrightarrow> (\<exists>e. encoded masked (ws_frames encode json g) e \<and> begins bs e)" using bs(1) begins_refl by blast
        with stopped [of s2 bs] Some None frame Inr w(1) fl2 fr flush_ok [of s1] bs show ?thesis by auto
      next
        case r2: None
        with going [of s2 bs] closed [of s2 bs] None frame Inr w(1) fl2 fr outcome closing bs
        show ?thesis by (cases "frame_type g = 3") simp_all
      qed
    qed
  qed
qed

lemma websocket_writer_progress:
  assumes "\<forall>f \<in> set fs. \<forall>f'. resolve_deferred_segment f = Inr f' \<longrightarrow> ws_sendable encode f'"
    and "websocket_writer encode push flush vectored draw json masked fs s = (s', os)"
  shows "\<exists>n bs part. n \<le> length fs \<and> os = map (ws_outcome json) (take n fs) @ replicate (length fs - n) Abandoned
    \<and> (\<forall>i. Suc i < n \<longrightarrow> \<not> ws_closing (fs ! i))
    \<and> encoded masked (concat (map (resolved_ws_frames encode json) (take n fs))) bs \<and> out s' = out s @ bs @ part
    \<and> (clean \<longrightarrow> (\<exists>e. encoded masked (ws_next encode json fs n) e \<and> begins part e))
    \<and> (reliable push flush vectored \<and> (\<forall>f \<in> set fs. ws_readable f) \<longrightarrow> n = ws_handled fs \<and> encoded masked (ws_next encode json fs n) part)"
  using assms
proof (induction fs arbitrary: s s' os)
  case Nil
  then show ?case using final_close_appends [of masked s] by (fastforce simp: ws_next_def)
next
  case (Cons f fs)
  have f: "\<forall>f'. resolve_deferred_segment f = Inr f' \<longrightarrow> ws_sendable encode f'" using Cons.prems(1) by simp
  from f show ?case
  proof (cases rule: websocket_writer_step [where s = s and fs = fs and json = json and masked = masked])
    case (stopped s1 junk)
    have next0: "ws_next encode json (f # fs) 0 = resolved_ws_frames encode json f" by (simp add: ws_next_def)
    show ?thesis
      by (rule exI [of _ 0], rule exI [of _ "[]"], rule exI [of _ junk]) (use stopped Cons.prems(2) next0 in auto)
  next
    case (going s1 bs)
    obtain s2 os' where rec: "websocket_writer encode push flush vectored draw json masked fs s1 = (s2, os')" by fastforce
    with going(1) Cons.prems(2) have os: "os = ws_outcome json f # os'" "s' = s2" by simp_all
    obtain n cs part where n: "n \<le> length fs" "os' = map (ws_outcome json) (take n fs) @ replicate (length fs - n) Abandoned"
        "\<forall>i. Suc i < n \<longrightarrow> \<not> ws_closing (fs ! i)"
      and enc: "encoded masked (concat (map (resolved_ws_frames encode json) (take n fs))) cs" and out: "out s2 = out s1 @ cs @ part"
      and clean: "clean \<longrightarrow> (\<exists>e. encoded masked (ws_next encode json fs n) e \<and> begins part e)"
      and rel: "reliable push flush vectored \<and> (\<forall>f \<in> set fs. ws_readable f) \<longrightarrow> n = ws_handled fs \<and> encoded masked (ws_next encode json fs n) part"
      using Cons.IH [OF _ rec] Cons.prems(1) by auto
    have early: "\<forall>i. Suc i < Suc n \<longrightarrow> \<not> ws_closing ((f # fs) ! i)" using n(3) going(2) by (auto simp: nth_Cons split: nat.splits)
    have "encoded masked (concat (map (resolved_ws_frames encode json) (take (Suc n) (f # fs)))) (bs @ cs)"
      using encoded_append [OF going(4) enc] by simp
    note facts = this n os early out going(5) clean rel ws_next_Cons [OF going(2)] going(3)
    show ?thesis
      by (rule exI [of _ "Suc n"], rule exI [of _ "bs @ cs"], rule exI [of _ part]) (use facts in auto)
  next
    case (closed s1 bs)
    have "ws_next encode json (f # fs) 1 = []" using closed(2) by (simp add: ws_next_def)
    note facts = this closed Cons.prems(2)
    show ?thesis
      by (rule exI [of _ 1], rule exI [of _ bs], rule exI [of _ "[]"]) (use facts in \<open>auto intro: encoded.none\<close>)
  qed
qed

end

section \<open>What the reader task delivers\<close>


lemma read_error_stops [simp]: "read_error send_open e \<noteq> (evs, None)"
proof (cases "close_reply send_open e :: 'a ws_event list \<times> bool")
  case (Pair a b)
  then show ?thesis by (simp add: read_error_def)
qed








section \<open>Both ends together\<close>

definition ws_deliverable :: "(byte list \<Rightarrow> byte list) \<Rightarrow> outbound_frame \<Rightarrow> bool" where
  "ws_deliverable encode f =
     (ws_sendable encode f \<and> deferred_segment f = None \<and> frame_type f \<le> 2
      \<and> payload_len f \<le> (if frame_type f = 0 then MAX_WEBSOCKET_MESSAGE_LEN else 125))"


lemma total_non_empty: "total_len (non_empty ss) = total_len ss"
  by (induction ss) (auto simp: total_len_def)













text \<open>C38: Completions are honest on WebSocket connections. Whatever the transport does, the writer
  task settles every queued frame once: the first \<open>n\<close> are dealt with in queue order (a frame
  of an unknown type is dropped, every other one is reported as written) and all frames behind
  them are reported as abandoned. The transport has accepted the complete encodings of these
  \<open>n\<close> frames, each a sequence of WebSocket frames of which only the last one is final, and
  behind them nothing but a beginning of what comes next: the first abandoned frame (all of it
  when only its flush failed), the close frame that ends the stream, or nothing behind a close
  frame. When the transport never fails and the file ranges lie in their files, the writer
  deals with every frame up to the first close frame or the first that could not be prepared,
  and the closing frame is sent completely.\<close>

theorem ws_written_means_complete:
  assumes "websocket_sink push flush zero_copy encode out draw vectored" and "clean_failures push vectored out"
    and "\<forall>f \<in> set fs. \<forall>f'. resolve_deferred_segment f = Inr f' \<longrightarrow> ws_sendable encode f'"
    and "websocket_writer encode push flush vectored draw json masked fs s = (s', os)"
  shows "\<exists>n bs part. n \<le> length fs \<and> os = map (ws_outcome json) (take n fs) @ replicate (length fs - n) Abandoned
    \<and> (\<forall>i. Suc i < n \<longrightarrow> \<not> ws_closing (fs ! i))
    \<and> encoded masked (concat (map (resolved_ws_frames encode json) (take n fs))) bs \<and> out s' = out s @ bs @ part
    \<and> (\<exists>e. encoded masked (ws_next encode json fs n) e \<and> begins part e)
    \<and> (reliable push flush vectored \<and> (\<forall>f \<in> set fs. ws_readable f) \<longrightarrow> n = ws_handled fs \<and> encoded masked (ws_next encode json fs n) part)"
  using websocket_sink.websocket_writer_progress [OF assms(1,3,4)] assms(2) websocket_sink.clean_def [OF assms(1)] by simp


section \<open>A concrete connection\<close>

text \<open>A pipe with vectored writes and one mask.\<close>

definition pipe_draw :: "pipe \<Rightarrow> pipe \<times> byte list" where
  "pipe_draw p = (p, [1, 2, 3, 4])"

definition pipe_vectored :: "byte list \<Rightarrow> byte list \<Rightarrow> pipe \<Rightarrow> pipe \<times> (stream_error + nat)" where
  "pipe_vectored header payload p =
     (let k = min (room p) (length header + length payload) in
      (p\<lparr>accepted := accepted p @ take k (header @ payload), room := room p - k\<rparr>, Inr k))"

interpretation ws_pipe: websocket_socket pipe_push pipe_flush "Some pipe_sendfile" rfc4648 accepted pipe_draw "Some pipe_vectored"
  by unfold_locales (auto simp: pipe_draw_def pipe_vectored_def Let_def)

definition ws_demo_frames :: "outbound_frame list" where
  "ws_demo_frames = [message_segments [[1, 2], [], [3]], control 1 [9]]"

definition ws_demo_bytes :: "byte list" where
  "ws_demo_bytes = [0x02, 0x82, 1, 2, 3, 4, 0, 0, 0x80, 0x81, 1, 2, 3, 4, 2, 0x89, 0x81, 1, 2, 3, 4, 8,
     0x88, 0x82, 1, 2, 3, 4, 2, 234]"



lemma ws_demo_deliverable: "\<forall>f \<in> set ws_demo_frames. ws_deliverable rfc4648 f"
  by (simp add: ws_demo_frames_def ws_deliverable_def ws_sendable_def message_segments_def control_def total_len_def
      frame_payload_def file_bytes_def MAX_WEBSOCKET_MESSAGE_LEN_def)

lemma pipe_clean: "clean_failures pipe_push (Some pipe_vectored) accepted"
  unfolding clean_failures_def
proof (intro conjI allI impI)
  fix bs s s' e assume "pipe_push bs s = (s', Some e)"
  then show "\<exists>p. begins p bs \<and> accepted s' = accepted s @ p"
    by (auto simp: pipe_push_def begins_def split: if_splits) (metis append_take_drop_id)
qed (simp add: pipe_vectored_def Let_def)

text \<open>In a pipe with room for eighteen bytes the ping is cut off: the message is reported as written, the
  ping as abandoned.\<close>

lemma ws_demo_short:
  "websocket_writer rfc4648 pipe_push pipe_flush (Some pipe_vectored) pipe_draw False True ws_demo_frames \<lparr>accepted = [], room = 18\<rparr> =
   (\<lparr>accepted = take 18 ws_demo_bytes, room = 0\<rparr>, [Written, Abandoned])"
  by (simp add: ws_demo_frames_def ws_demo_bytes_def message_segments_def control_def total_len_def
      resolve_deferred_segment_def ws_opcode_def write_ws_frame_def write_websocket_frame_mode_def is_data_opcode_def
      write_websocket_continuation_frames_def last_non_empty_def draw_header_def pipe_draw_def websocket_frame_header_def
      xor_websocket_mask_bytewise xor_at_def mask_at_def WEBSOCKET_COALESCE_FRAME_SIZE_def flush_websocket_frame_batch_def
      pipe_push_def pipe_flush_def write_websocket_frame_fragment_mode_def write_masked_websocket_frame_def
      write_masked_chunks.simps WEBSOCKET_MASK_CHUNK_SIZE_def first_non_empty_def chain_def Let_def)

theorem ws_written_means_complete_witness:
  "\<exists>bs part e. encoded True [(2, False, [1, 2]), (0, True, [3])] bs \<and> take 18 ws_demo_bytes = bs @ part
     \<and> encoded True [(9, True, [9])] e \<and> begins part e"
proof -
  have sendable: "\<forall>f \<in> set ws_demo_frames. \<forall>f'. resolve_deferred_segment f = Inr f' \<longrightarrow> ws_sendable rfc4648 f'"
    using ws_demo_deliverable by (auto simp: ws_deliverable_def resolve_deferred_segment_def)
  have outcomes: "map (ws_outcome False) (take n ws_demo_frames) @ replicate (length ws_demo_frames - n) Abandoned = [Written, Abandoned] \<Longrightarrow> n = 1"
    if "n \<le> length ws_demo_frames" for n
    using that by (auto simp: ws_demo_frames_def numeral_2_eq_2 le_Suc_eq ws_outcome_def resolve_deferred_segment_def message_segments_def
        control_def ws_opcode_def)
  have "map (resolved_ws_frames rfc4648 False) (take 1 ws_demo_frames) = [[(2, False, [1, 2]), (0, True, [3])]]"
    "ws_next rfc4648 False ws_demo_frames 1 = [(9, True, [9])]"
    by (simp_all add: ws_demo_frames_def resolved_ws_frames_def resolve_deferred_segment_def ws_frames_def ws_opcode_def
        ws_parts_def message_segments_def control_def ws_next_def ws_closing_def)
  with outcomes ws_written_means_complete [OF ws_pipe.websocket_sink_axioms pipe_clean sendable ws_demo_short] show ?thesis
    by (metis (no_types, lifting) append_Nil append_Nil2 concat.simps pipe.select_convs(1))
qed


end
