(* ===== verification/Ip_Address.thy ===== *)
theory Ip_Address
  imports Rust_Text
begin

text \<open>
  Numeric addresses of the Rust standard library: \<open>str::parse::<IpAddr>\<close> and \<open>is_loopback\<close>,
  which the configuration uses to keep anonymous MQTT on the local machine.
\<close>

section \<open>Numeric addresses\<close>

text \<open>\<open>str::parse::<IpAddr>\<close>. Each reader gives the value and the text after it; a reader that
  fails consumes nothing.\<close>

definition digit_of :: "nat \<Rightarrow> byte \<Rightarrow> nat option" where
  "digit_of radix b =
     (let d = (if is_ascii_digit b then Some (unat b - 48)
               else if 0x61 \<le> b \<and> b \<le> 0x66 then Some (unat b - 87)
               else if 0x41 \<le> b \<and> b \<le> 0x46 then Some (unat b - 55) else None)
      in case d of Some v \<Rightarrow> if v < radix then Some v else None | None \<Rightarrow> None)"

definition read_number :: "nat \<Rightarrow> nat \<Rightarrow> bool \<Rightarrow> nat \<Rightarrow> rstr \<Rightarrow> (nat \<times> rstr) option" where
  "read_number radix max_digits allow_zero_prefix bound s =
     (let ds = takeWhile (\<lambda>b. digit_of radix b \<noteq> None) s;
          v = foldl (\<lambda>n b. radix * n + the (digit_of radix b)) 0 ds
      in if ds = [] \<or> length ds > max_digits \<or> (\<not> allow_zero_prefix \<and> hd ds = 0x30 \<and> length ds > 1) \<or> v \<ge> bound
         then None else Some (v, drop (length ds) s))"

definition read_separator :: "byte \<Rightarrow> nat \<Rightarrow> (rstr \<Rightarrow> ('a \<times> rstr) option) \<Rightarrow> rstr \<Rightarrow> ('a \<times> rstr) option" where
  "read_separator sep index rd s =
     (if index = 0 then rd s else case s of b # t \<Rightarrow> if b = sep then rd t else None | [] \<Rightarrow> None)"

definition read_ipv4_addr :: "rstr \<Rightarrow> (nat list \<times> rstr) option" where
  "read_ipv4_addr s =
     (let octet = (\<lambda>i. read_separator 0x2E i (read_number 10 3 False 256)) in
      case octet 0 s of None \<Rightarrow> None | Some (a, s1) \<Rightarrow>
      (case octet 1 s1 of None \<Rightarrow> None | Some (b, s2) \<Rightarrow>
      (case octet 2 s2 of None \<Rightarrow> None | Some (c, s3) \<Rightarrow>
      (case octet 3 s3 of None \<Rightarrow> None | Some (d, s4) \<Rightarrow> Some ([a, b, c, d], s4)))))"

text \<open>\<open>read_groups\<close>: the groups read, whether the last two came from an IPv4 address, and the rest.
  \<open>todo\<close> counts the groups that still fit.\<close>

fun read_groups :: "nat \<Rightarrow> nat \<Rightarrow> rstr \<Rightarrow> nat list \<times> bool \<times> rstr" where
  "read_groups i 0 s = ([], False, s)"
| "read_groups i (Suc todo) s =
     (case (if todo > 0 then read_separator 0x3A i read_ipv4_addr s else None) of
        Some (octets, t) \<Rightarrow>
          ([256 * (octets ! 0) + octets ! 1, 256 * (octets ! 2) + octets ! 3], True, t)
      | None \<Rightarrow>
          (case read_separator 0x3A i (read_number 16 4 True 65536) s of
             None \<Rightarrow> ([], False, s)
           | Some (g, t) \<Rightarrow> (case read_groups (Suc i) todo t of (gs, v4, u) \<Rightarrow> (g # gs, v4, u))))"

definition read_ipv6_addr :: "rstr \<Rightarrow> (nat list \<times> rstr) option" where
  "read_ipv6_addr s =
     (case read_groups 0 8 s of (head, head_ipv4, t) \<Rightarrow>
        if length head = 8 then Some (head, t)
        else if head_ipv4 then None
        else case t of
            a # b # u \<Rightarrow>
              if a = 0x3A \<and> b = 0x3A then
                (case read_groups 0 (8 - (length head + 1)) u of (tail, _, v) \<Rightarrow>
                   Some (head @ replicate (8 - length head - length tail) 0 @ tail, v))
              else None
          | _ \<Rightarrow> None)"

datatype ip_addr = V4 "nat list" | V6 "nat list"

definition parse_ip_addr :: "rstr \<Rightarrow> ip_addr option" where
  "parse_ip_addr s =
     (case (case read_ipv4_addr s of
              Some (octets, t) \<Rightarrow> Some (V4 octets, t)
            | None \<Rightarrow> map_option (map_prod V6 id) (read_ipv6_addr s)) of
        Some (a, []) \<Rightarrow> Some a
      | _ \<Rightarrow> None)"

definition is_loopback :: "ip_addr \<Rightarrow> bool" where
  "is_loopback a = (case a of V4 octets \<Rightarrow> octets ! 0 = 127 | V6 groups \<Rightarrow> groups = [0, 0, 0, 0, 0, 0, 0, 1])"

definition numeric_loopback :: "rstr \<Rightarrow> bool" where
  "numeric_loopback s = (case parse_ip_addr s of Some a \<Rightarrow> is_loopback a | None \<Rightarrow> False)"

end
