(* ===== verification/Router_Config.thy ===== *)
theory Router_Config
  imports Ip_Address Rawsocket_Handshake Outbound_Frames
begin

unbundle bit_operations_syntax

text \<open>
  The configuration of the router (\<^verbatim>\<open>ct_core/src/config.rs\<close>): the endpoints as they are
  configured, the validation that turns an endpoint into its run-time form, the process-wide
  configuration and the lookup of endpoints. Decoding the JSON text is a parameter. A
  \<open>Duration\<close> is a number of milliseconds. A \<open>HashMap\<close> is the list of its entries in
  the order in which it is iterated; the keys are distinct.
\<close>

section \<open>Errors as values\<close>

text \<open>A check that ends the function with an error, and the question-mark operator.\<close>

definition require :: "bool \<Rightarrow> 'e \<Rightarrow> 'e + 'a \<Rightarrow> 'e + 'a" where
  "require ok e k = (if ok then k else Inl e)"

definition try_sum :: "'e + 'a \<Rightarrow> ('a \<Rightarrow> 'e + 'b) \<Rightarrow> 'e + 'b" where
  "try_sum m f = (case m of Inl e \<Rightarrow> Inl e | Inr x \<Rightarrow> f x)"

definition map_error_sum :: "('e \<Rightarrow> 'f) \<Rightarrow> 'e + 'a \<Rightarrow> 'f + 'a" where
  "map_error_sum g m = map_sum g id m"

lemma require_eq_Inr [simp]: "require ok e k = Inr r \<longleftrightarrow> ok \<and> k = Inr r"
  by (simp add: require_def)

lemma try_sum_eq_Inr [simp]: "try_sum m f = Inr r \<longleftrightarrow> (\<exists>x. m = Inr x \<and> f x = Inr r)"
  by (simp add: try_sum_def split: sum.splits)

lemma map_error_sum_eq_Inr [simp]: "map_error_sum g m = Inr r \<longleftrightarrow> m = Inr r"
  by (cases m) (simp_all add: map_error_sum_def)

section \<open>Configured values\<close>

definition MIN_RAWSOCKET_SIZE_EXPONENT :: nat where "MIN_RAWSOCKET_SIZE_EXPONENT = 9"
definition DEFAULT_RAWSOCKET_SIZE_EXPONENT :: nat where "DEFAULT_RAWSOCKET_SIZE_EXPONENT = 16"
definition DEFAULT_HANDSHAKE_TIMEOUT :: nat where "DEFAULT_HANDSHAKE_TIMEOUT = 5000"
definition DEFAULT_OUTBOUND_SEND_QUEUE_CAPACITY :: nat where "DEFAULT_OUTBOUND_SEND_QUEUE_CAPACITY = 1024"
definition MIN_OUTBOUND_SEND_QUEUE_CAPACITY :: nat where "MIN_OUTBOUND_SEND_QUEUE_CAPACITY = 1"
definition MAX_OUTBOUND_SEND_QUEUE_CAPACITY :: nat where "MAX_OUTBOUND_SEND_QUEUE_CAPACITY = 65535"

lemmas config_constants = MIN_RAWSOCKET_SIZE_EXPONENT_def DEFAULT_RAWSOCKET_SIZE_EXPONENT_def DEFAULT_HANDSHAKE_TIMEOUT_def
  DEFAULT_OUTBOUND_SEND_QUEUE_CAPACITY_def MIN_OUTBOUND_SEND_QUEUE_CAPACITY_def MAX_OUTBOUND_SEND_QUEUE_CAPACITY_def
  CONNECTANUM_MAX_RAWSOCKET_SIZE_EXPONENT_def

datatype tls_mode = Tls_Disabled | Tls_Native | Tls_Dart
datatype client_auth_mode = Auth_Disabled | Auth_Optional | Auth_Required
datatype transport_protocol = Rawsocket | Websocket | Mqtt | Http | Http2 | Http3
datatype http_route_match_kind = Exact | Prefix

primrec protocol_identifier :: "transport_protocol \<Rightarrow> rstr" where
  "protocol_identifier Rawsocket = ascii ''rawsocket''"
| "protocol_identifier Websocket = ascii ''websocket''"
| "protocol_identifier Mqtt = ascii ''mqtt''"
| "protocol_identifier Http = ascii ''http''"
| "protocol_identifier Http2 = ascii ''http2''"
| "protocol_identifier Http3 = ascii ''http3''"

record sni_certificate =
  hostname :: rstr
  certificate_chain_pem :: rstr
  private_key_pem :: rstr

record client_auth_config =
  auth_mode :: client_auth_mode
  ca_certificates_pem :: rstr

record http3_endpoint_config =
  http3_enabled :: bool
  http3_port :: "u16 option"

record http_endpoint_config =
  alpn :: "rstr list"
  http3 :: "http3_endpoint_config option"
  http_options :: "(rstr \<times> val) list"

record transport_auth =
  require_bearer :: bool
  require_tls :: bool
  require_mtls :: bool
  allow_unauthenticated_cors_preflight :: bool

datatype http_route_target =
    Translation rstr rstr
  | Reserved_Realm "rstr option" bool
  | Namespace rstr rstr bool

record http_route =
  route_path :: rstr
  match_kind :: http_route_match_kind
  route_protocols :: "rstr list"
  transport_auth :: transport_auth
  method_targets :: "(rstr \<times> http_route_target) list"
  default_target :: "http_route_target option"

text \<open>\<open>HttpRouteConfig\<close> and \<open>HttpRouteRuntime\<close>, \<open>HttpEndpointConfig\<close> and \<open>HttpEndpointRuntime\<close> have the
  same fields; one record models both, before and after validation.\<close>

record endpoint_config =
  cfg_host :: rstr
  cfg_port :: u16
  cfg_tls_mode :: tls_mode
  cfg_idle_timeout :: "nat option"
  cfg_heartbeat_interval :: "nat option"
  cfg_heartbeat_timeout :: "nat option"
  cfg_handshake_timeout :: "nat option"
  cfg_max_http_content_length :: "nat option"
  cfg_max_rawsocket_size_exponent :: "nat option"
  cfg_outbound_send_queue_capacity :: "nat option"
  cfg_websocket_path :: "rstr option"
  cfg_sni_certificates :: "sni_certificate list"
  cfg_client_auth :: "client_auth_config option"
  cfg_http_routes :: "http_route list"
  cfg_protocols :: "transport_protocol list"
  cfg_http :: "http_endpoint_config option"

record router_config =
  schema :: rstr
  config_version :: nat
  endpoints :: "endpoint_config list"

record endpoint_runtime =
  host :: rstr
  port :: u16
  tls :: tls_mode
  client_auth :: "client_auth_config option"
  protocols :: "transport_protocol list"
  idle_timeout :: "nat option"
  heartbeat_interval :: "nat option"
  heartbeat_timeout :: "nat option"
  handshake_timeout :: nat
  max_http_content_length :: "nat option"
  max_rawsocket_size_exponent :: nat
  max_rawsocket_size :: u64
  max_upgrade_exponent :: "nat option"
  outbound_send_queue_capacity :: nat
  websocket_path :: "rstr option"
  sni_certificates :: "sni_certificate list"
  http_routes :: "http_route list"
  http :: "http_endpoint_config option"

definition default_endpoint_protocols :: "transport_protocol list" where
  "default_endpoint_protocols = [Rawsocket]"

section \<open>Normalisation\<close>

text \<open>A vector with a set of what it holds: a value goes in only once.\<close>

definition push_new :: "'a list \<Rightarrow> 'a \<Rightarrow> 'a list" where
  "push_new acc x = (if x \<in> set acc then acc else acc @ [x])"

definition sanitize_protocols :: "transport_protocol list \<Rightarrow> transport_protocol list" where
  "sanitize_protocols ps = foldl push_new [] ps"

definition normalise_path :: "rstr \<Rightarrow> rstr + rstr" where
  "normalise_path value =
     (let trimmed = trim value in
      if trimmed = [] then Inl (ascii ''route path cannot be empty'')
      else if hd trimmed \<noteq> 0x2F then Inl (ascii ''route path must start with '' @ [0x27, 0x2F, 0x27] @ ascii '': '' @ trimmed)
      else Inr trimmed)"

definition normalise_http_route_protocol :: "unicode \<Rightarrow> rstr \<Rightarrow> rstr" where
  "normalise_http_route_protocol u protocol =
     (let cleaned = to_lowercase u (trim protocol) in
      if cleaned \<in> set (map ascii [''http'', ''http1'', ''http/1'', ''http/1.0'', ''http/1.1'']) then ascii ''http''
      else if cleaned \<in> set (map ascii [''h2'', ''http2'', ''http/2'']) then ascii ''http2''
      else if cleaned \<in> set (map ascii [''h3'', ''http3'', ''http/3'']) then ascii ''http3''
      else cleaned)"

fun normalise_protocols :: "unicode \<Rightarrow> rstr list \<Rightarrow> rstr list \<Rightarrow> rstr + rstr list" where
  "normalise_protocols u [] result = Inr result"
| "normalise_protocols u (p # ps) result =
     (let cleaned = normalise_http_route_protocol u p in
      if cleaned = [] then Inl (ascii ''protocol identifiers cannot be empty'')
      else normalise_protocols u ps (push_new result cleaned))"

definition target_from_config :: "http_route_target \<Rightarrow> rstr + http_route_target" where
  "target_from_config config =
     (case config of
        Translation realm procedure \<Rightarrow>
          require (trim realm \<noteq> []) (ascii ''translation target realm cannot be empty'')
          (require (trim procedure \<noteq> []) (ascii ''translation target procedure cannot be empty'')
          (Inr (Translation (trim realm) (trim procedure))))
      | Reserved_Realm namespace append_method_suffix \<Rightarrow>
          Inr (Reserved_Realm (map_option trim namespace) append_method_suffix)
      | Namespace realm namespace append_method_suffix \<Rightarrow>
          require (trim realm \<noteq> []) (ascii ''namespace mapping realm cannot be empty'')
          (require (trim namespace \<noteq> []) (ascii ''namespace mapping namespace cannot be empty'')
          (Inr (Namespace (trim realm) (trim namespace) append_method_suffix))))"

definition auth_from_config :: "transport_auth \<Rightarrow> transport_auth" where
  "auth_from_config config = config\<lparr>require_tls := require_tls config \<or> require_mtls config\<rparr>"

fun collect_methods :: "unicode \<Rightarrow> (rstr \<times> http_route_target) list \<Rightarrow> (rstr \<times> http_route_target) list \<Rightarrow>
    rstr + (rstr \<times> http_route_target) list" where
  "collect_methods u [] result = Inr result"
| "collect_methods u ((m, handler) # ms) result =
     (let method_key = to_uppercase u (trim m) in
      require (method_key \<noteq> []) (ascii ''method key may not be empty'')
      (require (method_key \<notin> fst ` set result) (ascii ''duplicate method declaration '' @ method_key)
      (try_sum (target_from_config handler) (\<lambda>t. collect_methods u ms (result @ [(method_key, t)])))))"

definition route_from_config :: "unicode \<Rightarrow> http_route \<Rightarrow> rstr + http_route" where
  "route_from_config u config =
     try_sum (normalise_path (route_path config)) (\<lambda>p.
     try_sum (normalise_protocols u (route_protocols config) []) (\<lambda>ps.
     try_sum (collect_methods u (method_targets config) []) (\<lambda>ms.
     try_sum (case default_target config of None \<Rightarrow> Inr None | Some handler \<Rightarrow> map_sum id Some (target_from_config handler)) (\<lambda>d.
       Inr \<lparr>route_path = p, match_kind = match_kind config, route_protocols = ps,
            transport_auth = auth_from_config (transport_auth config), method_targets = ms, default_target = d\<rparr>))))"

fun routes_from_configs :: "unicode \<Rightarrow> http_route list \<Rightarrow> rstr + http_route list" where
  "routes_from_configs u [] = Inr []"
| "routes_from_configs u (c # cs) =
     try_sum (route_from_config u c) (\<lambda>r. try_sum (routes_from_configs u cs) (\<lambda>rs. Inr (r # rs)))"

text \<open>The routes are sorted by the length of their path, the longest first; \<open>sort_by\<close> is stable.\<close>

definition try_from_configs :: "unicode \<Rightarrow> http_route list \<Rightarrow> rstr + http_route list" where
  "try_from_configs u configs =
     map_sum id (sort_key (\<lambda>r. - int (length (route_path r)))) (routes_from_configs u configs)"

definition add_alpn :: "unicode \<Rightarrow> rstr list \<Rightarrow> rstr \<Rightarrow> rstr list" where
  "add_alpn u acc token = (if trim token = [] then acc else push_new acc (to_lowercase u (trim token)))"

definition http_from_config :: "unicode \<Rightarrow> http_endpoint_config option \<Rightarrow> http_endpoint_config option" where
  "http_from_config u config =
     map_option (\<lambda>c. c\<lparr>alpn := foldl (add_alpn u) [] (alpn c),
       http3 := (case http3 c of Some h \<Rightarrow> if http3_enabled h then Some \<lparr>http3_enabled = True, http3_port = http3_port h\<rparr> else None
                               | None \<Rightarrow> None)\<rparr>) config"

section \<open>Validation of an endpoint\<close>

definition endpoint_invalid :: "endpoint_config \<Rightarrow> rstr \<Rightarrow> core_error" where
  "endpoint_invalid e reason =
     Router_Config_Invalid (ascii ''endpoint '' @ cfg_host e @ ascii '':'' @ decimal (unat (cfg_port e)) @ ascii '' '' @ reason)"

definition positive :: "nat option \<Rightarrow> bool" where
  "positive d = (case d of None \<Rightarrow> True | Some n \<Rightarrow> n \<noteq> 0)"

text \<open>Generic HTTP enables the versions that its settings name; version-specific endpoints keep
  their settings without enabling others.\<close>

definition expand_http :: "http_endpoint_config option \<Rightarrow> transport_protocol list \<Rightarrow> transport_protocol list" where
  "expand_http http_runtime ps =
     (if Http \<in> set ps then
        (case http_runtime of
           None \<Rightarrow> ps
         | Some h \<Rightarrow>
             let ps2 = (if ascii ''h2'' \<in> set (alpn h) \<and> Http2 \<notin> set ps then ps @ [Http2] else ps)
             in case http3 h of
                  Some h3 \<Rightarrow> if http3_enabled h3 \<and> Http3 \<notin> set ps2 then ps2 @ [Http3] else ps2
                | None \<Rightarrow> ps2)
      else ps)"

definition tls_checked :: "endpoint_config \<Rightarrow> transport_protocol list \<Rightarrow> core_error + 'a \<Rightarrow> core_error + 'a" where
  "tls_checked e ps k =
     (case cfg_tls_mode e of
        Tls_Disabled \<Rightarrow>
          require (Http3 \<notin> set ps) (endpoint_invalid e (ascii ''enables http3 but tls_mode is disabled'')) k
      | Tls_Native \<Rightarrow>
          require (cfg_sni_certificates e \<noteq> [])
            (endpoint_invalid e (ascii ''tls_mode native requires at least one sni_certificates entry'')) k
      | Tls_Dart \<Rightarrow> Inl (endpoint_invalid e (ascii ''tls_mode dart is not supported yet'')))"

definition client_auth_runtime :: "endpoint_config \<Rightarrow> core_error + client_auth_config option" where
  "client_auth_runtime e =
     (case cfg_client_auth e of
        None \<Rightarrow> Inr None
      | Some config \<Rightarrow>
          if auth_mode config = Auth_Disabled then Inr None
          else require (cfg_tls_mode e = Tls_Native) (endpoint_invalid e (ascii ''client_auth requires tls_mode native''))
            (require (trim (ca_certificates_pem config) \<noteq> [])
               (endpoint_invalid e (ascii ''client_auth requires ca_certificates_pem''))
            (Inr (Some \<lparr>auth_mode = auth_mode config, ca_certificates_pem = trim (ca_certificates_pem config)\<rparr>))))"

definition outside :: "nat \<Rightarrow> nat \<Rightarrow> nat \<Rightarrow> rstr" where
  "outside value low high = decimal value @ ascii '' outside supported range '' @ decimal low @ ascii ''..'' @ decimal high"

definition endpoint_protocols :: "endpoint_config \<Rightarrow> transport_protocol list" where
  "endpoint_protocols e =
     (let sanitized = sanitize_protocols (cfg_protocols e) in if sanitized = [] then [Rawsocket] else sanitized)"

definition endpoint_exponent :: "endpoint_config \<Rightarrow> nat" where
  "endpoint_exponent e = (case cfg_max_rawsocket_size_exponent e of Some x \<Rightarrow> x | None \<Rightarrow> DEFAULT_RAWSOCKET_SIZE_EXPONENT)"

definition endpoint_capacity :: "endpoint_config \<Rightarrow> nat" where
  "endpoint_capacity e = (case cfg_outbound_send_queue_capacity e of Some c \<Rightarrow> c | None \<Rightarrow> DEFAULT_OUTBOUND_SEND_QUEUE_CAPACITY)"

text \<open>The checks before the routes are looked at, in the order of the source.\<close>

definition limits_checked :: "endpoint_config \<Rightarrow> core_error + 'a \<Rightarrow> core_error + 'a" where
  "limits_checked e k =
    (let invalid = endpoint_invalid e; ps = endpoint_protocols e in
     require (Mqtt \<in> set ps \<longrightarrow> numeric_loopback (cfg_host e)) (invalid (ascii ''anonymous MQTT requires a numeric loopback host''))
     (require (MIN_RAWSOCKET_SIZE_EXPONENT \<le> endpoint_exponent e \<and> endpoint_exponent e \<le> CONNECTANUM_MAX_RAWSOCKET_SIZE_EXPONENT)
        (invalid (ascii ''declares max_rawsocket_size_exponent '' @
           outside (endpoint_exponent e) MIN_RAWSOCKET_SIZE_EXPONENT CONNECTANUM_MAX_RAWSOCKET_SIZE_EXPONENT))
     (require (positive (cfg_idle_timeout e)) (invalid (ascii ''idle_timeout_ms must be positive''))
     (require (positive (cfg_heartbeat_interval e)) (invalid (ascii ''heartbeat_interval_ms must be positive''))
     (require (positive (cfg_heartbeat_timeout e)) (invalid (ascii ''heartbeat_timeout_ms must be positive''))
     (require (case (cfg_heartbeat_interval e, cfg_heartbeat_timeout e) of
                 (Some interval, Some timeout) \<Rightarrow> interval \<le> timeout | _ \<Rightarrow> True)
        (invalid (ascii ''heartbeat_timeout_ms must be >= heartbeat_interval_ms''))
     (require (positive (cfg_handshake_timeout e)) (invalid (ascii ''handshake_timeout_ms must be positive''))
     (require (positive (cfg_max_http_content_length e)) (invalid (ascii ''max_http_content_length must be positive''))
     (require (MIN_OUTBOUND_SEND_QUEUE_CAPACITY \<le> endpoint_capacity e \<and> endpoint_capacity e \<le> MAX_OUTBOUND_SEND_QUEUE_CAPACITY)
        (invalid (ascii ''outbound_send_queue_capacity '' @
           outside (endpoint_capacity e) MIN_OUTBOUND_SEND_QUEUE_CAPACITY MAX_OUTBOUND_SEND_QUEUE_CAPACITY))
     (require (cfg_http_routes e = [] \<or> Http \<in> set ps) (invalid (ascii ''defines http routes but HTTP protocol disabled''))
     k))))))))))"

definition build_runtime :: "endpoint_config \<Rightarrow> transport_protocol list \<Rightarrow> client_auth_config option \<Rightarrow> http_route list \<Rightarrow>
    http_endpoint_config option \<Rightarrow> endpoint_runtime" where
  "build_runtime e ps auth routes http_runtime =
     \<lparr>host = cfg_host e, port = cfg_port e, tls = cfg_tls_mode e, client_auth = auth, protocols = ps,
      idle_timeout = cfg_idle_timeout e, heartbeat_interval = cfg_heartbeat_interval e,
      heartbeat_timeout = cfg_heartbeat_timeout e,
      handshake_timeout = (case cfg_handshake_timeout e of Some t \<Rightarrow> t | None \<Rightarrow> DEFAULT_HANDSHAKE_TIMEOUT),
      max_http_content_length = cfg_max_http_content_length e,
      max_rawsocket_size_exponent = endpoint_exponent e, max_rawsocket_size = push_bit (endpoint_exponent e) 1,
      max_upgrade_exponent = cfg_max_rawsocket_size_exponent e,
      outbound_send_queue_capacity = endpoint_capacity e, websocket_path = cfg_websocket_path e,
      sni_certificates = cfg_sni_certificates e, http_routes = routes, http = http_runtime\<rparr>"

definition http_settings_for :: "unicode \<Rightarrow> endpoint_config \<Rightarrow> http_endpoint_config option" where
  "http_settings_for u e =
     (let ps = endpoint_protocols e in
      if Http \<in> set ps \<or> Http2 \<in> set ps \<or> Http3 \<in> set ps then http_from_config u (cfg_http e) else None)"

definition try_from_endpoint :: "unicode \<Rightarrow> endpoint_config \<Rightarrow> core_error + endpoint_runtime" where
  "try_from_endpoint u e =
     limits_checked e
     (try_sum (map_error_sum (\<lambda>err. endpoint_invalid e (ascii ''http route invalid: '' @ err)) (try_from_configs u (cfg_http_routes e))) (\<lambda>routes.
        let http_runtime = http_settings_for u e; ps = expand_http http_runtime (endpoint_protocols e)
        in tls_checked e ps
           (try_sum (client_auth_runtime e) (\<lambda>auth. Inr (build_runtime e ps auth routes http_runtime)))))"

definition supports_protocol :: "endpoint_runtime \<Rightarrow> transport_protocol \<Rightarrow> bool" where
  "supports_protocol e p = (p \<in> set (protocols e))"

section \<open>The router configuration\<close>

text \<open>The loop over the endpoints with the set of sanctioned ports.\<close>

fun check_endpoints :: "unicode \<Rightarrow> (rstr \<times> u16) list \<Rightarrow> endpoint_config list \<Rightarrow> core_error option" where
  "check_endpoints u sanctioned [] = None"
| "check_endpoints u sanctioned (e # es) =
     (case try_from_endpoint u e of
        Inl err \<Rightarrow> Some err
      | Inr _ \<Rightarrow>
          if cfg_port e \<noteq> 0 then
            let key = (to_lowercase u (cfg_host e), cfg_port e) in
            if key \<in> set sanctioned then
              Some (Router_Config_Invalid (ascii ''duplicate endpoint '' @ cfg_host e @ ascii '':'' @ decimal (unat (cfg_port e))))
            else check_endpoints u (key # sanctioned) es
          else check_endpoints u sanctioned es)"

definition parse_router_config_bytes ::
  "unicode \<Rightarrow> (byte list \<Rightarrow> rstr + router_config) \<Rightarrow> byte list \<Rightarrow> core_error + router_config" where
  "parse_router_config_bytes u from_slice bytes =
     try_sum (map_error_sum Router_Config_Invalid (from_slice bytes)) (\<lambda>parsed.
       case check_endpoints u [] (endpoints parsed) of Some err \<Rightarrow> Inl err | None \<Rightarrow> Inr parsed)"

text \<open>The process-wide configuration; a rejected one leaves it as it was.\<close>

definition apply_router_config_bytes ::
  "unicode \<Rightarrow> (byte list \<Rightarrow> rstr + router_config) \<Rightarrow> byte list \<Rightarrow> router_config option \<Rightarrow>
   router_config option \<times> core_error option" where
  "apply_router_config_bytes u from_slice bytes current =
     (case parse_router_config_bytes u from_slice bytes of
        Inl err \<Rightarrow> (current, Some err)
      | Inr parsed \<Rightarrow> (Some parsed, None))"

definition find_endpoint_in :: "router_config \<Rightarrow> rstr \<Rightarrow> u16 \<Rightarrow> endpoint_config option" where
  "find_endpoint_in cfg h p =
     (case filter (\<lambda>e. eq_ignore_ascii_case (cfg_host e) h \<and> cfg_port e = p) (endpoints cfg) of
        [e] \<Rightarrow> Some e
      | _ \<Rightarrow> None)"

definition find_endpoint_at_in :: "router_config \<Rightarrow> nat \<Rightarrow> rstr \<Rightarrow> u16 \<Rightarrow> endpoint_config option" where
  "find_endpoint_at_in cfg index h p =
     (if index < length (endpoints cfg) then
        let e = endpoints cfg ! index in
        if \<not> eq_ignore_ascii_case (cfg_host e) h \<or> cfg_port e \<noteq> p then None else Some e
      else None)"

definition find_endpoint :: "router_config option \<Rightarrow> rstr \<Rightarrow> u16 \<Rightarrow> endpoint_config option" where
  "find_endpoint current h p = Option.bind current (\<lambda>cfg. find_endpoint_in cfg h p)"

definition find_endpoint_at :: "router_config option \<Rightarrow> nat \<Rightarrow> rstr \<Rightarrow> u16 \<Rightarrow> endpoint_config option" where
  "find_endpoint_at current index h p = Option.bind current (\<lambda>cfg. find_endpoint_at_in cfg index h p)"

section \<open>Well-formed endpoints\<close>

primrec target_ok :: "http_route_target \<Rightarrow> bool" where
  "target_ok (Translation realm procedure) = (realm \<noteq> [] \<and> procedure \<noteq> [])"
| "target_ok (Reserved_Realm namespace suffix) = True"
| "target_ok (Namespace realm namespace suffix) = (realm \<noteq> [] \<and> namespace \<noteq> [])"

definition methods_ok :: "(rstr \<times> http_route_target) list \<Rightarrow> bool" where
  "methods_ok ms = (distinct (map fst ms) \<and> [] \<notin> fst ` set ms \<and> (\<forall>t \<in> snd ` set ms. target_ok t))"

definition route_ok :: "http_route \<Rightarrow> bool" where
  "route_ok r =
     (route_path r \<noteq> [] \<and> hd (route_path r) = 0x2F
      \<and> distinct (route_protocols r) \<and> [] \<notin> set (route_protocols r)
      \<and> methods_ok (method_targets r) \<and> (\<forall>t \<in> set_option (default_target r). target_ok t)
      \<and> (require_mtls (transport_auth r) \<longrightarrow> require_tls (transport_auth r)))"

definition endpoint_ok :: "endpoint_runtime \<Rightarrow> bool" where
  "endpoint_ok r =
     (9 \<le> max_rawsocket_size_exponent r \<and> max_rawsocket_size_exponent r \<le> 30
      \<and> unat (max_rawsocket_size r) = 2 ^ max_rawsocket_size_exponent r
      \<and> 1 \<le> outbound_send_queue_capacity r \<and> outbound_send_queue_capacity r \<le> 65535
      \<and> 0 < handshake_timeout r \<and> idle_timeout r \<noteq> Some 0 \<and> heartbeat_interval r \<noteq> Some 0 \<and> heartbeat_timeout r \<noteq> Some 0
      \<and> (\<forall>i t. heartbeat_interval r = Some i \<longrightarrow> heartbeat_timeout r = Some t \<longrightarrow> i \<le> t)
      \<and> max_http_content_length r \<noteq> Some 0
      \<and> protocols r \<noteq> [] \<and> distinct (protocols r)
      \<and> (Mqtt \<in> set (protocols r) \<longrightarrow> numeric_loopback (host r))
      \<and> (Http3 \<in> set (protocols r) \<longrightarrow> tls r = Tls_Native)
      \<and> tls r \<noteq> Tls_Dart \<and> (tls r = Tls_Native \<longrightarrow> sni_certificates r \<noteq> [])
      \<and> (\<forall>a. client_auth r = Some a \<longrightarrow> tls r = Tls_Native \<and> auth_mode a \<noteq> Auth_Disabled \<and> ca_certificates_pem a \<noteq> [])
      \<and> (http_routes r \<noteq> [] \<longrightarrow> Http \<in> set (protocols r))
      \<and> (http r \<noteq> None \<longrightarrow> {Http, Http2, Http3} \<inter> set (protocols r) \<noteq> {})
      \<and> (\<forall>x \<in> set (http_routes r). route_ok x)
      \<and> sorted_wrt (\<lambda>x y. length (route_path x) \<ge> length (route_path y)) (http_routes r))"

lemma push_new_distinct: "distinct acc \<Longrightarrow> distinct (push_new acc x)"
  by (simp add: push_new_def)

lemma set_push_new [simp]: "set (push_new acc x) = insert x (set acc)"
  by (auto simp: push_new_def)

lemma foldl_push_new:
  "distinct acc \<Longrightarrow> distinct (foldl push_new acc xs) \<and> set (foldl push_new acc xs) = set acc \<union> set xs"
  by (induction xs arbitrary: acc) (simp_all add: push_new_distinct)

lemma sanitize_protocols_set: "distinct (sanitize_protocols ps)" "set (sanitize_protocols ps) = set ps"
  using foldl_push_new [of "[]" ps] by (simp_all add: sanitize_protocols_def)

lemma normalise_protocols_ok:
  "normalise_protocols u ps acc = Inr ps' \<Longrightarrow> distinct acc \<Longrightarrow> [] \<notin> set acc \<Longrightarrow> distinct ps' \<and> [] \<notin> set ps'"
  by (induction u ps acc rule: normalise_protocols.induct) (auto simp: Let_def push_new_distinct split: if_splits)

lemma target_from_config_ok: "target_from_config c = Inr t \<Longrightarrow> target_ok t"
  by (auto simp: target_from_config_def split: http_route_target.splits)

lemma methods_ok_snoc:
  "methods_ok acc \<Longrightarrow> k \<noteq> [] \<Longrightarrow> k \<notin> fst ` set acc \<Longrightarrow> target_ok t \<Longrightarrow> methods_ok (acc @ [(k, t)])"
  by (auto simp: methods_ok_def)

lemma collect_methods_ok: "collect_methods u ms acc = Inr ms' \<Longrightarrow> methods_ok acc \<Longrightarrow> methods_ok ms'"
proof (induction ms arbitrary: acc)
  case (Cons x ms)
  obtain m handler where x: "x = (m, handler)" by fastforce
  from Cons.prems(1) obtain t where "to_uppercase u (trim m) \<noteq> []" "to_uppercase u (trim m) \<notin> fst ` set acc"
    "target_from_config handler = Inr t" "collect_methods u ms (acc @ [(to_uppercase u (trim m), t)]) = Inr ms'"
    by (auto simp: x Let_def)
  with Cons.IH Cons.prems(2) show ?case by (blast intro: methods_ok_snoc target_from_config_ok)
qed simp

lemma route_from_config_ok:
  assumes "route_from_config u c = Inr r"
  shows "route_ok r"
proof -
  from assms obtain p ps ms d where
    parts: "normalise_path (route_path c) = Inr p" "normalise_protocols u (route_protocols c) [] = Inr ps"
      "collect_methods u (method_targets c) [] = Inr ms"
      "(case default_target c of None \<Rightarrow> Inr None | Some h \<Rightarrow> map_sum id Some (target_from_config h)) = Inr d"
      "r = \<lparr>route_path = p, match_kind = match_kind c, route_protocols = ps,
            transport_auth = auth_from_config (transport_auth c), method_targets = ms, default_target = d\<rparr>"
    by (auto simp: route_from_config_def)
  moreover have "p \<noteq> [] \<and> hd p = 0x2F" using parts(1) by (auto simp: normalise_path_def Let_def split: if_splits)
  moreover have "\<forall>t \<in> set_option d. target_ok t"
    using parts(4) by (cases "default_target c"; cases "target_from_config (the (default_target c))") (auto dest: target_from_config_ok)
  moreover have "methods_ok ms" using collect_methods_ok [OF parts(3)] by (simp add: methods_ok_def)
  moreover note normalise_protocols_ok [OF parts(2)]
  ultimately show ?thesis by (auto simp: route_ok_def auth_from_config_def)
qed

lemma routes_from_configs_ok: "routes_from_configs u cs = Inr rs \<Longrightarrow> \<forall>r \<in> set rs. route_ok r"
  by (induction cs arbitrary: rs) (auto dest: route_from_config_ok)

lemma routes_from_configs_length: "routes_from_configs u cs = Inr rs \<Longrightarrow> length rs = length cs"
  by (induction cs arbitrary: rs) auto

lemma try_from_configs_eq:
  "try_from_configs u cs = Inr rs \<longleftrightarrow>
   (\<exists>rs0. routes_from_configs u cs = Inr rs0 \<and> rs = sort_key (\<lambda>r. - int (length (route_path r))) rs0)"
  by (cases "routes_from_configs u cs") (auto simp: try_from_configs_def)

lemma sort_key_desc:
  "sorted_wrt (\<lambda>x y. length (f x) \<ge> length (f y)) (sort_key (\<lambda>r. - int (length (f r))) rs)"
  using sorted_sort_key [of "\<lambda>r. - int (length (f r))" rs] by (simp add: sorted_map)

lemma expand_http_protocols:
  "distinct ps \<Longrightarrow> distinct (expand_http h ps) \<and> set ps \<subseteq> set (expand_http h ps)
    \<and> set (expand_http h ps) \<subseteq> set ps \<union> {Http2, Http3}"
  by (auto simp: expand_http_def Let_def split: option.splits)

lemma tls_checked_eq [simp]:
  "tls_checked e ps k = Inr r \<longleftrightarrow>
   (case cfg_tls_mode e of Tls_Disabled \<Rightarrow> Http3 \<notin> set ps | Tls_Native \<Rightarrow> cfg_sni_certificates e \<noteq> [] | Tls_Dart \<Rightarrow> False) \<and> k = Inr r"
  by (auto simp: tls_checked_def split: tls_mode.splits)

lemma client_auth_runtime_ok:
  "client_auth_runtime e = Inr (Some a) \<Longrightarrow>
   cfg_tls_mode e = Tls_Native \<and> auth_mode a \<noteq> Auth_Disabled \<and> ca_certificates_pem a \<noteq> []"
  by (auto simp: client_auth_runtime_def split: option.splits if_splits)

lemma positive_iff [simp]: "positive d \<longleftrightarrow> d \<noteq> Some 0"
  by (cases d) (auto simp: positive_def)

lemma size_of_exponent: "e \<le> 30 \<Longrightarrow> unat (push_bit e (1 :: u64)) = 2 ^ e"
proof -
  assume "e \<le> 30"
  then have "2 ^ e < (2 :: nat) ^ 64" by (intro power_strict_increasing) simp_all
  then have "unat (of_nat (2 ^ e) :: u64) = 2 ^ e" unfolding unat_of_nat by simp
  then show ?thesis by (simp add: push_bit_eq_mult)
qed

lemma limits_checked_eq [simp]:
  "limits_checked e k = Inr r \<longleftrightarrow>
   (Mqtt \<in> set (endpoint_protocols e) \<longrightarrow> numeric_loopback (cfg_host e)) \<and> 9 \<le> endpoint_exponent e \<and> endpoint_exponent e \<le> 30
   \<and> cfg_idle_timeout e \<noteq> Some 0 \<and> cfg_heartbeat_interval e \<noteq> Some 0 \<and> cfg_heartbeat_timeout e \<noteq> Some 0
   \<and> (\<forall>i t. cfg_heartbeat_interval e = Some i \<longrightarrow> cfg_heartbeat_timeout e = Some t \<longrightarrow> i \<le> t)
   \<and> cfg_handshake_timeout e \<noteq> Some 0 \<and> cfg_max_http_content_length e \<noteq> Some 0
   \<and> 1 \<le> endpoint_capacity e \<and> endpoint_capacity e \<le> 65535
   \<and> (cfg_http_routes e = [] \<or> Http \<in> set (endpoint_protocols e)) \<and> k = Inr r"
  by (auto simp: limits_checked_def Let_def config_constants split: option.splits)

lemma endpoint_protocols_set:
  "distinct (endpoint_protocols e)" "endpoint_protocols e \<noteq> []" "set (cfg_protocols e) \<subseteq> set (endpoint_protocols e)"
  using sanitize_protocols_set [of "cfg_protocols e"] by (auto simp: endpoint_protocols_def Let_def)

lemma try_from_configs_ok:
  assumes "try_from_configs u cs = Inr rs"
  shows "(\<forall>x \<in> set rs. route_ok x) \<and> length rs = length cs
    \<and> sorted_wrt (\<lambda>x y. length (route_path x) \<ge> length (route_path y)) rs"
  using assms routes_from_configs_ok routes_from_configs_length sort_key_desc [of route_path]
  by (fastforce simp: try_from_configs_eq)

section \<open>What an accepted configuration guarantees\<close>

definition endpoint_key :: "unicode \<Rightarrow> endpoint_config \<Rightarrow> rstr \<times> u16" where
  "endpoint_key u e = (to_lowercase u (cfg_host e), cfg_port e)"

lemma check_endpoints_None:
  "check_endpoints u sanctioned es = None \<Longrightarrow>
   (\<forall>e \<in> set es. \<exists>r. try_from_endpoint u e = Inr r)
   \<and> distinct (map (endpoint_key u) (filter (\<lambda>e. cfg_port e \<noteq> 0) es))
   \<and> endpoint_key u ` set (filter (\<lambda>e. cfg_port e \<noteq> 0) es) \<inter> set sanctioned = {}"
proof (induction es arbitrary: sanctioned)
  case (Cons e es)
  from Cons.prems obtain r where r: "try_from_endpoint u e = Inr r" by (auto split: sum.splits)
  show ?case
  proof (cases "cfg_port e = 0")
    case True
    with Cons r show ?thesis by simp
  next
    case False
    with Cons.prems r have new: "endpoint_key u e \<notin> set sanctioned" "check_endpoints u (endpoint_key u e # sanctioned) es = None"
      by (auto simp: Let_def endpoint_key_def split: if_splits)
    from Cons.IH [OF new(2)] new(1) r False show ?thesis by auto
  qed
qed simp

lemma filter_unique:
  "distinct (map f xs) \<Longrightarrow> e \<in> set xs \<Longrightarrow> P e \<Longrightarrow> (\<And>x. x \<in> set xs \<Longrightarrow> P x \<Longrightarrow> f x = f e) \<Longrightarrow> filter P xs = [e]"
proof (induction xs)
  case (Cons x xs)
  show ?case
  proof (cases "x = e")
    case True
    have "\<not> P y" if y: "y \<in> set xs" for y
    proof
      assume "P y"
      with Cons.prems(4) [of y] y True have "f x = f y" by simp
      with Cons.prems(1) y show False by simp
    qed
    with True Cons.prems(3) show ?thesis by (simp add: filter_empty_conv)
  next
    case False
    with Cons.prems have "e \<in> set xs" by simp
    then have "f x \<noteq> f e" using Cons.prems(1) by (metis distinct.simps(2) image_eqI list.set_map list.simps(9))
    with Cons.prems(4) [of x] have "\<not> P x" by auto
    moreover have "distinct (map f xs)" using Cons.prems(1) by simp
    then have "filter P xs = [e]" using \<open>e \<in> set xs\<close> Cons.prems(3) by (rule Cons.IH) (rule Cons.prems(4), auto)
    ultimately show ?thesis by simp
  qed
qed simp

lemma unicode_lower_cong: "unicode_laws u \<Longrightarrow> eq_ignore_ascii_case s t \<Longrightarrow> to_lowercase u s = to_lowercase u t"
  unfolding unicode_laws_def eq_ignore_ascii_case_def by metis

lemma find_endpoint_in_unique:
  assumes laws: "unicode_laws u" and checked: "check_endpoints u [] (endpoints cfg) = None"
    and e: "e \<in> set (endpoints cfg)" "cfg_port e \<noteq> 0" and h: "eq_ignore_ascii_case (cfg_host e) h"
  shows "find_endpoint_in cfg h (cfg_port e) = Some e"
proof -
  let ?P = "\<lambda>x. eq_ignore_ascii_case (cfg_host x) h \<and> cfg_port x = cfg_port e"
  have same: "endpoint_key u x = endpoint_key u e" if "?P x" for x
    using that h unicode_lower_cong [OF laws, of "cfg_host x" h] unicode_lower_cong [OF laws, of "cfg_host e" h]
    by (simp add: endpoint_key_def)
  have "filter ?P (filter (\<lambda>e. cfg_port e \<noteq> 0) (endpoints cfg)) = [e]"
    by (rule filter_unique [of "endpoint_key u"]) (use check_endpoints_None [OF checked] e h in simp_all, rule same, blast)
  moreover have "filter ?P (filter (\<lambda>e. cfg_port e \<noteq> 0) (endpoints cfg)) = filter ?P (endpoints cfg)"
    using e(2) by (auto simp: filter_filter intro!: filter_cong)
  ultimately have "filter ?P (endpoints cfg) = [e]" by simp
  then show ?thesis by (simp add: find_endpoint_in_def)
qed

lemma accepted_endpoint:
  assumes "try_from_endpoint u e = Inr r"
  shows "endpoint_ok r \<and> host r = cfg_host e \<and> port r = cfg_port e \<and> set (cfg_protocols e) \<subseteq> set (protocols r)
    \<and> length (http_routes r) = length (cfg_http_routes e)"
proof -
  define hr ps where "hr = http_settings_for u e" and "ps = expand_http hr (endpoint_protocols e)"
  from assms obtain rs auth where rs: "try_from_configs u (cfg_http_routes e) = Inr rs" and auth: "client_auth_runtime e = Inr auth"
    and r: "r = build_runtime e ps auth rs hr"
    and tls: "case cfg_tls_mode e of Tls_Disabled \<Rightarrow> Http3 \<notin> set ps | Tls_Native \<Rightarrow> cfg_sni_certificates e \<noteq> [] | Tls_Dart \<Rightarrow> False"
    unfolding try_from_endpoint_def hr_def ps_def Let_def by auto
  from assms have lim: "limits_checked e (Inr ()) = Inr ()" unfolding try_from_endpoint_def by simp
  note ex = expand_http_protocols [OF endpoint_protocols_set(1) [of e], of hr, folded ps_def]
  have tls': "cfg_tls_mode e \<noteq> Tls_Dart" "cfg_tls_mode e = Tls_Native \<longrightarrow> cfg_sni_certificates e \<noteq> []" "Http3 \<in> set ps \<longrightarrow> cfg_tls_mode e = Tls_Native"
    using tls by (auto split: tls_mode.splits)
  have http: "rs \<noteq> [] \<longrightarrow> Http \<in> set ps" "hr \<noteq> None \<longrightarrow> {Http, Http2, Http3} \<inter> set ps \<noteq> {}"
    using lim try_from_configs_ok [OF rs] ex by (auto simp: hr_def http_settings_for_def Let_def split: if_splits)
  have mqtt: "Mqtt \<in> set ps \<longrightarrow> numeric_loopback (cfg_host e)" using lim ex by auto
  have ps: "ps \<noteq> []" "distinct ps" "set (cfg_protocols e) \<subseteq> set ps" using endpoint_protocols_set [of e] ex by auto
  have timeout: "0 < (case cfg_handshake_timeout e of Some t \<Rightarrow> t | None \<Rightarrow> DEFAULT_HANDSHAKE_TIMEOUT)"
    using lim by (auto simp: config_constants split: option.splits)
  show ?thesis unfolding endpoint_ok_def r build_runtime_def
    using lim timeout tls' http mqtt ps try_from_configs_ok [OF rs] client_auth_runtime_ok [of e] auth size_of_exponent [of "endpoint_exponent e"]
    by simp
qed

text \<open>C27: Whatever the configuration says, an endpoint that validation accepts is well formed: the
  message size lies between 2^9 and 2^30 and fits its word, the queue is bounded and not empty,
  all timers are positive and the heartbeat timeout is not below its interval, the protocols are
  distinct and not empty, MQTT is only on a numeric loopback host, HTTP/3 and client
  certificates only with TLS and its certificates, HTTP routes only with HTTP; every route has an
  absolute path, unambiguous methods and non-empty targets, a route that asks for a client
  certificate also asks for TLS, and routes are in order of decreasing path length. Nothing
  that was configured is dropped from the protocols.\<close>

theorem accepted_endpoint_well_formed:
  assumes "try_from_endpoint u e = Inr r"
  shows "endpoint_ok r \<and> host r = cfg_host e \<and> port r = cfg_port e \<and> set (cfg_protocols e) \<subseteq> set (protocols r)
    \<and> length (http_routes r) = length (cfg_http_routes e)"
  using accepted_endpoint [OF assms] .

lemma endpoint_accepted_ok: "try_from_endpoint u e = Inr r \<Longrightarrow> endpoint_ok r"
  using accepted_endpoint by blast

lemma accepted_routes: "try_from_endpoint u e = Inr r \<Longrightarrow> try_from_configs u (cfg_http_routes e) = Inr (http_routes r)"
  by (auto simp: try_from_endpoint_def Let_def build_runtime_def)

lemma accepted_body_limit: "try_from_endpoint u e = Inr r \<Longrightarrow> max_http_content_length r = cfg_max_http_content_length e"
  by (auto simp: try_from_endpoint_def Let_def build_runtime_def)

text \<open>Applying a configuration is all or nothing. A rejected one leaves the configuration in force
  as it was. After an accepted one every endpoint has passed validation, an endpoint with a fixed
  port is found by its host, in any ASCII case, and its port, and it is the only one; an endpoint
  is found by its position as well, also when its port is chosen by the system.\<close>

theorem applied_config_finds_endpoints:
  assumes laws: "unicode_laws u" and run: "apply_router_config_bytes u from_slice bytes current = (current', err)"
  shows "(err \<noteq> None \<longrightarrow> current' = current)
    \<and> (err = None \<longrightarrow> (\<exists>cfg. current' = Some cfg \<and> from_slice bytes = Inr cfg
        \<and> (\<forall>i < length (endpoints cfg). let e = endpoints cfg ! i in
             (\<exists>r. try_from_endpoint u e = Inr r)
             \<and> (\<forall>h. eq_ignore_ascii_case (cfg_host e) h \<longrightarrow>
                  find_endpoint_at current' i h (cfg_port e) = Some e
                  \<and> (cfg_port e \<noteq> 0 \<longrightarrow> find_endpoint current' h (cfg_port e) = Some e)))))"
proof (cases "parse_router_config_bytes u from_slice bytes")
  case (Inl e)
  with run show ?thesis by (auto simp: apply_router_config_bytes_def)
next
  case (Inr cfg)
  then have parsed: "from_slice bytes = Inr cfg" and checked: "check_endpoints u [] (endpoints cfg) = None"
    by (auto simp: parse_router_config_bytes_def split: option.splits)
  have now: "err = None" "current' = Some cfg" using run Inr by (auto simp: apply_router_config_bytes_def)
  have "(\<exists>r. try_from_endpoint u (endpoints cfg ! i) = Inr r)
      \<and> (\<forall>h. eq_ignore_ascii_case (cfg_host (endpoints cfg ! i)) h \<longrightarrow>
           find_endpoint_at current' i h (cfg_port (endpoints cfg ! i)) = Some (endpoints cfg ! i)
           \<and> (cfg_port (endpoints cfg ! i) \<noteq> 0 \<longrightarrow> find_endpoint current' h (cfg_port (endpoints cfg ! i)) = Some (endpoints cfg ! i)))"
    if "i < length (endpoints cfg)" for i
    using that check_endpoints_None [OF checked] find_endpoint_in_unique [OF laws checked, of "endpoints cfg ! i"]
    by (auto simp: now find_endpoint_at_def find_endpoint_at_in_def find_endpoint_def)
  with parsed now show ?thesis by (simp add: Let_def)
qed

section \<open>A concrete configuration\<close>

text \<open>The case tables on ASCII, and an endpoint that offers RawSocket and HTTP with two routes.\<close>

definition ascii_tables :: unicode where
  "ascii_tables = \<lparr>to_lowercase = to_ascii_lowercase, to_uppercase = map (\<lambda>b. if is_ascii_lowercase b then b - 0x20 else b)\<rparr>"

lemma ascii_tables_laws: "unicode_laws ascii_tables"
  by (auto simp: unicode_laws_def ascii_tables_def to_ascii_lowercase_def)

definition no_auth :: transport_auth where
  "no_auth = \<lparr>require_bearer = False, require_tls = False, require_mtls = False, allow_unauthenticated_cors_preflight = False\<rparr>"

definition demo_route :: "string \<Rightarrow> http_route_match_kind \<Rightarrow> http_route_target \<Rightarrow> http_route" where
  "demo_route p k t = \<lparr>route_path = ascii p, match_kind = k, route_protocols = [], transport_auth = no_auth,
     method_targets = [(ascii ''GET'', t)], default_target = None\<rparr>"

definition demo_endpoint :: endpoint_config where
  "demo_endpoint = \<lparr>cfg_host = ascii ''Localhost'', cfg_port = 8080, cfg_tls_mode = Tls_Disabled, cfg_idle_timeout = None,
     cfg_heartbeat_interval = Some 1000, cfg_heartbeat_timeout = Some 3000, cfg_handshake_timeout = None,
     cfg_max_http_content_length = None, cfg_max_rawsocket_size_exponent = None, cfg_outbound_send_queue_capacity = None,
     cfg_websocket_path = None, cfg_sni_certificates = [], cfg_client_auth = None,
     cfg_http_routes = [demo_route ''/'' Prefix (Reserved_Realm None True),
       demo_route ''/api'' Prefix (Namespace (ascii ''realm1'') (ascii ''app'') False)],
     cfg_protocols = [Rawsocket, Http, Rawsocket], cfg_http = None\<rparr>"

lemma trim_plain: "ws_prefix s = 0 \<Longrightarrow> ws_suffix s = 0 \<Longrightarrow> trim s = s"
  by (simp add: trim_def trim_start.simps trim_end.simps)

lemma demo_trims [simp]:
  "trim (ascii ''/'') = ascii ''/''" "trim (ascii ''/api'') = ascii ''/api''" "trim (ascii ''GET'') = ascii ''GET''"
  "trim (ascii ''realm1'') = ascii ''realm1''" "trim (ascii ''app'') = ascii ''app''"
  by (rule trim_plain; simp add: ws_prefix_def ws_suffix_def white_space_eq ascii_def)+

lemma demo_route_accepted:
  "route_from_config ascii_tables (demo_route ''/'' Prefix (Reserved_Realm None True)) = Inr (demo_route ''/'' Prefix (Reserved_Realm None True))"
  "route_from_config ascii_tables (demo_route ''/api'' Prefix (Namespace (ascii ''realm1'') (ascii ''app'') False)) =
     Inr (demo_route ''/api'' Prefix (Namespace (ascii ''realm1'') (ascii ''app'') False))"
  by (simp_all add: route_from_config_def demo_route_def normalise_path_def target_from_config_def require_def try_sum_def
      auth_from_config_def no_auth_def ascii_tables_def)
     (simp_all add: ascii_def is_ascii_lowercase_def demo_trims [unfolded ascii_def, simplified])

lemma demo_endpoint_accepted: "\<exists>r. try_from_endpoint ascii_tables demo_endpoint = Inr r"
  by (simp add: try_from_endpoint_def try_from_configs_eq demo_endpoint_def demo_route_accepted endpoint_protocols_def Let_def
      sanitize_protocols_def push_new_def endpoint_exponent_def endpoint_capacity_def config_constants client_auth_runtime_def
      http_settings_for_def http_from_config_def expand_http_def)

theorem accepted_endpoint_well_formed_witness:
  "\<exists>r. try_from_endpoint ascii_tables demo_endpoint = Inr r \<and> endpoint_ok r \<and> host r = ascii ''Localhost'' \<and> length (http_routes r) = 2"
proof -
  obtain r where r: "try_from_endpoint ascii_tables demo_endpoint = Inr r" using demo_endpoint_accepted by blast
  from accepted_endpoint_well_formed [OF r] r show ?thesis by (auto simp: demo_endpoint_def)
qed

theorem applied_config_finds_endpoints_witness:
  "let cfg = \<lparr>schema = [], config_version = 2, endpoints = [demo_endpoint]\<rparr>;
       current = fst (apply_router_config_bytes ascii_tables (\<lambda>_. Inr cfg) [] None)
   in find_endpoint current (ascii ''LOCALHOST'') 8080 = Some demo_endpoint \<and> find_endpoint_at current 0 (ascii ''localhost'') 8080 = Some demo_endpoint"
proof -
  let ?cfg = "\<lparr>schema = [], config_version = 2, endpoints = [demo_endpoint]\<rparr>"
  have port: "cfg_port demo_endpoint = 8080" by (simp add: demo_endpoint_def)
  have hosts: "eq_ignore_ascii_case (cfg_host demo_endpoint) (ascii ''LOCALHOST'')" "eq_ignore_ascii_case (cfg_host demo_endpoint) (ascii ''localhost'')"
    by (simp_all add: demo_endpoint_def eq_ignore_ascii_case_def to_ascii_lowercase_def ascii_def ascii_simps)
  have run: "apply_router_config_bytes ascii_tables (\<lambda>_. Inr ?cfg) [] None = (Some ?cfg, None)"
    using demo_endpoint_accepted by (auto simp: apply_router_config_bytes_def parse_router_config_bytes_def try_sum_def map_error_sum_def Let_def)
  from applied_config_finds_endpoints [OF ascii_tables_laws run] hosts show ?thesis by (simp add: run Let_def port)
qed

end
