(* ===== verification/Http_Routes.thy ===== *)
theory Http_Routes
  imports Router_Config
begin

text \<open>
  HTTP routes (\<^verbatim>\<open>ct_core/src/config.rs\<close>): which route of an endpoint serves a request and which
  WAMP procedure it names. A request is a path, an optional query, a method and a protocol. The
  sets of allowed methods and protocols that the source collects are sets here; they leave as
  sorted lists.
\<close>

section \<open>Procedure names\<close>

definition RESERVED_HTTP_REALM :: rstr where "RESERVED_HTTP_REALM = ascii ''router.http''"

definition normalise_namespace :: "rstr \<Rightarrow> rstr" where
  "normalise_namespace namespace =
     (let trimmed = trim_matches 0x2E (trim namespace) in if trimmed = [] then [] else trimmed @ [0x2E])"

text \<open>\<open>sanitise_segment\<close> maps each character; in UTF-8 a character outside ASCII starts with one byte
  that is not a continuation byte, and the continuation bytes give nothing.\<close>

definition continuation_byte :: "byte \<Rightarrow> bool" where
  "continuation_byte b = (0x80 \<le> b \<and> b \<le> 0xBF)"

definition sanitise_segment :: "rstr \<Rightarrow> rstr" where
  "sanitise_segment segment =
     (let result = map (\<lambda>b. if is_ascii_alphanumeric b then ascii_lower b else 0x5F)
                     (filter (\<lambda>b. \<not> continuation_byte b) segment)
      in if result = [] then ascii ''index'' else result)"

definition segments_from_path :: "rstr \<Rightarrow> rstr list" where
  "segments_from_path p =
     (let trimmed = (if p = [] then [0x2F] else p); stripped = trim_matches 0x2F trimmed in
      if stripped = [] then [] else map sanitise_segment (split_on 0x2F stripped))"

definition append_segment :: "rstr \<Rightarrow> rstr \<Rightarrow> rstr" where
  "append_segment buffer segment = (if buffer \<noteq> [] \<and> last buffer \<noteq> 0x2E then buffer @ [0x2E] else buffer) @ segment"

definition append_path_segments :: "rstr \<Rightarrow> rstr \<Rightarrow> rstr" where
  "append_path_segments buffer p =
     (let segments = segments_from_path p in
      if segments = [] then buffer @ ascii ''index'' else foldl append_segment buffer segments)"

definition append_suffix :: "rstr \<Rightarrow> rstr \<Rightarrow> rstr" where
  "append_suffix buffer method = (if buffer \<noteq> [] then buffer @ [0x2E] else buffer) @ to_ascii_lowercase method"

definition route_relative_path :: "rstr \<Rightarrow> rstr \<Rightarrow> rstr" where
  "route_relative_path rp request_path =
     (case strip_prefix request_path rp of
        None \<Rightarrow> request_path
      | Some remainder \<Rightarrow>
          if remainder = [] then [0x2F]
          else if hd remainder = 0x2F then remainder
          else 0x2F # remainder)"

section \<open>Resolution\<close>

record http_route_resolution =
  realm :: rstr
  procedure :: rstr
  res_method :: rstr
  res_protocol :: rstr
  res_path :: rstr
  res_query :: "rstr option"
  res_auth :: transport_auth

datatype http_route_match =
    Not_Found
  | Method_Not_Allowed "rstr list"
  | Protocol_Not_Allowed "rstr list"
  | Resolved http_route_resolution

definition identifier_for :: "rstr \<Rightarrow> bool \<Rightarrow> rstr \<Rightarrow> rstr \<Rightarrow> rstr" where
  "identifier_for prefix append_method_suffix target_path method =
     (let identifier' = append_path_segments prefix target_path in
      if append_method_suffix then append_suffix identifier' method else identifier')"

definition materialise ::
  "http_route_target \<Rightarrow> transport_auth \<Rightarrow> rstr \<Rightarrow> rstr option \<Rightarrow> rstr \<Rightarrow> rstr \<Rightarrow> rstr \<Rightarrow> http_route_resolution" where
  "materialise target auth target_path query method protocol request_path =
     (let resolution = (\<lambda>r p. \<lparr>realm = r, procedure = p, res_method = method, res_protocol = protocol,
            res_path = request_path, res_query = query, res_auth = auth\<rparr>)
      in case target of
           Translation r p \<Rightarrow> resolution r p
         | Reserved_Realm namespace append_method_suffix \<Rightarrow>
             resolution RESERVED_HTTP_REALM
               (identifier_for (case namespace of Some n \<Rightarrow> normalise_namespace n | None \<Rightarrow> []) append_method_suffix target_path method)
         | Namespace r namespace append_method_suffix \<Rightarrow>
             resolution r (identifier_for (normalise_namespace namespace) append_method_suffix target_path method))"

section \<open>Routes\<close>

definition matches_path :: "http_route \<Rightarrow> rstr \<Rightarrow> bool" where
  "matches_path r p =
     (case match_kind r of
        Exact \<Rightarrow> p = route_path r
      | Prefix \<Rightarrow>
          if route_path r = [0x2F] then True
          else if \<not> starts_with p (route_path r) then False
          else if length p = length (route_path r) then True
          else if (if route_path r = [] then 0x2F else last (route_path r)) = (0x2F :: byte) then True
          else case nth_opt p (length (route_path r)) of Some b \<Rightarrow> b = 0x2F | None \<Rightarrow> False)"

definition allows_protocol :: "http_route \<Rightarrow> rstr \<Rightarrow> bool" where
  "allows_protocol r protocol = (route_protocols r = [] \<or> protocol \<in> set (route_protocols r))"

definition target_path :: "http_route \<Rightarrow> http_route_target \<Rightarrow> rstr \<Rightarrow> rstr" where
  "target_path r target request_path =
     (case target of
        Namespace _ _ _ \<Rightarrow>
          if match_kind r = Prefix \<and> route_path r \<noteq> [0x2F] then route_relative_path (route_path r) request_path else request_path
      | _ \<Rightarrow> request_path)"

definition resolve_for_method ::
  "unicode \<Rightarrow> http_route \<Rightarrow> rstr \<Rightarrow> rstr option \<Rightarrow> rstr \<Rightarrow> rstr \<Rightarrow> http_route_resolution option" where
  "resolve_for_method u r p query method protocol =
     (let method_key = to_uppercase u (trim method) in
      case (case map_of (method_targets r) method_key of Some t \<Rightarrow> Some t | None \<Rightarrow> default_target r) of
        None \<Rightarrow> None
      | Some target \<Rightarrow>
          Some (materialise target (transport_auth r) (target_path r target p) query method_key protocol p))"

definition allowed_methods :: "http_route \<Rightarrow> rstr list" where
  "allowed_methods r = sort (map fst (method_targets r))"

definition allowed_protocols :: "http_route \<Rightarrow> rstr list" where
  "allowed_protocols r = sort (route_protocols r)"

record match_state =
  best :: "(nat \<times> http_route_resolution) option"
  method_not_allowed :: "rstr set option"
  protocol_not_allowed :: "rstr set option"

definition add_allowed :: "rstr list \<Rightarrow> rstr set option \<Rightarrow> rstr set option" where
  "add_allowed xs s = Some (case s of Some t \<Rightarrow> t \<union> set xs | None \<Rightarrow> set xs)"

definition consider_route ::
  "unicode \<Rightarrow> rstr \<Rightarrow> rstr option \<Rightarrow> rstr \<Rightarrow> rstr \<Rightarrow> match_state \<Rightarrow> http_route \<Rightarrow> match_state" where
  "consider_route u p query method protocol st r =
     (if \<not> matches_path r p then st
      else if \<not> allows_protocol r (normalise_http_route_protocol u protocol)
        then st\<lparr>protocol_not_allowed := add_allowed (allowed_protocols r) (protocol_not_allowed st)\<rparr>
      else case resolve_for_method u r p query method protocol of
          Some resolution \<Rightarrow>
            let priority = length (route_path r) in
            if (case best st of Some (len, _) \<Rightarrow> priority > len | None \<Rightarrow> True)
            then st\<lparr>best := Some (priority, resolution)\<rparr> else st
        | None \<Rightarrow> st\<lparr>method_not_allowed := add_allowed (allowed_methods r) (method_not_allowed st)\<rparr>)"

definition match_http_route ::
  "unicode \<Rightarrow> endpoint_runtime \<Rightarrow> rstr \<Rightarrow> rstr option \<Rightarrow> rstr \<Rightarrow> rstr \<Rightarrow> http_route_match" where
  "match_http_route u e p query method protocol =
     (let st = foldl (consider_route u p query method protocol)
            \<lparr>best = None, method_not_allowed = None, protocol_not_allowed = None\<rparr> (http_routes e)
      in case best st of
           Some (_, resolution) \<Rightarrow> Resolved resolution
         | None \<Rightarrow>
             (case method_not_allowed st of
                Some allowed \<Rightarrow> Method_Not_Allowed (sorted_list_of_set allowed)
              | None \<Rightarrow>
                  (case protocol_not_allowed st of
                     Some allowed \<Rightarrow> Protocol_Not_Allowed (sorted_list_of_set allowed)
                   | None \<Rightarrow> Not_Found)))"

section \<open>The reference\<close>

text \<open>The routes whose path matches, those of them that allow the protocol, and those of them that
  have a target for the method, each in the order of the endpoint.\<close>

definition matching :: "endpoint_runtime \<Rightarrow> rstr \<Rightarrow> http_route list" where
  "matching e p = filter (\<lambda>r. matches_path r p) (http_routes e)"

definition permitted :: "unicode \<Rightarrow> endpoint_runtime \<Rightarrow> rstr \<Rightarrow> rstr \<Rightarrow> http_route list" where
  "permitted u e p protocol = filter (\<lambda>r. allows_protocol r (normalise_http_route_protocol u protocol)) (matching e p)"

definition serving :: "unicode \<Rightarrow> endpoint_runtime \<Rightarrow> rstr \<Rightarrow> rstr \<Rightarrow> rstr \<Rightarrow> http_route list" where
  "serving u e p method protocol =
     filter (\<lambda>r. map_of (method_targets r) (to_uppercase u (trim method)) \<noteq> None \<or> default_target r \<noteq> None) (permitted u e p protocol)"

definition route_lookup ::
  "unicode \<Rightarrow> endpoint_runtime \<Rightarrow> rstr \<Rightarrow> rstr option \<Rightarrow> rstr \<Rightarrow> rstr \<Rightarrow> http_route_match" where
  "route_lookup u e p query method protocol =
     (if serving u e p method protocol \<noteq> []
        then Resolved (the (resolve_for_method u (hd (serving u e p method protocol)) p query method protocol))
      else if permitted u e p protocol \<noteq> []
        then Method_Not_Allowed (sorted_list_of_set (\<Union>r \<in> set (permitted u e p protocol). fst ` set (method_targets r)))
      else if matching e p \<noteq> []
        then Protocol_Not_Allowed (sorted_list_of_set (\<Union>r \<in> set (matching e p). set (route_protocols r)))
      else Not_Found)"

lemma resolve_None:
  "resolve_for_method u r p query method protocol = None \<longleftrightarrow>
   map_of (method_targets r) (to_uppercase u (trim method)) = None \<and> default_target r = None"
  by (auto simp: resolve_for_method_def Let_def split: option.splits)

lemma sorted_lists [simp]: "set (allowed_methods r) = fst ` set (method_targets r)" "set (allowed_protocols r) = set (route_protocols r)"
  by (auto simp: allowed_methods_def allowed_protocols_def)

text \<open>A set that is only there once something was put into it.\<close>

definition collected :: "('a \<Rightarrow> rstr set) \<Rightarrow> 'a list \<Rightarrow> rstr set option" where
  "collected f xs = (if xs = [] then None else Some (\<Union>x \<in> set xs. f x))"

lemma add_allowed_collected:
  "set ys = f x \<Longrightarrow> add_allowed ys (collected f xs) = collected f (xs @ [x])"
  by (auto simp: add_allowed_def collected_def)

lemma consider_routes:
  fixes u p query meth protocol
  defines "fits r \<equiv> matches_path r p" and "allows r \<equiv> allows_protocol r (normalise_http_route_protocol u protocol)"
    and "serves r \<equiv> map_of (method_targets r) (to_uppercase u (trim meth)) \<noteq> None \<or> default_target r \<noteq> None"
  assumes "sorted_wrt (\<lambda>x y. length (route_path x) \<ge> length (route_path y)) rs"
  shows "foldl (consider_route u p query meth protocol)
      \<lparr>best = None, method_not_allowed = None, protocol_not_allowed = None\<rparr> rs =
    \<lparr>best = (case filter (\<lambda>r. fits r \<and> allows r \<and> serves r) rs of [] \<Rightarrow> None
       | r # _ \<Rightarrow> Some (length (route_path r), the (resolve_for_method u r p query meth protocol))),
     method_not_allowed = collected (\<lambda>r. fst ` set (method_targets r)) (filter (\<lambda>r. fits r \<and> allows r \<and> \<not> serves r) rs),
     protocol_not_allowed = collected (\<lambda>r. set (route_protocols r)) (filter (\<lambda>r. fits r \<and> \<not> allows r) rs)\<rparr>"
  using assms(4)
proof (induction rs rule: rev_induct)
  case Nil
  show ?case by (simp add: collected_def)
next
  case (snoc r rs)
  then have IH: "sorted_wrt (\<lambda>x y. length (route_path x) \<ge> length (route_path y)) rs" and longer: "\<forall>x \<in> set rs. length (route_path r) \<le> length (route_path x)"
    by (simp_all add: sorted_wrt_append)
  show ?case
  proof (cases "fits r \<and> allows r \<and> serves r")
    case True
    then obtain res where res: "resolve_for_method u r p query meth protocol = Some res" using resolve_None serves_def by fastforce
    show ?thesis
    proof (cases "filter (\<lambda>r. fits r \<and> allows r \<and> serves r) rs")
      case Nil
      with True res snoc.IH [OF IH] show ?thesis by (simp add: consider_route_def fits_def allows_def)
    next
      case (Cons x xs)
      then have "x \<in> set (filter (\<lambda>r. fits r \<and> allows r \<and> serves r) rs)" by simp
      then have "\<not> length (route_path x) < length (route_path r)" using longer by fastforce
      with Cons True res snoc.IH [OF IH] show ?thesis by (simp add: consider_route_def fits_def allows_def Let_def)
    qed
  next
    case False
    then show ?thesis using snoc.IH [OF IH] resolve_None [of u r p query meth protocol]
      by (auto simp: consider_route_def fits_def allows_def serves_def add_allowed_collected)
  qed
qed

lemma lookup_agrees:
  assumes "try_from_endpoint u c = Inr e"
  shows "match_http_route u e p query method protocol = route_lookup u e p query method protocol
    \<and> (\<forall>r \<in> set (serving u e p method protocol). length (route_path r) \<le> length (route_path (hd (serving u e p method protocol))))"
proof -
  have sorted: "sorted_wrt (\<lambda>x y. length (route_path x) \<ge> length (route_path y)) (http_routes e)"
    using endpoint_accepted_ok [OF assms] by (simp add: endpoint_ok_def)
  have serving: "serving u e p method protocol = filter (\<lambda>r. matches_path r p \<and> allows_protocol r (normalise_http_route_protocol u protocol)
      \<and> (map_of (method_targets r) (to_uppercase u (trim method)) \<noteq> None \<or> default_target r \<noteq> None)) (http_routes e)" (is "_ = filter ?S _")
    by (simp add: serving_def permitted_def matching_def conj_commute conj_left_commute)
  have "sorted_wrt (\<lambda>x y. length (route_path x) \<ge> length (route_path y)) (serving u e p method protocol)"
    unfolding serving using sorted by (rule sorted_wrt_filter)
  then have longest: "\<forall>r \<in> set (serving u e p method protocol). length (route_path r) \<le> length (route_path (hd (serving u e p method protocol)))"
    by (cases "serving u e p method protocol") auto
  have "match_http_route u e p query method protocol = route_lookup u e p query method protocol"
  proof (cases "serving u e p method protocol")
    case (Cons r rs)
    then show ?thesis by (simp add: match_http_route_def route_lookup_def consider_routes [OF sorted] serving)
  next
    case Nil
    have m: "filter (\<lambda>r. matches_path r p \<and> allows_protocol r (normalise_http_route_protocol u protocol)
      \<and> \<not> (map_of (method_targets r) (to_uppercase u (trim method)) \<noteq> None \<or> default_target r \<noteq> None)) (http_routes e) = permitted u e p protocol"
      using Nil by (auto simp: serving permitted_def matching_def filter_empty_conv intro!: filter_cong)
    show ?thesis
    proof (cases "permitted u e p protocol")
      case (Cons r rs)
      with Nil m show ?thesis by (simp add: match_http_route_def route_lookup_def consider_routes [OF sorted] serving collected_def)
    next
      case none: Nil
      then have "filter (\<lambda>r. matches_path r p \<and> \<not> allows_protocol r (normalise_http_route_protocol u protocol)) (http_routes e) = matching e p"
        by (auto simp: permitted_def matching_def filter_empty_conv intro!: filter_cong)
      with Nil m none show ?thesis by (simp add: match_http_route_def route_lookup_def consider_routes [OF sorted] serving collected_def)
    qed
  qed
  with longest show ?thesis by blast
qed

text \<open>C11: Routing agrees with its reference on every endpoint that validation has accepted. The request
  is served by the first of the routes that match the path, allow the protocol and have a target
  for the method, and no other such route has a longer path; without one, the answer names all
  methods of the routes that match and allow the protocol, or else all protocols of the routes
  that match, or else that nothing was found.\<close>

theorem http_route_lookup_exact:
  assumes "try_from_endpoint u c = Inr e"
  shows "match_http_route u e p query method protocol = route_lookup u e p query method protocol
    \<and> (\<forall>r \<in> set (serving u e p method protocol). length (route_path r) \<le> length (route_path (hd (serving u e p method protocol))))"
  using lookup_agrees [OF assms] .

section \<open>Names stay in their namespace\<close>

definition clean_segment :: "rstr \<Rightarrow> bool" where
  "clean_segment s = (s \<noteq> [] \<and> (\<forall>b \<in> set s. is_ascii_digit b \<or> is_ascii_lowercase b \<or> b = 0x5F))"

lemma ascii_lower_alphanumeric:
  "is_ascii_alphanumeric b \<Longrightarrow> is_ascii_digit (ascii_lower b) \<or> is_ascii_lowercase (ascii_lower b)"
  by (auto simp: ascii_simps word_le_nat_alt unat_plus_if')

lemma clean_index: "clean_segment (ascii ''index'')"
  by (simp add: clean_segment_def ascii_def is_ascii_lowercase_def)

lemma clean_sanitise: "clean_segment (sanitise_segment s)"
  using ascii_lower_alphanumeric clean_index by (auto simp: sanitise_segment_def clean_segment_def Let_def)

lemma clean_last: "clean_segment s \<Longrightarrow> last s \<noteq> 0x2E"
proof
  assume "clean_segment s" "last s = 0x2E"
  then have "is_ascii_digit 0x2E \<or> is_ascii_lowercase 0x2E \<or> (0x2E :: byte) = 0x5F" by (metis clean_segment_def last_in_set)
  then show False by (simp add: ascii_simps)
qed

lemma foldl_append_segment:
  assumes "\<forall>s \<in> set (s # ss). clean_segment s"
  shows "foldl append_segment (b @ s) ss = b @ join [0x2E] (s # ss)"
  using assms
proof (induction ss arbitrary: b s)
  case (Cons t ts)
  then have "append_segment (b @ s) t = (b @ s @ [0x2E]) @ t"
    using clean_last [of s] by (auto simp: append_segment_def clean_segment_def)
  with Cons.IH [of t "b @ s @ [0x2E]"] Cons.prems show ?case by simp
qed simp

lemma append_path_segments_join:
  assumes "b = [] \<or> last b = 0x2E"
  shows "\<exists>ss. ss \<noteq> [] \<and> (\<forall>s \<in> set ss. clean_segment s) \<and> append_path_segments b p = b @ join [0x2E] ss"
proof (cases "segments_from_path p")
  case Nil
  then show ?thesis using clean_index by (intro exI [of _ "[ascii ''index'']"]) (simp add: append_path_segments_def)
next
  case (Cons s ss)
  then have clean: "\<forall>s \<in> set (s # ss). clean_segment s"
    unfolding Cons [symmetric] by (auto simp: segments_from_path_def Let_def clean_sanitise)
  have "append_segment b s = b @ s" using assms by (auto simp: append_segment_def)
  then show ?thesis using Cons clean foldl_append_segment [OF clean, of b]
    by (intro exI [of _ "s # ss"]) (simp add: append_path_segments_def)
qed

lemma normalise_namespace_last: "normalise_namespace n = [] \<or> last (normalise_namespace n) = 0x2E"
  by (simp add: normalise_namespace_def Let_def)

text \<open>A procedure under a prefix: one clean segment or more, and the method at the end when asked for.\<close>

definition under_prefix :: "rstr \<Rightarrow> bool \<Rightarrow> rstr \<Rightarrow> rstr \<Rightarrow> bool" where
  "under_prefix prefix append_method_suffix method name =
     (\<exists>ss. ss \<noteq> [] \<and> (\<forall>s \<in> set ss. clean_segment s) \<and>
        name = prefix @ join [0x2E] ss @ (if append_method_suffix then 0x2E # to_ascii_lowercase method else []))"

lemma join_not_Nil: "ss \<noteq> [] \<Longrightarrow> \<forall>s \<in> set ss. clean_segment s \<Longrightarrow> join sep ss \<noteq> []"
  by (cases "(sep, ss)" rule: join.cases) (auto simp: clean_segment_def)

lemma identifier_under_prefix:
  assumes "prefix = [] \<or> last prefix = 0x2E"
  shows "under_prefix prefix app method (identifier_for prefix app p method)"
proof -
  obtain ss where ss: "ss \<noteq> []" "\<forall>s \<in> set ss. clean_segment s" "append_path_segments prefix p = prefix @ join [0x2E] ss"
    using append_path_segments_join [OF assms] by blast
  then show ?thesis unfolding under_prefix_def
    by (intro exI [of _ ss]) (auto simp: identifier_for_def append_suffix_def Let_def join_not_Nil)
qed

primrec confined :: "http_route_target \<Rightarrow> http_route_resolution \<Rightarrow> bool" where
  "confined (Translation r p) res = (realm res = r \<and> procedure res = p)"
| "confined (Reserved_Realm namespace app) res =
     (realm res = RESERVED_HTTP_REALM \<and>
      under_prefix (case namespace of Some n \<Rightarrow> normalise_namespace n | None \<Rightarrow> []) app (res_method res) (procedure res))"
| "confined (Namespace r namespace app) res =
     (realm res = r \<and> under_prefix (normalise_namespace namespace) app (res_method res) (procedure res))"

lemma materialise_confined: "confined t (materialise t auth tp query method protocol p)"
  using normalise_namespace_last
  by (cases t) (auto simp: materialise_def Let_def intro!: identifier_under_prefix split: option.splits)

text \<open>C26: A request that is resolved stays within its route, whatever its path holds. There is a route
  of the endpoint that matches the path and allows the protocol; the request carries the
  authentication policy of that route; the target is the one for its method or the default, and
  names either the configured procedure or one under the configured prefix whose further
  segments consist of lower-case letters, digits and underscores only, so no path adds or
  removes a level.\<close>

theorem resolved_request_confined:
  assumes "try_from_endpoint u c = Inr e" and "match_http_route u e p query method protocol = Resolved res"
  shows "\<exists>r \<in> set (http_routes e). matches_path r p \<and> allows_protocol r (normalise_http_route_protocol u protocol)
    \<and> res_auth res = transport_auth r \<and> res_path res = p \<and> res_query res = query
    \<and> (\<exists>t. confined t res \<and> (map_of (method_targets r) (to_uppercase u (trim method)) = Some t
         \<or> map_of (method_targets r) (to_uppercase u (trim method)) = None \<and> default_target r = Some t))"
proof -
  have eq: "route_lookup u e p query method protocol = Resolved res"
    using lookup_agrees [OF assms(1)] assms(2) by simp
  define r where "r = hd (serving u e p method protocol)"
  have ne: "serving u e p method protocol \<noteq> []" and res: "res = the (resolve_for_method u r p query method protocol)"
    using eq by (auto simp: route_lookup_def r_def split: if_splits)
  have r: "r \<in> set (serving u e p method protocol)" using ne by (simp add: r_def)
  then obtain t where t: "map_of (method_targets r) (to_uppercase u (trim method)) = Some t
      \<or> map_of (method_targets r) (to_uppercase u (trim method)) = None \<and> default_target r = Some t"
    by (cases "map_of (method_targets r) (to_uppercase u (trim method))") (auto simp: serving_def)
  have "res = materialise t (transport_auth r) (target_path r t p) query (to_uppercase u (trim method)) protocol p"
    using t by (auto simp: res resolve_for_method_def Let_def)
  then have "confined t res" "res_auth res = transport_auth r" "res_path res = p" "res_query res = query"
    using materialise_confined by (auto simp: materialise_def Let_def split: http_route_target.splits)
  with r t show ?thesis by (auto simp: serving_def permitted_def matching_def)
qed

text \<open>Prefix matching ends at a level of the path.\<close>

lemma prefix_ends_at_level:
  assumes "match_kind r = Prefix" and "route_path r \<noteq> [0x2F]" and "route_path r \<noteq> []" and "last (route_path r) \<noteq> 0x2F"
  shows "matches_path r p \<longleftrightarrow> p = route_path r \<or> (\<exists>t. p = route_path r @ 0x2F # t)"
proof
  assume m: "matches_path r p"
  with assms have p: "take (length (route_path r)) p = route_path r" by (auto simp: matches_path_def starts_with_def split: if_splits)
  then obtain q where q: "p = route_path r @ q" by (metis append_take_drop_id)
  show "p = route_path r \<or> (\<exists>t. p = route_path r @ 0x2F # t)"
  proof (cases q)
    case Nil
    with q show ?thesis by simp
  next
    case (Cons b t)
    then have "nth_opt p (length (route_path r)) = Some b" using q by (simp add: nth_opt_def)
    with m assms Cons q show ?thesis by (auto simp: matches_path_def split: if_splits)
  qed
next
  assume "p = route_path r \<or> (\<exists>t. p = route_path r @ 0x2F # t)"
  with assms show "matches_path r p" by (auto simp: matches_path_def starts_with_def nth_opt_def)
qed

section \<open>Concrete requests\<close>

lemma demo_routes:
  assumes "try_from_endpoint ascii_tables demo_endpoint = Inr e"
  shows "http_routes e = [demo_route ''/api'' Prefix (Namespace (ascii ''realm1'') (ascii ''app'') False),
    demo_route ''/'' Prefix (Reserved_Realm None True)]" (is "_ = [?api, ?root]")
proof -
  have "cfg_http_routes demo_endpoint = [?root, ?api]" by (simp add: demo_endpoint_def)
  with accepted_routes [OF assms] have "http_routes e = sort_key (\<lambda>r. - int (length (route_path r))) [?root, ?api]"
    by (simp add: try_from_configs_eq demo_route_accepted)
  also have "\<dots> = [?api, ?root]" by (simp add: demo_route_def ascii_def)
  finally show ?thesis .
qed

text \<open>A GET of \<^verbatim>\<open>/api/Users/../7\<close> calls \<^verbatim>\<open>app.users.__.7\<close> in \<^verbatim>\<open>realm1\<close>.\<close>

definition demo_path :: rstr where "demo_path = ascii ''/api/Users/../7''"

lemma demo_namespace: "normalise_namespace (ascii ''app'') = ascii ''app.''"
  by (simp add: normalise_namespace_def demo_trims) (simp add: trim_matches_def ascii_def)

lemma demo_relative: "route_relative_path (ascii ''/api'') demo_path = ascii ''/Users/../7''"
  by (simp add: route_relative_path_def strip_prefix_def starts_with_def demo_path_def ascii_def)

lemma demo_segments: "segments_from_path (ascii ''/Users/../7'') = [ascii ''users'', ascii ''__'', ascii ''7'']"
  by (simp add: segments_from_path_def ascii_def trim_matches_def sanitise_segment_def continuation_byte_def ascii_simps Let_def)

lemma demo_matches: "matches_path (demo_route ''/api'' Prefix t) demo_path" "matches_path (demo_route ''/'' Prefix t) demo_path"
  by (simp_all add: matches_path_def demo_route_def demo_path_def starts_with_def nth_opt_def ascii_def)

lemma demo_upper: "to_uppercase ascii_tables (ascii ''GET'') = ascii ''GET''"
  by (simp add: ascii_tables_def ascii_def ascii_simps)

lemma demo_match:
  assumes "try_from_endpoint ascii_tables demo_endpoint = Inr e"
  shows "match_http_route ascii_tables e demo_path None (ascii ''GET'') (ascii ''http/1.1'') =
    Resolved \<lparr>realm = ascii ''realm1'', procedure = ascii ''app.users.__.7'', res_method = ascii ''GET'',
      res_protocol = ascii ''http/1.1'', res_path = demo_path, res_query = None, res_auth = no_auth\<rparr>"
proof -
  let ?api = "demo_route ''/api'' Prefix (Namespace (ascii ''realm1'') (ascii ''app'') False)"
  have "resolve_for_method ascii_tables ?api demo_path None (ascii ''GET'') (ascii ''http/1.1'') =
    Some \<lparr>realm = ascii ''realm1'', procedure = ascii ''app.users.__.7'', res_method = ascii ''GET'',
      res_protocol = ascii ''http/1.1'', res_path = demo_path, res_query = None, res_auth = no_auth\<rparr>"
    by (simp add: resolve_for_method_def Let_def demo_upper demo_route_def materialise_def target_path_def demo_relative
        demo_namespace identifier_for_def append_path_segments_def demo_segments)
       (simp add: append_segment_def ascii_def)
  moreover have "allows_protocol (demo_route p k t) q" for p k t q by (simp add: allows_protocol_def demo_route_def)
  moreover have "\<not> length (route_path ?api) < length (route_path (demo_route ''/'' Prefix t))" for t by (simp add: demo_route_def ascii_def)
  ultimately show ?thesis
    by (simp add: match_http_route_def demo_routes [OF assms] consider_route_def demo_matches Let_def split: option.splits)
qed

theorem http_route_lookup_exact_witness:
  "\<exists>e. try_from_endpoint ascii_tables demo_endpoint = Inr e
    \<and> match_http_route ascii_tables e demo_path None (ascii ''GET'') (ascii ''http/1.1'') =
        route_lookup ascii_tables e demo_path None (ascii ''GET'') (ascii ''http/1.1'')"
  using demo_endpoint_accepted http_route_lookup_exact by blast

theorem resolved_request_confined_witness:
  "\<exists>e res. try_from_endpoint ascii_tables demo_endpoint = Inr e
    \<and> match_http_route ascii_tables e demo_path None (ascii ''GET'') (ascii ''http/1.1'') = Resolved res
    \<and> procedure res = ascii ''app.users.__.7'' \<and> (\<exists>r \<in> set (http_routes e). matches_path r demo_path \<and> res_auth res = transport_auth r)"
proof -
  obtain e where e: "try_from_endpoint ascii_tables demo_endpoint = Inr e" using demo_endpoint_accepted by blast
  from resolved_request_confined [OF e demo_match [OF e]] demo_match [OF e] e show ?thesis by auto
qed
end
