(* ===== verification/Http_Request.thy ===== *)
theory Http_Request
  imports Http_Routes Io_Stream
begin

text \<open>
  Reading HTTP/1 requests (\<^verbatim>\<open>ct_core/src/protocol.rs\<close>, \<^verbatim>\<open>ct_core/src/http1_stream.rs\<close>): the head is
  collected from a buffered reader until its terminator, its fields decide the framing, and the
  body follows by its length. The parser of the head (the crate \<^verbatim>\<open>httparse\<close>) is a parameter. A
  timer around a read is the answer \<open>Elapsed\<close> of the source.
\<close>

section \<open>The buffered reader\<close>

record 's buf_reader =
  br_buffer :: "byte list"
  br_inner :: 's

definition buf_reader_new :: "'s \<Rightarrow> 's buf_reader" where
  "buf_reader_new s = \<lparr>br_buffer = [], br_inner = s\<rparr>"

text \<open>\<open>fill_buf\<close> reads only into an empty buffer; \<open>capacity\<close> bounds what it asks for.\<close>

definition fill_buf :: "nat \<Rightarrow> 's source \<Rightarrow> 's buf_reader \<Rightarrow> 's buf_reader \<times> (stream_error + byte list)" where
  "fill_buf capacity pull r =
     (if br_buffer r \<noteq> [] then (r, Inr (br_buffer r))
      else case pull capacity (br_inner r) of
          (s, Inl e) \<Rightarrow> (r\<lparr>br_inner := s\<rparr>, Inl e)
        | (s, Inr bs) \<Rightarrow> (r\<lparr>br_inner := s, br_buffer := bs\<rparr>, Inr bs))"

definition consume :: "nat \<Rightarrow> 's buf_reader \<Rightarrow> 's buf_reader" where
  "consume n r = r\<lparr>br_buffer := drop n (br_buffer r)\<rparr>"

section \<open>Data\<close>

definition MAX_HTTP_HEADER_BYTES :: nat where "MAX_HTTP_HEADER_BYTES = 64 * 1024"
definition DEFAULT_HTTP_BODY_LIMIT :: nat where "DEFAULT_HTTP_BODY_LIMIT = 4 * 1024 * 1024"
definition HTTP1_INLINE_BODY_LIMIT :: nat where "HTTP1_INLINE_BODY_LIMIT = 64 * 1024"

datatype negotiation_error = Timeout | Protocol rstr | Io stream_error

record http_request =
  req_method :: rstr
  req_target :: rstr
  req_version :: nat
  req_headers :: "(rstr \<times> rstr) list"

datatype http_body_phase = Buffered "byte list" | Needs_Streaming "byte list" nat | Finished

definition classify_http_body :: "byte list \<Rightarrow> nat option \<Rightarrow> http_body_phase" where
  "classify_http_body buffer content_length =
     (case content_length of
        None \<Rightarrow> if buffer = [] then Finished else Buffered buffer
      | Some len \<Rightarrow>
          if len = 0 then Finished
          else if len \<le> length buffer then Buffered (take len buffer)
          else Needs_Streaming buffer (len - length buffer))"

text \<open>What \<^verbatim>\<open>httparse\<close> finds in a head of at most 64 fields.\<close>

record parsed_head =
  head_method :: "rstr option"
  head_path :: "rstr option"
  head_version :: "nat option"
  head_fields :: "(rstr \<times> byte list) list"

datatype parse_status = Invalid | Partial | Complete parsed_head

section \<open>The head\<close>

fun find_header_terminator :: "byte list \<Rightarrow> nat option" where
  "find_header_terminator [] = None"
| "find_header_terminator (b # bs) =
     (if take 4 (b # bs) = [0x0D, 0x0A, 0x0D, 0x0A] then Some 0
      else map_option Suc (find_header_terminator bs))"

function read_head ::
  "nat \<Rightarrow> 's source \<Rightarrow> bool \<Rightarrow> byte list \<Rightarrow> 's buf_reader \<Rightarrow> 's buf_reader \<times> (negotiation_error + byte list option)" where
  "read_head capacity pull allow_eof head_bytes r =
     (case fill_buf capacity pull r of
        (r', Inl e) \<Rightarrow> (r', Inl (if e = Elapsed then Timeout else Io e))
      | (r', Inr available) \<Rightarrow>
          if available = [] then
            (r', if allow_eof \<and> head_bytes = [] then Inr None
                 else Inl (Protocol (ascii ''connection closed before HTTP headers completed'')))
          else
            let search_start = length head_bytes - 3;
                search_bytes = drop search_start head_bytes @ available
            in case find_header_terminator search_bytes of
                 Some relative_index \<Rightarrow>
                   let header_end = search_start + relative_index + 4 in
                   if header_end > MAX_HTTP_HEADER_BYTES then (r', Inl (Protocol (ascii ''HTTP headers exceed supported limit'')))
                   else let needed = header_end - length head_bytes
                        in (consume needed r', Inr (Some (head_bytes @ take needed available)))
               | None \<Rightarrow>
                   if length head_bytes + length available > MAX_HTTP_HEADER_BYTES
                   then (r', Inl (Protocol (ascii ''HTTP headers exceed supported limit'')))
                   else read_head capacity pull allow_eof (head_bytes @ available) (consume (length available) r'))"
  by pat_completeness auto
termination
  by (relation "measure (\<lambda>(_, _, _, head_bytes, _). Suc MAX_HTTP_HEADER_BYTES - length head_bytes)")
     (auto simp: less_diff_conv)

declare read_head.simps [simp del]

section \<open>Fields that decide the framing\<close>

record framing =
  header_list :: "(rstr \<times> rstr) list"
  content_length :: "nat option"
  transfer_encoding_seen :: bool
  final_coding_is_chunked :: bool
  invalid_transfer_order :: bool

definition framing_start :: framing where
  "framing_start = \<lparr>header_list = [], content_length = None, transfer_encoding_seen = False,
     final_coding_is_chunked = False, invalid_transfer_order = False\<rparr>"

definition add_coding :: "framing \<Rightarrow> rstr \<Rightarrow> framing" where
  "add_coding f coding =
     f\<lparr>invalid_transfer_order := invalid_transfer_order f \<or> final_coding_is_chunked f,
       final_coding_is_chunked := eq_ignore_ascii_case coding (ascii ''chunked'')\<rparr>"

definition add_field :: "rstr \<times> byte list \<Rightarrow> framing \<Rightarrow> negotiation_error + framing" where
  "add_field field f =
     (case field of (name, raw) \<Rightarrow>
        let value = trim (from_utf8_lossy raw);
            pushed = (\<lambda>f. f\<lparr>header_list := header_list f @ [(name, value)]\<rparr>)
        in if eq_ignore_ascii_case name (ascii ''Content-Length'') then
             let raw_value = trim_ascii raw in
             if raw_value = [] \<or> \<not> list_all is_ascii_digit raw_value
             then Inl (Protocol (ascii ''invalid Content-Length value''))
             else case parse_u64 value of
                 None \<Rightarrow> Inl (Protocol (ascii ''invalid Content-Length value''))
               | Some parsed \<Rightarrow>
                   if content_length f \<noteq> None \<and> content_length f \<noteq> Some parsed
                   then Inl (Protocol (ascii ''conflicting Content-Length headers''))
                   else Inr (pushed (f\<lparr>content_length := Some parsed\<rparr>))
           else if eq_ignore_ascii_case name (ascii ''Transfer-Encoding'') then
             Inr (pushed (foldl add_coding (f\<lparr>transfer_encoding_seen := True\<rparr>)
               (filter (\<lambda>s. s \<noteq> []) (map trim (split_on 0x2C value)))))
           else Inr (pushed f))"

fun add_fields :: "(rstr \<times> byte list) list \<Rightarrow> framing \<Rightarrow> negotiation_error + framing" where
  "add_fields [] f = Inr f"
| "add_fields (x # xs) f = try_sum (add_field x f) (add_fields xs)"

definition parse_http_request ::
  "(byte list \<Rightarrow> parse_status) \<Rightarrow> byte list \<Rightarrow> negotiation_error + http_request \<times> nat option" where
  "parse_http_request httparse bytes =
     (case httparse bytes of
        Invalid \<Rightarrow> Inl (Protocol (ascii ''invalid HTTP request''))
      | Partial \<Rightarrow> Inl (Protocol (ascii ''incomplete HTTP headers''))
      | Complete h \<Rightarrow>
          (case head_method h of
             None \<Rightarrow> Inl (Protocol (ascii ''missing HTTP method''))
           | Some method \<Rightarrow>
               (case head_path h of
                  None \<Rightarrow> Inl (Protocol (ascii ''missing request target''))
                | Some target \<Rightarrow>
                    let version = (case head_version h of Some v \<Rightarrow> v | None \<Rightarrow> 1) in
                    try_sum (add_fields (head_fields h) framing_start) (\<lambda>f.
                      if transfer_encoding_seen f then
                        if content_length f \<noteq> None \<or> version = 0 \<or> invalid_transfer_order f \<or> \<not> final_coding_is_chunked f
                        then Inl (Protocol (ascii ''invalid Transfer-Encoding framing''))
                        else Inl (Protocol (ascii ''chunked transfer encoding is not supported''))
                      else Inr (\<lparr>req_method = method, req_target = target, req_version = version, req_headers = header_list f\<rparr>,
                                content_length f)))))"

section \<open>The body\<close>

lemma body_progress: "b \<noteq> [] \<Longrightarrow> \<not> len \<le> n \<Longrightarrow> len - (n + min (len - n) (length b)) < len - n"
  by (cases b) (auto simp: min_def)

function read_body ::
  "nat \<Rightarrow> 's source \<Rightarrow> nat \<Rightarrow> byte list \<Rightarrow> 's buf_reader \<Rightarrow> 's buf_reader \<times> (negotiation_error + byte list)" where
  "read_body capacity pull len body_bytes r =
     (if length body_bytes \<ge> len then (r, Inr body_bytes)
      else case fill_buf capacity pull r of
          (r', Inl e) \<Rightarrow> (r', Inl (if e = Elapsed then Timeout else Io e))
        | (r', Inr available) \<Rightarrow>
            if available = [] then (r', Inl (Protocol (ascii ''connection closed before receiving declared HTTP body'')))
            else let n = min (len - length body_bytes) (length available)
                 in read_body capacity pull len (body_bytes @ take n available) (consume n r'))"
  by pat_completeness auto
termination
  by (relation "measure (\<lambda>(_, _, len, body_bytes, _). len - length body_bytes)") (auto intro!: body_progress)

declare read_body.simps [simp del]

definition body_limit :: "endpoint_runtime \<Rightarrow> nat" where
  "body_limit e = (case max_http_content_length e of Some n \<Rightarrow> n | None \<Rightarrow> DEFAULT_HTTP_BODY_LIMIT)"

definition body_too_long :: "nat \<Rightarrow> nat \<Rightarrow> rstr" where
  "body_too_long len max_body = ascii ''http body length '' @ decimal len @ ascii '' exceeds configured limit '' @ decimal max_body"

definition read_http_request_with_options ::
  "(byte list \<Rightarrow> parse_status) \<Rightarrow> nat \<Rightarrow> 's source \<Rightarrow> endpoint_runtime \<Rightarrow> bool \<Rightarrow> nat \<Rightarrow> 's buf_reader \<Rightarrow>
   's buf_reader \<times> (negotiation_error + (http_request \<times> http_body_phase) option)" where
  "read_http_request_with_options httparse capacity pull e allow_eof inline_limit r =
     (case read_head capacity pull allow_eof [] r of
        (r', Inl err) \<Rightarrow> (r', Inl err)
      | (r', Inr None) \<Rightarrow> (r', Inr None)
      | (r', Inr (Some head_bytes)) \<Rightarrow>
          (case parse_http_request httparse head_bytes of
             Inl err \<Rightarrow> (r', Inl err)
           | Inr (request, None) \<Rightarrow> (r', Inr (Some (request, Buffered [])))
           | Inr (request, Some len) \<Rightarrow>
               if len > body_limit e then (r', Inl (Protocol (body_too_long len (body_limit e))))
               else if len > usize_max then (r', Inl (Protocol (ascii ''http body length exceeds platform addressable range'')))
               else if len \<le> inline_limit then
                 (case read_body capacity pull len [] r' of
                    (r'', Inl err) \<Rightarrow> (r'', Inl err)
                  | (r'', Inr body) \<Rightarrow> (r'', Inr (Some (request, Buffered body))))
               else let available = br_buffer r'; n = min len (length available)
                    in (consume n r', Inr (Some (request, classify_http_body (take n available) (Some len))))))"

definition read_http_request ::
  "(byte list \<Rightarrow> parse_status) \<Rightarrow> nat \<Rightarrow> 's source \<Rightarrow> endpoint_runtime \<Rightarrow> 's buf_reader \<Rightarrow>
   's buf_reader \<times> (negotiation_error + (http_request \<times> http_body_phase) option)" where
  "read_http_request httparse capacity pull e = read_http_request_with_options httparse capacity pull e True HTTP1_INLINE_BODY_LIMIT"

section \<open>The terminator\<close>

definition ends_head :: "byte list \<Rightarrow> nat \<Rightarrow> bool" where
  "ends_head zs i = (take 4 (drop i zs) = [0x0D, 0x0A, 0x0D, 0x0A])"

lemma ends_head_Cons [simp]: "ends_head (b # zs) (Suc i) = ends_head zs i"
  by (simp add: ends_head_def)

lemma ends_head_length: "ends_head zs i \<Longrightarrow> i + 4 \<le> length zs"
proof -
  assume "ends_head zs i"
  then have "length (take 4 (drop i zs)) = 4" by (simp add: ends_head_def)
  then show ?thesis by (simp add: min_def split: if_splits)
qed

lemma find_header_terminator_Some:
  "find_header_terminator zs = Some i \<longleftrightarrow> ends_head zs i \<and> (\<forall>j < i. \<not> ends_head zs j)"
proof (induction zs arbitrary: i)
  case Nil
  then show ?case by (simp add: ends_head_def)
next
  case (Cons b zs)
  have "take 4 (b # zs) = [0x0D, 0x0A, 0x0D, 0x0A] \<longleftrightarrow> ends_head (b # zs) 0" by (simp add: ends_head_def)
  then show ?case by (cases i) (auto simp: Cons less_Suc_eq_0_disj)
qed

lemma find_header_terminator_None: "find_header_terminator zs = None \<longleftrightarrow> (\<forall>i. \<not> ends_head zs i)"
proof -
  have "(\<exists>i. ends_head zs i) \<longleftrightarrow> (\<exists>i. ends_head zs i \<and> (\<forall>j < i. \<not> ends_head zs j))" by (metis exists_least_iff)
  then show ?thesis using find_header_terminator_Some [of zs] by (metis not_Some_eq)
qed

lemma ends_head_append: "i + 4 \<le> length zs \<Longrightarrow> ends_head (zs @ ys) i = ends_head zs i"
  by (simp add: ends_head_def)

lemma find_header_terminator_append:
  "find_header_terminator zs = Some i \<Longrightarrow> find_header_terminator (zs @ ys) = Some i"
  unfolding find_header_terminator_Some using ends_head_length [of zs i] by (auto simp: ends_head_append)

text \<open>The search may start three bytes before what is new.\<close>

lemma find_header_terminator_window:
  assumes "find_header_terminator xs = None"
  shows "find_header_terminator (xs @ ys) =
    map_option ((+) (length xs - 3)) (find_header_terminator (drop (length xs - 3) xs @ ys))"
proof -
  let ?k = "length xs - 3"
  have before: "\<not> ends_head (xs @ ys) j" if "j < ?k" for j
    using assms ends_head_append [of j xs ys] that by (simp add: find_header_terminator_None)
  have shift: "ends_head (drop ?k xs @ ys) j = ends_head (xs @ ys) (?k + j)" for j
    by (simp add: ends_head_def add.commute)
  show ?thesis
  proof (cases "find_header_terminator (drop ?k xs @ ys)")
    case None
    then have "\<not> ends_head (xs @ ys) i" for i
      using before [of i] shift [of "i - ?k"] by (cases "i < ?k") (auto simp: find_header_terminator_None)
    then have "find_header_terminator (xs @ ys) = None" by (simp add: find_header_terminator_None)
    with None show ?thesis by simp
  next
    case (Some i)
    have "\<not> ends_head (xs @ ys) j" if "j < ?k + i" for j
      using before [of j] shift [of "j - ?k"] Some that by (cases "j < ?k") (auto simp: find_header_terminator_Some)
    moreover have "ends_head (xs @ ys) (?k + i)" using Some shift [of i] by (simp add: find_header_terminator_Some)
    ultimately have "find_header_terminator (xs @ ys) = Some (?k + i)" by (simp add: find_header_terminator_Some)
    with Some show ?thesis by simp
  qed
qed

lemma split_after_head:
  assumes "length hb \<le> e" "e \<le> length hb + length av"
  shows "hb @ take (e - length hb) av = take e (hb @ av @ t)" "drop (e - length hb) (av @ t) = drop e (hb @ av @ t)"
  using assms by auto

section \<open>Reading over any source\<close>

text \<open>The head in the bytes that come: the answer and what is left. A source that ends may report the
  end, a timeout or an error.\<close>

definition head_answer :: "bool \<Rightarrow> byte list \<Rightarrow> negotiation_error + byte list option \<Rightarrow> byte list \<Rightarrow> bool" where
  "head_answer allow_eof zs res remaining =
    (case find_header_terminator zs of
       Some i \<Rightarrow>
         if i + 4 > MAX_HTTP_HEADER_BYTES then res = Inl (Protocol (ascii ''HTTP headers exceed supported limit''))
         else res = Inr (Some (take (i + 4) zs)) \<and> remaining = drop (i + 4) zs
     | None \<Rightarrow>
         if length zs > MAX_HTTP_HEADER_BYTES then res = Inl (Protocol (ascii ''HTTP headers exceed supported limit''))
         else remaining = [] \<and> (res = Inl Timeout \<or> (\<exists>e. res = Inl (Io e))
           \<or> res = (if allow_eof \<and> zs = [] then Inr None
                    else Inl (Protocol (ascii ''connection closed before HTTP headers completed'')))))"

context byte_source
begin

definition coming :: "'s buf_reader \<Rightarrow> byte list" where
  "coming r = br_buffer r @ rest (br_inner r)"

lemma coming_consume: "n \<le> length (br_buffer r) \<Longrightarrow> coming (consume n r) = drop n (coming r)"
  by (simp add: coming_def consume_def)

lemma fill_buf_data:
  assumes "0 < capacity" "coming r \<noteq> []"
  shows "\<exists>r' b bs. fill_buf capacity pull r = (r', Inr (b # bs)) \<and> br_buffer r' = b # bs \<and> coming r' = coming r"
proof (cases "br_buffer r")
  case Nil
  then obtain s b bs where "pull capacity (br_inner r) = (s, Inr (b # bs))" "rest (br_inner r) = (b # bs) @ rest s"
    using pull_data [OF assms(1), of "br_inner r"] assms(2) by (auto simp: coming_def)
  with Nil show ?thesis by (simp add: fill_buf_def coming_def)
qed (simp add: fill_buf_def)

lemma fill_buf_end:
  assumes "0 < capacity" "coming r = []"
  shows "\<exists>r'. coming r' = [] \<and> (fill_buf capacity pull r = (r', Inr []) \<or> (\<exists>e. fill_buf capacity pull r = (r', Inl e)))"
  using pull_end [OF assms(1), of "br_inner r"] assms(2) by (auto simp: fill_buf_def coming_def)

text \<open>The head depends on the bytes that come and not on how they are cut.\<close>

lemma read_head_spec:
  assumes "0 < capacity" "find_header_terminator hb = None" "length hb \<le> MAX_HTTP_HEADER_BYTES" "zs = hb @ coming r"
  shows "\<exists>r' res. read_head capacity pull allow_eof hb r = (r', res) \<and>
    head_answer allow_eof zs res (coming r')"
  using assms(2-)
proof (induction "length (coming r)" arbitrary: hb r zs rule: less_induct)
  case less
  note prems = less.prems
  show ?case
  proof (cases "coming r")
    case Nil
    obtain r' where r': "coming r' = []" "fill_buf capacity pull r = (r', Inr []) \<or> (\<exists>e. fill_buf capacity pull r = (r', Inl e))"
      using fill_buf_end [OF assms(1) Nil] by blast
    then show ?thesis using prems Nil by (subst read_head.simps) (auto simp: head_answer_def)
  next
    case (Cons c cs)
    then obtain r1 b bs where r1: "fill_buf capacity pull r = (r1, Inr (b # bs))" "br_buffer r1 = b # bs" "coming r1 = coming r"
      using fill_buf_data [OF assms(1), of r] by auto
    let ?av = "b # bs" and ?k = "length hb - 3"
    have zs: "zs = (hb @ ?av) @ rest (br_inner r1)" using prems(3) r1(2,3) by (simp add: coming_def)
    have window: "find_header_terminator (hb @ ?av) = map_option ((+) ?k) (find_header_terminator (drop ?k hb @ ?av))"
      using find_header_terminator_window [OF prems(1)] .
    show ?thesis
    proof (cases "find_header_terminator (drop ?k hb @ ?av)")
      case (Some i)
      let ?e = "?k + i + 4"
      have found: "find_header_terminator (hb @ ?av) = Some (?k + i)" using window Some by simp
      then have fz: "find_header_terminator zs = Some (?k + i)" unfolding zs by (rule find_header_terminator_append)
      have le: "?e \<le> length (hb @ ?av)" using found ends_head_length [of "hb @ ?av" "?k + i"] by (simp add: find_header_terminator_Some)
      have gt: "length hb < ?e"
      proof (rule ccontr)
        assume "\<not> length hb < ?e"
        then have "ends_head hb (?k + i)" using found ends_head_append [of "?k + i" hb ?av] by (simp add: find_header_terminator_Some)
        with prems(1) show False by (simp add: find_header_terminator_None)
      qed
      have "hb @ take (?e - length hb) ?av = take ?e zs" "drop (?e - length hb) (coming r1) = drop ?e zs"
        unfolding zs coming_def r1(2) append_assoc using le gt by (simp_all only: split_after_head length_append less_imp_le)
      moreover have "coming (consume (?e - length hb) r1) = drop (?e - length hb) (coming r1)"
        using le r1(2) by (intro coming_consume) simp
      ultimately show ?thesis using r1(1) Some fz by (subst read_head.simps) (simp add: Let_def head_answer_def)
    next
      case None
      then have none: "find_header_terminator (hb @ ?av) = None" using window by simp
      show ?thesis
      proof (cases "length hb + length ?av > MAX_HTTP_HEADER_BYTES")
        case True
        have "i + 4 > MAX_HTTP_HEADER_BYTES" if "find_header_terminator zs = Some i" for i
        proof (rule ccontr)
          assume "\<not> i + 4 > MAX_HTTP_HEADER_BYTES"
          with True that have "ends_head (hb @ ?av) i" unfolding zs using ends_head_append [of i "hb @ ?av"]
            by (simp add: find_header_terminator_Some)
          with none show False by (simp add: find_header_terminator_None)
        qed
        moreover have "length zs > MAX_HTTP_HEADER_BYTES" using True zs by simp
        ultimately show ?thesis using r1(1) None True by (subst read_head.simps) (auto simp: Let_def head_answer_def split: option.splits)
      next
        case False
        let ?r = "consume (length ?av) r1"
        have c: "coming ?r = rest (br_inner r1)" using r1(2) by (simp add: consume_def coming_def)
        have "length (coming ?r) < length (coming r)" unfolding c r1(3) [symmetric] coming_def [of r1] r1(2) by simp
        from less.hyps [OF this none _ zs [folded c]] False
        have IH: "\<exists>r' res. read_head capacity pull allow_eof (hb @ ?av) ?r = (r', res) \<and> head_answer allow_eof zs res (coming r')" by simp
        have "read_head capacity pull allow_eof hb r = read_head capacity pull allow_eof (hb @ ?av) ?r"
          using r1(1) None False by (subst read_head.simps) (simp add: Let_def)
        with IH show ?thesis by simp
      qed
    qed
  qed
qed

lemma read_body_spec:
  assumes "0 < capacity" "length acc \<le> len"
  shows "\<exists>r' res. read_body capacity pull len acc r = (r', res) \<and>
    (if len - length acc \<le> length (coming r)
     then res = Inr (acc @ take (len - length acc) (coming r)) \<and> coming r' = drop (len - length acc) (coming r)
     else \<exists>e. res = Inl e)"
  using assms(2)
proof (induction "len - length acc" arbitrary: acc r rule: less_induct)
  case less
  show ?case
  proof (cases "length acc = len")
    case True
    then show ?thesis by (simp add: read_body.simps)
  next
    case False
    with less.prems have more: "length acc < len" by simp
    show ?thesis
    proof (cases "coming r")
      case Nil
      then show ?thesis using fill_buf_end [OF assms(1) Nil] more by (subst read_body.simps) auto
    next
      case (Cons c cs)
      then obtain r1 b bs where r1: "fill_buf capacity pull r = (r1, Inr (b # bs))" "br_buffer r1 = b # bs" "coming r1 = coming r"
        using fill_buf_data [OF assms(1), of r] by auto
      define n where "n = min (len - length acc) (length (b # bs))"
      have n: "0 < n" "n \<le> length (br_buffer r1)" "n \<le> len - length acc" using more r1(2) by (auto simp: n_def)
      let ?acc = "acc @ take n (b # bs)"
      have la: "length ?acc = length acc + n" using n(2) r1(2) by simp
      have all: "coming r = (b # bs) @ rest (br_inner r1)" using r1(2,3) by (simp add: coming_def)
      have take: "take n (b # bs) = take n (coming r)" unfolding all using n(2) r1(2) by (simp only: take_append) simp
      have c: "coming (consume n r1) = drop n (coming r)" using coming_consume [OF n(2)] r1(3) by simp
      have step: "read_body capacity pull len acc r = read_body capacity pull len ?acc (consume n r1)"
        using r1(1) more by (subst read_body.simps) (simp add: Let_def n_def)
      have "len - length ?acc < len - length acc" "length ?acc \<le> len" using la n more by simp_all
      from less.hyps [OF this] obtain r' res where
        IH: "read_body capacity pull len ?acc (consume n r1) = (r', res)"
          "if len - length ?acc \<le> length (coming (consume n r1))
           then res = Inr (?acc @ take (len - length ?acc) (coming (consume n r1))) \<and> coming r' = drop (len - length ?acc) (coming (consume n r1))
           else \<exists>e. res = Inl e" by blast
      obtain k where k: "len - length acc = n + k" using n(3) by (auto simp: le_iff_add)
      have lk: "len - length ?acc = k" using la k by simp
      have "n \<le> length (coming r)" unfolding all using n(2) r1(2) by simp
      moreover have "take n (coming r) @ take k (drop n (coming r)) = take (n + k) (coming r)" "drop k (drop n (coming r)) = drop (n + k) (coming r)"
        by (rule take_add [symmetric], simp add: add.commute)
      ultimately show ?thesis using IH(1) IH(2) [unfolded lk, unfolded c, unfolded take] unfolding step k by (auto split: if_splits)
    qed
  qed
qed

end

section \<open>Content lengths\<close>

lemma digit_not_white:
  assumes "is_ascii_digit d"
  shows "ws_prefix (d # s) = 0" "ws_suffix (s @ [d]) = 0"
proof -
  have first: "\<forall>w \<in> set white_space. hd w \<noteq> d" "\<forall>w \<in> set white_space. last w \<noteq> d"
    unfolding white_space_eq using assms by (auto simp: is_ascii_digit_def)
  have "take (Suc n) (d # s) \<notin> set white_space" for n using first(1) by fastforce
  from this [of 0] this [of 1] this [of 2] show "ws_prefix (d # s) = 0" by (simp add: ws_prefix_def numeral_eq_Suc)
  have "rev (take (Suc n) (rev (s @ [d]))) \<notin> set white_space" for n using first(2) by fastforce
  from this [of 0] this [of 1] this [of 2] show "ws_suffix (s @ [d]) = 0" by (simp add: ws_suffix_def numeral_eq_Suc)
qed

lemma ascii_whitespace_text: "\<forall>b \<in> set w. is_ascii_whitespace b \<Longrightarrow> ws_text w"
proof (induction w)
  case (Cons b w)
  then have "[b] \<in> set white_space"
    by (auto simp: is_ascii_whitespace_def white_space_eq word_unat_eq_iff)
  with Cons ws_text_append [of "[b]" w] show ?case by (simp add: ws_text_single)
qed simp

lemma trim_ascii_split: "\<exists>w1 w2. raw = w1 @ trim_ascii raw @ w2 \<and> (\<forall>b \<in> set w1 \<union> set w2. is_ascii_whitespace b)"
proof -
  define t where "t = dropWhile is_ascii_whitespace raw"
  have "raw = takeWhile is_ascii_whitespace raw @ t" by (simp add: t_def)
  moreover have "rev t = takeWhile is_ascii_whitespace (rev t) @ dropWhile is_ascii_whitespace (rev t)" by simp
  then have "t = rev (dropWhile is_ascii_whitespace (rev t)) @ rev (takeWhile is_ascii_whitespace (rev t))"
    by (metis rev_append rev_rev_ident)
  ultimately have "raw = takeWhile is_ascii_whitespace raw @ trim_ascii raw @ rev (takeWhile is_ascii_whitespace (rev t))"
    unfolding trim_ascii_def t_def [symmetric] by simp
  moreover have "\<forall>b \<in> set (takeWhile is_ascii_whitespace raw) \<union> set (rev (takeWhile is_ascii_whitespace (rev t))). is_ascii_whitespace b"
    by (auto dest: set_takeWhileD)
  ultimately show ?thesis by blast
qed

lemma content_length_value:
  assumes "trim_ascii raw \<noteq> []" "list_all is_ascii_digit (trim_ascii raw)"
  shows "trim (from_utf8_lossy raw) = trim_ascii raw"
proof -
  let ?d = "trim_ascii raw"
  obtain w1 w2 where w: "raw = w1 @ ?d @ w2" "\<forall>b \<in> set w1 \<union> set w2. is_ascii_whitespace b" using trim_ascii_split [of raw] by blast
  have small: "is_ascii_whitespace b \<or> is_ascii_digit b \<Longrightarrow> b < 0x80" for b
    by (auto simp: is_ascii_digit_def is_ascii_whitespace_def word_less_nat_alt word_le_nat_alt)
  have "\<forall>b \<in> set (w1 @ ?d @ w2). b < 0x80" using w(2) assms(2) small by (auto simp: list_all_iff)
  then have "\<forall>b \<in> set raw. b < 0x80" by (simp only: w(1) [symmetric])
  then have lossy: "from_utf8_lossy raw = raw" by (rule from_utf8_lossy_ascii)
  obtain a ds where d: "?d = a # ds" using assms(1) by (cases ?d) auto
  obtain z es where e: "?d = es @ [z]" using assms(1) by (metis rev_exhaust)
  have "trim_start raw = ?d @ w2"
    using trim_start_text [of w1 "?d @ w2"] ascii_whitespace_text [of w1] w digit_not_white(1) [of a "ds @ w2"] d assms(2) by simp
  moreover have "trim_end (?d @ w2) = ?d"
    using trim_end_text [of w2 ?d] ascii_whitespace_text [of w2] w digit_not_white(2) [of z es] e assms(2) by simp
  ultimately show ?thesis by (simp add: trim_def lossy)
qed

section \<open>What an accepted request says about its body\<close>

definition names :: "string \<Rightarrow> rstr \<times> byte list \<Rightarrow> bool" where
  "names n field = eq_ignore_ascii_case (fst field) (ascii n)"

definition length_field :: "rstr \<times> byte list \<Rightarrow> nat \<Rightarrow> bool" where
  "length_field field n =
     (let v = trim_ascii (snd field) in v \<noteq> [] \<and> list_all is_ascii_digit v \<and> digits_value v = n \<and> n < 2 ^ 64)"

lemma digits_no_sign: "v \<noteq> [] \<Longrightarrow> list_all is_ascii_digit v \<Longrightarrow>
    parse_u64 v = (if digits_value v < 2 ^ 64 then Some (digits_value v) else None)"
  by (cases v) (auto simp: parse_u64_def is_ascii_digit_def Let_def)

lemma not_both_names: "names ''Content-Length'' field \<Longrightarrow> \<not> names ''Transfer-Encoding'' field"
  unfolding names_def eq_ignore_ascii_case_def by (simp add: to_ascii_lowercase_def ascii_def)

lemma add_coding_keeps: "foldl add_coding f cs = f' \<Longrightarrow> content_length f' = content_length f \<and> transfer_encoding_seen f' = transfer_encoding_seen f"
  by (induction cs arbitrary: f) (auto simp: add_coding_def)

lemma add_field_Inr:
  assumes "add_field field f = Inr f'"
  shows "(names ''Content-Length'' field \<longrightarrow>
      (\<exists>n. length_field field n \<and> content_length f' = Some n \<and> (content_length f = None \<or> content_length f = Some n)))
    \<and> (\<not> names ''Content-Length'' field \<longrightarrow> content_length f' = content_length f)
    \<and> (transfer_encoding_seen f' \<longleftrightarrow> transfer_encoding_seen f \<or> names ''Transfer-Encoding'' field)"
proof -
  obtain name raw where field: "field = (name, raw)" by fastforce
  show ?thesis
  proof (cases "names ''Content-Length'' field")
    case True
    then have name: "eq_ignore_ascii_case name (ascii ''Content-Length'')" by (simp add: names_def field)
    with assms have digits: "trim_ascii raw \<noteq> []" "list_all is_ascii_digit (trim_ascii raw)"
      by (auto simp: add_field_def field Let_def split: if_splits)
    note text_value = content_length_value [OF digits] digits_no_sign [OF digits]
    from assms name digits show ?thesis using True not_both_names [OF True] unfolding length_field_def field
      by (auto simp: add_field_def text_value Let_def split: if_splits)
  next
    case False
    then have "\<not> eq_ignore_ascii_case name (ascii ''Content-Length'')" by (simp add: names_def field)
    with assms False add_coding_keeps [OF refl] show ?thesis
      by (auto simp: add_field_def field names_def Let_def split: if_splits)
  qed
qed

lemma add_fields_Inr:
  "add_fields fs f = Inr f' \<Longrightarrow>
   (transfer_encoding_seen f' \<longleftrightarrow> transfer_encoding_seen f \<or> (\<exists>x \<in> set fs. names ''Transfer-Encoding'' x))
   \<and> (\<forall>x \<in> set fs. names ''Content-Length'' x \<longrightarrow> (\<exists>n. content_length f' = Some n \<and> length_field x n))
   \<and> (\<forall>n. content_length f = Some n \<longrightarrow> content_length f' = Some n)
   \<and> (content_length f = None \<and> (\<forall>x \<in> set fs. \<not> names ''Content-Length'' x) \<longrightarrow> content_length f' = None)"
proof (induction fs arbitrary: f)
  case (Cons x fs)
  then obtain f1 where f1: "add_field x f = Inr f1" "add_fields fs f1 = Inr f'" by auto
  note step = add_field_Inr [OF f1(1)] and IH = Cons.IH [OF f1(2)]
  have "\<exists>n. content_length f' = Some n \<and> length_field x n" if "names ''Content-Length'' x" using step IH that by blast
  moreover have "content_length f' = Some n" if "content_length f = Some n" for n
    using step IH that by (cases "names ''Content-Length'' x") auto
  ultimately show ?case using step IH by auto
qed simp

text \<open>C24: A request is accepted only when its body has one meaning. No field of an accepted head is
  named Transfer-Encoding; every Content-Length field consists of digits that fit 64 bits and all of
  them have the value by which the body is read; without such a field there is no body. So no
  second reading of the same bytes can place the next request elsewhere.\<close>

theorem accepted_request_unambiguous:
  assumes "parse_http_request httparse bytes = Inr (request, cl)"
  shows "\<exists>h. httparse bytes = Complete h
    \<and> (\<forall>x \<in> set (head_fields h). \<not> names ''Transfer-Encoding'' x)
    \<and> (\<forall>x \<in> set (head_fields h). names ''Content-Length'' x \<longrightarrow> (\<exists>n. cl = Some n \<and> length_field x n))
    \<and> (cl \<noteq> None \<longleftrightarrow> (\<exists>x \<in> set (head_fields h). names ''Content-Length'' x))"
proof -
  from assms obtain h where h: "httparse bytes = Complete h" by (auto simp: parse_http_request_def split: parse_status.splits)
  with assms obtain f where f: "add_fields (head_fields h) framing_start = Inr f" "\<not> transfer_encoding_seen f" "content_length f = cl"
    by (auto simp: parse_http_request_def Let_def split: option.splits if_splits)
  note fields = add_fields_Inr [OF f(1)]
  have start: "content_length framing_start = None" by (simp add: framing_start_def)
  have te: "\<forall>x \<in> set (head_fields h). \<not> names ''Transfer-Encoding'' x" using fields f(2) by blast
  have lengths: "\<forall>x \<in> set (head_fields h). names ''Content-Length'' x \<longrightarrow> (\<exists>n. cl = Some n \<and> length_field x n)"
    using fields unfolding f(3) by blast
  have none: "cl = None" if "\<forall>x \<in> set (head_fields h). \<not> names ''Content-Length'' x"
    using fields [THEN conjunct2, THEN conjunct2, THEN conjunct2, THEN mp, OF conjI [OF start that]] unfolding f(3) .
  have "cl \<noteq> None \<longleftrightarrow> (\<exists>x \<in> set (head_fields h). names ''Content-Length'' x)" using lengths none by (metis option.distinct(1))
  with h te lengths show ?thesis by (intro exI [of _ h] conjI)
qed

section \<open>Requests are delimited exactly\<close>

text \<open>The phase of a body and the reader after it: a body that is not complete has taken all that
  was buffered.\<close>

definition body_delivered :: "byte list \<Rightarrow> byte list \<Rightarrow> http_body_phase \<Rightarrow> byte list \<Rightarrow> byte list \<Rightarrow> bool" where
  "body_delivered body tail phase buffer remaining =
     (case phase of
        Buffered b \<Rightarrow> b = body \<and> remaining = tail
      | Needs_Streaming prefix n \<Rightarrow> buffer = [] \<and> n = length body - length prefix \<and> 0 < n \<and> prefix @ remaining = body @ tail
      | Finished \<Rightarrow> False)"

context byte_source
begin

lemma request_delimited:
  assumes "0 < capacity" and head: "find_header_terminator head = Some (length head - 4)" "4 \<le> length head" "length head \<le> MAX_HTTP_HEADER_BYTES"
    and parsed: "parse_http_request httparse head = Inr (request, cl)"
    and body: "length body = (case cl of Some n \<Rightarrow> n | None \<Rightarrow> 0)" "length body \<le> body_limit e" "length body \<le> usize_max"
    and wire: "coming r = head @ body @ tail"
  shows "\<exists>r' phase. read_http_request_with_options httparse capacity pull e allow_eof inline_limit r = (r', Inr (Some (request, phase)))
    \<and> body_delivered body tail phase (br_buffer r') (coming r')"
proof -
  have "find_header_terminator (coming r) = Some (length head - 4)" unfolding wire by (rule find_header_terminator_append [OF head(1)])
  with read_head_spec [OF assms(1), of "[]" "coming r" r allow_eof] head(2,3)
  obtain r1 where r1: "read_head capacity pull allow_eof [] r = (r1, Inr (Some head))" "coming r1 = body @ tail"
    by (auto simp: head_answer_def wire)
  show ?thesis
  proof (cases cl)
    case None
    with body(1) r1 parsed show ?thesis by (simp add: read_http_request_with_options_def body_delivered_def)
  next
    case (Some len)
    show ?thesis
    proof (cases "len \<le> inline_limit")
      case True
      from read_body_spec [OF assms(1), of "[]" len r1] body(1) Some r1(2)
      obtain r2 where "read_body capacity pull len [] r1 = (r2, Inr body)" "coming r2 = tail" by auto
      with True Some body r1(1) parsed show ?thesis by (simp add: read_http_request_with_options_def body_delivered_def)
    next
      case False
      define n where "n = min len (length (br_buffer r1))"
      have n: "n \<le> length (br_buffer r1)" by (simp add: n_def)
      let ?r = "consume n r1" and ?p = "take n (br_buffer r1)"
      have left: "coming ?r = drop n (body @ tail)" "?p = take n (body @ tail)" using coming_consume [OF n] r1(2) n by (simp_all add: coming_def flip: r1(2))
      have read: "read_http_request_with_options httparse capacity pull e allow_eof inline_limit r =
          (?r, Inr (Some (request, classify_http_body ?p (Some len))))"
        using False Some body r1(1) parsed by (simp add: read_http_request_with_options_def n_def Let_def)
      show ?thesis
      proof (cases "len \<le> length (br_buffer r1)")
        case True
        then have "n = length body" using Some body(1) by (simp add: n_def)
        with read left False True Some body(1) show ?thesis by (auto simp: body_delivered_def classify_http_body_def)
      next
        case short: False
        then have n': "n = length (br_buffer r1)" "br_buffer ?r = []" by (simp_all add: n_def consume_def)
        have "?p @ coming ?r = body @ tail" unfolding left by (rule append_take_drop_id)
        with read False short Some body(1) n' show ?thesis by (simp add: body_delivered_def classify_http_body_def)
      qed
    qed
  qed
qed

end

text \<open>C25: The head of a request is what comes up to and including the first empty line, in whatever
  pieces it arrives: although only three bytes of the past are searched again, the loop finds
  the first terminator of the whole stream, takes nothing beyond it, accepts a head of up to
  65536 bytes and refuses every longer one; the loop always ends. Without a terminator it reports
  the end of the stream, quietly only when nothing has arrived and the caller allows it.\<close>

theorem http_head_exact:
  assumes "byte_source pull rest" and "0 < capacity"
  shows "\<exists>r' res. read_head capacity pull allow_eof [] r = (r', res)
    \<and> head_answer allow_eof (br_buffer r @ rest (br_inner r)) res (br_buffer r' @ rest (br_inner r'))"
  using byte_source.read_head_spec [OF assms, of "[]" _ r allow_eof] by (simp add: byte_source.coming_def [OF assms(1)])

text \<open>Requests on a connection are delimited exactly. When a head that is accepted is followed by as
  many bytes as it announces, within the limit of the endpoint, the request is read with exactly
  these bytes as its body and the reader stands at the first byte after them, so the next request is
  read from there. A body that is too long for the inline limit is handed over as a prefix and the
  number of bytes that are still to come, and then the read buffer is empty, so nothing is lost
  when the body reader continues on the stream below.\<close>

theorem http_requests_delimited:
  assumes "byte_source pull rest" and "0 < capacity"
    and "find_header_terminator head = Some (length head - 4)" "4 \<le> length head" "length head \<le> MAX_HTTP_HEADER_BYTES"
    and "parse_http_request httparse head = Inr (request, cl)"
    and "length body = (case cl of Some n \<Rightarrow> n | None \<Rightarrow> 0)" "length body \<le> body_limit e" "length body \<le> usize_max"
    and "br_buffer r @ rest (br_inner r) = head @ body @ tail"
  shows "\<exists>r' phase. read_http_request httparse capacity pull e r = (r', Inr (Some (request, phase)))
    \<and> body_delivered body tail phase (br_buffer r') (br_buffer r' @ rest (br_inner r'))"
  using byte_source.request_delimited [OF assms(1-9), of r tail True HTTP1_INLINE_BODY_LIMIT] assms(10)
  by (simp add: read_http_request_def byte_source.coming_def [OF assms(1)])

section \<open>A concrete request\<close>

text \<open>A POST with two bytes of body, in three chunks, followed by the start of another request.\<close>

definition demo_head :: "byte list" where
  "demo_head = ascii ''POST / HTTP/1.1'' @ [0x0D, 0x0A] @ ascii ''Content-Length: 2'' @ [0x0D, 0x0A, 0x0D, 0x0A]"

definition demo_httparse :: "byte list \<Rightarrow> parse_status" where
  "demo_httparse bytes =
     (if bytes = demo_head then
        Complete \<lparr>head_method = Some (ascii ''POST''), head_path = Some (ascii ''/''), head_version = Some 1,
          head_fields = [(ascii ''Content-Length'', ascii ''2'')]\<rparr>
      else Invalid)"

definition demo_request :: http_request where
  "demo_request = \<lparr>req_method = ascii ''POST'', req_target = ascii ''/'', req_version = 1,
     req_headers = [(ascii ''Content-Length'', ascii ''2'')]\<rparr>"

definition demo_reader :: "wire buf_reader" where
  "demo_reader = buf_reader_new \<lparr>chunks = [take 10 demo_head, drop 10 demo_head @ [0x68], [0x69] @ ascii ''GET''], silent = False, sent = []\<rparr>"

lemma demo_head_ends: "find_header_terminator demo_head = Some (length demo_head - 4)" "4 \<le> length demo_head"
    "length demo_head \<le> MAX_HTTP_HEADER_BYTES"
  by (simp_all add: demo_head_def ascii_def MAX_HTTP_HEADER_BYTES_def)

lemma demo_parsed: "parse_http_request demo_httparse demo_head = Inr (demo_request, Some 2)"
proof -
  have digit: "trim (from_utf8_lossy (ascii ''2'')) = ascii ''2''" "trim_ascii (ascii ''2'') = ascii ''2''"
    using content_length_value [of "ascii ''2''"] by (simp_all add: trim_ascii_def is_ascii_whitespace_def ascii_def is_ascii_digit_def)
  have "add_fields [(ascii ''Content-Length'', ascii ''2'')] framing_start =
      Inr (framing_start\<lparr>content_length := Some 2, header_list := [(ascii ''Content-Length'', ascii ''2'')]\<rparr>)"
    by (simp add: add_field_def digit try_sum_def framing_start_def) (simp add: parse_u64_def digits_value_def ascii_def is_ascii_digit_def)
  then show ?thesis by (simp add: parse_http_request_def demo_httparse_def demo_request_def try_sum_def framing_start_def)
qed

theorem http_head_exact_witness:
  "\<exists>r'. read_head 8192 wire_pull True [] demo_reader = (r', Inr (Some demo_head))"
proof -
  have wire: "br_buffer demo_reader @ wire_rest (br_inner demo_reader) = demo_head @ [0x68, 0x69] @ ascii ''GET''"
    by (simp add: demo_reader_def buf_reader_new_def wire_rest_def)
  have "find_header_terminator (demo_head @ [0x68, 0x69] @ ascii ''GET'') = Some (length demo_head - 4)"
    by (rule find_header_terminator_append [OF demo_head_ends(1)])
  with http_head_exact [OF wire.byte_source_axioms, of 8192 True demo_reader] demo_head_ends(2,3) show ?thesis
    unfolding wire by (auto simp: head_answer_def)
qed

theorem accepted_request_unambiguous_witness:
  "parse_http_request demo_httparse demo_head = Inr (demo_request, Some 2)
   \<and> (\<exists>h. demo_httparse demo_head = Complete h \<and> (\<forall>x \<in> set (head_fields h). \<not> names ''Transfer-Encoding'' x))"
  using accepted_request_unambiguous [OF demo_parsed] demo_parsed by blast

theorem http_requests_delimited_witness:
  "\<exists>e r' phase. try_from_endpoint ascii_tables demo_endpoint = Inr e
    \<and> read_http_request demo_httparse 8192 wire_pull e demo_reader = (r', Inr (Some (demo_request, phase)))
    \<and> body_delivered [0x68, 0x69] (ascii ''GET'') phase (br_buffer r') (br_buffer r' @ wire_rest (br_inner r'))"
proof -
  obtain e where e: "try_from_endpoint ascii_tables demo_endpoint = Inr e" using demo_endpoint_accepted by blast
  then have limit: "body_limit e = 4194304"
    using accepted_body_limit [OF e] by (simp add: body_limit_def demo_endpoint_def DEFAULT_HTTP_BODY_LIMIT_def)
  have wire: "br_buffer demo_reader @ wire_rest (br_inner demo_reader) = demo_head @ [0x68, 0x69] @ ascii ''GET''"
    by (simp add: demo_reader_def buf_reader_new_def wire_rest_def)
  have "\<exists>r' phase. read_http_request demo_httparse 8192 wire_pull e demo_reader = (r', Inr (Some (demo_request, phase)))
      \<and> body_delivered [0x68, 0x69] (ascii ''GET'') phase (br_buffer r') (br_buffer r' @ wire_rest (br_inner r'))"
    by (rule http_requests_delimited [OF wire.byte_source_axioms _ demo_head_ends demo_parsed _ _ _ wire])
       (simp_all only: limit usize_max_def option.case list.size, simp_all)
  with e show ?thesis by blast
qed

end
