(* ===== verification/Mqtt_Websocket.thy ===== *)
theory Mqtt_Websocket
  imports Mqtt_Bridge Websocket_Connection Http_Request
begin

text \<open>
  MQTT over WebSocket (\<open>spawn_mqtt_websocket_reader\<close>, \<open>spawn_mqtt_websocket_writer\<close> and
  \<open>websocket_buffer_contains_complete_frame\<close> of \<^verbatim>\<open>ct_core/src/lib.rs\<close>). The reader assembles the
  binary messages and passes their bytes on in chunks of at most 64 KiB; it holds bytes back
  while more frames are at hand. It reads the bytes of the connection through a buffered reader;
  only whether a read is still pending after a turn of the scheduler is an input of its loop.
\<close>

unbundle bit_operations_syntax

section \<open>Is a whole frame buffered?\<close>

definition websocket_buffer_contains_complete_frame :: "byte list \<Rightarrow> bool" where
  "websocket_buffer_contains_complete_frame buffer =
     (if length buffer < 2 then False
      else let length_code = unat ((buffer ! 1) AND 0x7F);
               extended_length = (if length_code = 126 then 2 else if length_code = 127 then 8 else 0);
               header_length = 2 + extended_length + (if (buffer ! 1) AND 0x80 \<noteq> 0 then 4 else 0)
           in if length buffer < header_length then False
              else let payload_length = (if length_code = 126 then be_nat [buffer ! 2, buffer ! 3]
                                         else if length_code = 127 then be_nat (take 8 (drop 2 buffer))
                                         else length_code)
                   in payload_length \<le> length buffer - header_length)"

section \<open>The reader\<close>

definition MQTT_CHUNK :: nat where "MQTT_CHUNK = 64 * 1024"

record mqtt_ws =
  held_back :: "byte list"
  pending_messages :: nat
  assembler :: accumulator
  passed_on :: "byte list list"
  controls :: "(byte \<times> byte list) list"

definition mqtt_ws_new :: mqtt_ws where
  "mqtt_ws_new = \<lparr>held_back = [], pending_messages = 0, assembler = new_accumulator, passed_on = [], controls = []\<rparr>"

text \<open>\<open>alive\<close> says whether the queue to the broker still takes a chunk after the given ones.\<close>

definition send_mqtt_websocket_inbound :: "(byte list list \<Rightarrow> bool) \<Rightarrow> byte list \<Rightarrow> mqtt_ws \<Rightarrow> mqtt_ws \<times> bool" where
  "send_mqtt_websocket_inbound alive bytes st =
     (if alive (passed_on st) then (st\<lparr>passed_on := passed_on st @ [bytes]\<rparr>, True) else (st, False))"

definition flush_mqtt_websocket_inbound :: "(byte list list \<Rightarrow> bool) \<Rightarrow> mqtt_ws \<Rightarrow> mqtt_ws \<times> bool" where
  "flush_mqtt_websocket_inbound alive st =
     (if held_back st = [] then (st, True)
      else send_mqtt_websocket_inbound alive (held_back st) (st\<lparr>held_back := []\<rparr>))"

text \<open>The loop over a segment, on the bytes after \<open>offset\<close>. Bytes held back are fewer than a chunk;
  otherwise the loop would not advance.\<close>

function mqtt_segment :: "(byte list list \<Rightarrow> bool) \<Rightarrow> byte list \<Rightarrow> mqtt_ws \<Rightarrow> mqtt_ws \<times> bool" where
  "mqtt_segment alive bytes st =
     (if bytes = [] then (st, True)
      else if held_back st = [] \<and> length bytes \<ge> MQTT_CHUNK then
        (case send_mqtt_websocket_inbound alive (take MQTT_CHUNK bytes) st of
           (st', False) \<Rightarrow> (st', False)
         | (st', True) \<Rightarrow> mqtt_segment alive (drop MQTT_CHUNK bytes) st')
      else if length (held_back st) \<ge> MQTT_CHUNK then (st, False)
      else let n = min (MQTT_CHUNK - length (held_back st)) (length bytes);
               st1 = st\<lparr>held_back := held_back st @ take n bytes\<rparr>
           in if length (held_back st1) = MQTT_CHUNK then
                (case flush_mqtt_websocket_inbound alive st1 of
                   (st2, False) \<Rightarrow> (st2, False)
                 | (st2, True) \<Rightarrow> mqtt_segment alive (drop n bytes) (st2\<lparr>pending_messages := 0\<rparr>))
              else mqtt_segment alive (drop n bytes) st1)"
  by pat_completeness auto
termination
  by (relation "measure (\<lambda>(_, bytes, _). length bytes)") (auto simp: MQTT_CHUNK_def)

declare mqtt_segment.simps [simp del]

primrec mqtt_segments :: "(byte list list \<Rightarrow> bool) \<Rightarrow> byte list list \<Rightarrow> mqtt_ws \<Rightarrow> mqtt_ws \<times> bool" where
  "mqtt_segments alive [] st = (st, True)"
| "mqtt_segments alive (p # ps) st =
     (case mqtt_segment alive p st of (st', False) \<Rightarrow> (st', False) | (st', True) \<Rightarrow> mqtt_segments alive ps st')"

definition message_segments_of :: "message_storage \<Rightarrow> byte list list" where
  "message_segments_of m = (case m of Single bs \<Rightarrow> [bs] | message_storage.Segmented ss n \<Rightarrow> ss)"

definition send_control :: "bool \<Rightarrow> byte \<Rightarrow> byte list \<Rightarrow> mqtt_ws \<Rightarrow> mqtt_ws" where
  "send_control ctl opcode payload st = (if ctl then st\<lparr>controls := controls st @ [(opcode, payload)]\<rparr> else st)"

text \<open>A frame: the state, and for a loop that is left whether the close is graceful. \<open>ctl\<close> says
  whether the writer still takes control frames.\<close>

definition mqtt_data :: "bool \<Rightarrow> (byte list list \<Rightarrow> bool) \<Rightarrow> bool \<Rightarrow> byte \<Rightarrow> bool \<Rightarrow> byte list \<Rightarrow> mqtt_ws \<Rightarrow> mqtt_ws \<times> bool option" where
  "mqtt_data coalesce alive ctl opcode fin payload st =
     (if opcode = 1 then (send_control ctl 8 [0x03, 0xEB] st, Some True)
      else case push_fragment opcode fin payload (assembler st) of
          (a, Some e) \<Rightarrow>
            (case flush_mqtt_websocket_inbound alive (st\<lparr>assembler := a\<rparr>) of
               (st', False) \<Rightarrow> (st', Some False)
             | (st', True) \<Rightarrow>
                 (send_control ctl 8 (be_bytes 2 (unat (case close_code e of Some c \<Rightarrow> c | None \<Rightarrow> 1002))) st', Some ctl))
        | (a, None) \<Rightarrow>
            (case take_complete a of
               (a', None) \<Rightarrow> (st\<lparr>assembler := a'\<rparr>, None)
             | (a', Some m) \<Rightarrow>
                 let ss = message_segments_of m; nonempty = (coalesce \<and> (\<exists>p \<in> set ss. p \<noteq> [])) in
                 (case mqtt_segments alive ss (st\<lparr>assembler := a'\<rparr>) of
                    (st', False) \<Rightarrow> (st', Some False)
                  | (st', True) \<Rightarrow>
                      (if nonempty \<and> held_back st' \<noteq> [] then st'\<lparr>pending_messages := pending_messages st' + 1\<rparr> else st', None))))"

definition mqtt_frame :: "bool \<Rightarrow> (byte list list \<Rightarrow> bool) \<Rightarrow> bool \<Rightarrow> websocket_frame \<Rightarrow> mqtt_ws \<Rightarrow> mqtt_ws \<times> bool option" where
  "mqtt_frame coalesce alive ctl frame st =
     (case frame of
        Ws_Data opcode fin payload \<Rightarrow> mqtt_data coalesce alive ctl opcode fin payload st
      | Ws_Ping payload \<Rightarrow> (send_control ctl 0xA payload st, if ctl then None else Some False)
      | Ws_Pong payload \<Rightarrow> (st, None)
      | Ws_Close code reason \<Rightarrow>
          (send_control ctl 8 (case code of None \<Rightarrow> [] | Some c \<Rightarrow> be_bytes 2 (unat c) @ reason) st, Some True))"

definition continue_binary :: "websocket_frame \<Rightarrow> bool" where
  "continue_binary frame = (case frame of Ws_Data opcode fin payload \<Rightarrow> opcode = 2 \<or> opcode = 0 | _ \<Rightarrow> False)"

text \<open>\<open>or_break\<close>: a flush that fails leaves the loop.\<close>

definition or_break :: "mqtt_ws \<times> bool \<Rightarrow> (mqtt_ws \<Rightarrow> mqtt_ws \<times> bool option) \<Rightarrow> mqtt_ws \<times> bool option" where
  "or_break m f = (case m of (st, False) \<Rightarrow> (st, Some False) | (st, True) \<Rightarrow> f st)"

text \<open>Before the read: with two messages held back and no whole frame in the buffer, the reader polls
  the read, yields once, and flushes when the read is still pending (\<open>late\<close>).\<close>

definition mqtt_wait :: "bool \<Rightarrow> (byte list list \<Rightarrow> bool) \<Rightarrow> byte list \<Rightarrow> bool \<Rightarrow> mqtt_ws \<Rightarrow> mqtt_ws \<times> bool" where
  "mqtt_wait coalesce alive buffer late st =
     (let st0 = (if held_back st = [] then st\<lparr>pending_messages := 0\<rparr> else st) in
      if coalesce \<and> pending_messages st0 \<ge> 2 \<and> \<not> websocket_buffer_contains_complete_frame buffer \<and> late
      then (case flush_mqtt_websocket_inbound alive st0 of
              (s, False) \<Rightarrow> (s, False) | (s, True) \<Rightarrow> (s\<lparr>pending_messages := 0\<rparr>, True))
      else (st0, True))"

text \<open>After the read: the frame or the error, and the flush at the end of the turn. \<open>buffer\<close> is what
  the reader has read ahead by now.\<close>

definition mqtt_arrived ::
  "bool \<Rightarrow> (byte list list \<Rightarrow> bool) \<Rightarrow> bool \<Rightarrow> byte list \<Rightarrow> websocket_frame_error + websocket_frame \<Rightarrow> mqtt_ws \<Rightarrow> mqtt_ws \<times> bool option" where
  "mqtt_arrived coalesce alive ctl buffer result st1 =
     (case result of
        Inl e \<Rightarrow>
          or_break (flush_mqtt_websocket_inbound alive st1) (\<lambda>st2.
            case close_code e of
              Some code \<Rightarrow> (send_control ctl 8 (be_bytes 2 (unat code)) st2, Some ctl)
            | None \<Rightarrow> (st2, Some False))
      | Inr frame \<Rightarrow>
          or_break (if continue_binary frame then (st1, True) else flush_mqtt_websocket_inbound alive st1) (\<lambda>st2.
            case mqtt_frame coalesce alive ctl frame st2 of
              (st3, Some graceful) \<Rightarrow> (st3, Some graceful)
            | (st3, None) \<Rightarrow>
                or_break (if \<not> websocket_buffer_contains_complete_frame buffer \<and> (\<not> coalesce \<or> pending_messages st3 < 2)
                          then flush_mqtt_websocket_inbound alive st3 else (st3, True)) (\<lambda>st4. (st4, None))))"

text \<open>The buffered reader under the frame reader: a read that asks for at least its capacity while it
  is empty goes to the transport, any other is served from the buffer.\<close>

definition MQTT_READ_AHEAD :: nat where "MQTT_READ_AHEAD = 16 * 1024"

definition buf_read :: "nat \<Rightarrow> 's source \<Rightarrow> 's buf_reader source" where
  "buf_read cap pull n r =
     (if br_buffer r = [] \<and> n \<ge> cap then (case pull n (br_inner r) of (s, res) \<Rightarrow> (r\<lparr>br_inner := s\<rparr>, res))
      else case fill_buf cap pull r of
          (r', Inl e) \<Rightarrow> (r', Inl e)
        | (r', Inr bs) \<Rightarrow> (consume (min n (length bs)) r', Inr (take n bs)))"

definition mqtt_turn ::
  "'s source \<Rightarrow> bool \<Rightarrow> (byte list list \<Rightarrow> bool) \<Rightarrow> bool \<Rightarrow> bool \<Rightarrow> 's buf_reader \<times> mqtt_ws \<Rightarrow> ('s buf_reader \<times> mqtt_ws) \<times> bool option" where
  "mqtt_turn pull coalesce alive ctl late = (\<lambda>(r, st).
     case mqtt_wait coalesce alive (br_buffer r) late st of
       (st1, False) \<Rightarrow> ((r, st1), Some False)
     | (st1, True) \<Rightarrow>
         (case read_websocket_frame_mode (buf_read MQTT_READ_AHEAD pull) True r of
            (r', result) \<Rightarrow> (case mqtt_arrived coalesce alive ctl (br_buffer r') result st1 of (st', stop) \<Rightarrow> ((r', st'), stop))))"

text \<open>The task, one turn for each element of \<open>lates\<close>: when the loop is left, what is held back is
  flushed once more.\<close>

fun mqtt_ws_reader ::
  "'s source \<Rightarrow> bool \<Rightarrow> (byte list list \<Rightarrow> bool) \<Rightarrow> bool \<Rightarrow> bool list \<Rightarrow> 's buf_reader \<times> mqtt_ws \<Rightarrow> ('s buf_reader \<times> mqtt_ws) \<times> bool option" where
  "mqtt_ws_reader pull coalesce alive ctl [] rs = (rs, None)"
| "mqtt_ws_reader pull coalesce alive ctl (late # lates) rs =
     (case mqtt_turn pull coalesce alive ctl late rs of
        ((r, st), Some graceful) \<Rightarrow> ((r, fst (flush_mqtt_websocket_inbound alive st)), Some graceful)
      | (rs', None) \<Rightarrow> mqtt_ws_reader pull coalesce alive ctl lates rs')"

section \<open>The writer\<close>

text \<open>\<open>spawn_mqtt_websocket_writer\<close>: what it takes next is a control frame or a chunk; it ends
  with a close frame, an error or the end of the queue.\<close>

fun mqtt_ws_writer ::
  "'s sink \<Rightarrow> ('s \<Rightarrow> 's \<times> stream_error option) \<Rightarrow> 's vectored_write \<Rightarrow> ('s \<Rightarrow> 's \<times> byte list) \<Rightarrow>
   (byte \<times> byte list) list \<Rightarrow> 's \<Rightarrow> 's \<times> nat" where
  "mqtt_ws_writer push flush vectored draw [] s = (s, 0)"
| "mqtt_ws_writer push flush vectored draw ((opcode, bytes) # items) s =
     (case write_websocket_frame_mode push vectored draw opcode (length bytes) [bytes] [] False s of
        None \<Rightarrow> (s, 0)
      | Some (s', Some e) \<Rightarrow> (s', 0)
      | Some (s', None) \<Rightarrow>
          (case flush s' of
             (s'', Some e) \<Rightarrow> (s'', 0)
           | (s'', None) \<Rightarrow>
               if opcode = 8 then (s'', 1)
               else (case mqtt_ws_writer push flush vectored draw items s'' of (s3, n) \<Rightarrow> (s3, Suc n))))"

section \<open>The buffered frame\<close>

lemma contains_complete_frame:
  assumes key: "\<And>k. key = Some k \<Longrightarrow> length k = 4" and len: "length payload < 2 ^ 64"
    and w: "w = websocket_frame_bytes opcode fin key payload" and n: "n \<le> length (w @ tail)"
  shows "websocket_buffer_contains_complete_frame (take n (w @ tail)) \<longleftrightarrow> length w \<le> n"
proof -
  let ?n = "length payload"
  define h where "h = (if ?n < 126 then [of_nat ?n] else if ?n \<le> 0xFFFF then 126 # be_bytes 2 ?n else 127 # be_bytes 8 ?n :: byte list)"
  define first where "first = ((if fin then 0x80 else 0) OR (opcode AND 0x0F) :: byte)"
  define second where "second = (if key = None then hd h else hd h OR 0x80)"
  define k where "k = (case key of None \<Rightarrow> [] | Some m \<Rightarrow> m)"
  define code where "code = (if ?n < 126 then ?n else if ?n \<le> 0xFFFF then 126 else 127)"
  have h_code: "hd h = of_nat code" "code < 128" by (auto simp: h_def code_def)
  have second: "unat (second AND 0x7F) = code" "second AND 0x80 \<noteq> 0 \<longleftrightarrow> key \<noteq> None"
    using second_byte [OF h_code(2)] h_code(1) by (auto simp: second_def)
  have bytes: "w = [first, second] @ tl h @ k @ masked_payload key payload"
  proof -
    have "h \<noteq> []" by (simp add: h_def)
    then show ?thesis
      unfolding w websocket_frame_bytes_def websocket_frame_header_def Let_def h_def [symmetric] first_def [symmetric]
      by (cases key) (simp_all add: second_def k_def)
  qed
  have lens: "length (tl h) = (if code = 126 then 2 else if code = 127 then 8 else 0)"
    "length k = (if key \<noteq> None then 4 else 0)"
    using key by (auto simp: h_def code_def k_def split: option.splits)
  define hl where "hl = 2 + length (tl h) + length k"
  have lw: "length w = hl + ?n" by (simp add: bytes hl_def)
  define buf where "buf = take n (w @ tail)"
  have lb: "length buf = n" using n by (simp add: buf_def)
  show ?thesis
  proof (cases "n < hl")
    case True
    have "buf ! 1 = second" if "2 \<le> n" using that by (simp add: buf_def bytes nth_append)
    then have "\<not> websocket_buffer_contains_complete_frame buf"
      using True lb second lens unfolding websocket_buffer_contains_complete_frame_def Let_def hl_def by auto
    with True lw show ?thesis by (simp add: buf_def)
  next
    case False
    then have n2: "2 \<le> n" by (simp add: hl_def)
    have at1: "buf ! 1 = second" using n2 by (simp add: buf_def bytes nth_append)
    have ext: "take (length (tl h)) (drop 2 buf) = tl h"
      using False by (simp add: buf_def bytes hl_def drop_take take_drop)
    have "be_nat (tl h) = ?n" if "code = 126 \<or> code = 127"
      using that len by (auto simp: h_def code_def intro!: be_nat_be_bytes split: if_splits)
    moreover have "[buf ! 2, buf ! 3] = tl h" if c: "code = 126"
    proof -
      have l2: "length (tl h) = 2" "4 \<le> n" using lens(1) c False by (simp_all add: hl_def)
      have "take 2 (drop 2 buf) = [buf ! 2, buf ! 3]" using l2(2) lb by (simp add: take_Suc_conv_app_nth numeral_2_eq_2 numeral_3_eq_3 Cons_nth_drop_Suc)
      with ext l2 show ?thesis by simp
    qed
    moreover have "take 8 (drop 2 buf) = tl h" if "code = 127" using ext lens(1) that by simp
    ultimately have "websocket_buffer_contains_complete_frame buf \<longleftrightarrow> ?n \<le> n - hl"
      using False n2 lb second lens unfolding websocket_buffer_contains_complete_frame_def Let_def at1 hl_def
      by (auto simp: code_def split: if_splits)
    then show ?thesis using False lw by (auto simp: buf_def)
  qed
qed

section \<open>The stream of bytes\<close>

definition flowed :: "mqtt_ws \<Rightarrow> byte list" where
  "flowed st = concat (passed_on st) @ held_back st"

definition chunks_ok :: "mqtt_ws \<Rightarrow> bool" where
  "chunks_ok st = (length (held_back st) < MQTT_CHUNK \<and> (\<forall>c \<in> set (passed_on st). c \<noteq> [] \<and> length c \<le> MQTT_CHUNK))"

lemma flush_flows:
  assumes "chunks_ok st"
  shows "\<exists>st'. flush_mqtt_websocket_inbound (\<lambda>_. True) st = (st', True) \<and> flowed st' = flowed st \<and> held_back st' = []
    \<and> chunks_ok st' \<and> assembler st' = assembler st \<and> controls st' = controls st"
  using assms
  by (auto simp: flush_mqtt_websocket_inbound_def send_mqtt_websocket_inbound_def flowed_def chunks_ok_def MQTT_CHUNK_def)

lemma segment_flows:
  "chunks_ok st \<Longrightarrow> \<exists>st'. mqtt_segment (\<lambda>_. True) bytes st = (st', True) \<and> flowed st' = flowed st @ bytes
    \<and> chunks_ok st' \<and> assembler st' = assembler st \<and> controls st' = controls st"
proof (induction bytes arbitrary: st rule: length_induct)
  case (1 bytes)
  have c: "0 < MQTT_CHUNK" by (simp add: MQTT_CHUNK_def)
  consider (nothing) "bytes = []" | (direct) "bytes \<noteq> []" "held_back st = []" "length bytes \<ge> MQTT_CHUNK"
    | (hold) "bytes \<noteq> []" "\<not> (held_back st = [] \<and> length bytes \<ge> MQTT_CHUNK)" by blast
  then show ?case
  proof cases
    case nothing
    with 1(2) show ?thesis by (simp add: mqtt_segment.simps)
  next
    case direct
    let ?st = "st\<lparr>passed_on := passed_on st @ [take MQTT_CHUNK bytes]\<rparr>"
    have ok: "chunks_ok ?st" and flow: "flowed ?st = flowed st @ take MQTT_CHUNK bytes"
      using 1(2) direct c by (auto simp: chunks_ok_def flowed_def)
    have "length (drop MQTT_CHUNK bytes) < length bytes" using direct(1) c by simp
    with 1(1) ok obtain st' where "mqtt_segment (\<lambda>_. True) (drop MQTT_CHUNK bytes) ?st = (st', True)"
      "flowed st' = flowed ?st @ drop MQTT_CHUNK bytes" "chunks_ok st'" "assembler st' = assembler ?st" "controls st' = controls ?st" by blast
    with direct flow show ?thesis
      by (subst mqtt_segment.simps) (simp add: send_mqtt_websocket_inbound_def)
  next
    case hold
    define n where "n = min (MQTT_CHUNK - length (held_back st)) (length bytes)"
    define st1 where "st1 = st\<lparr>held_back := held_back st @ take n bytes\<rparr>"
    have held: "length (held_back st) < MQTT_CHUNK" using 1(2) by (simp add: chunks_ok_def)
    then have n: "0 < n" "length (drop n bytes) < length bytes" using hold(1) by (simp_all add: n_def)
    have flow1: "flowed st1 = flowed st @ take n bytes" by (simp add: st1_def flowed_def)
    note step = mqtt_segment.simps [of _ bytes st, folded n_def, unfolded Let_def, folded st1_def]
    show ?thesis
    proof (cases "length (held_back st1) = MQTT_CHUNK")
      case True
      define st2 where "st2 = st1\<lparr>held_back := [], passed_on := passed_on st1 @ [held_back st1], pending_messages := 0\<rparr>"
      have fl: "flush_mqtt_websocket_inbound (\<lambda>_. True) st1 = (st1\<lparr>held_back := [], passed_on := passed_on st1 @ [held_back st1]\<rparr>, True)"
        using True c by (auto simp: flush_mqtt_websocket_inbound_def send_mqtt_websocket_inbound_def)
      have ok: "chunks_ok st2" using 1(2) True c by (auto simp: chunks_ok_def st2_def st1_def)
      obtain st' where "mqtt_segment (\<lambda>_. True) (drop n bytes) st2 = (st', True)"
        "flowed st' = flowed st2 @ drop n bytes" "chunks_ok st'" "assembler st' = assembler st2" "controls st' = controls st2" using 1(1) n(2) ok by blast
      moreover have "flowed st2 = flowed st1" by (simp add: st2_def flowed_def)
      ultimately show ?thesis using hold held True fl flow1
        by (subst step) (auto simp: st2_def st1_def)
    next
      case False
      have ok: "chunks_ok st1" using 1(2) False held by (auto simp: chunks_ok_def st1_def n_def)
      obtain st' where "mqtt_segment (\<lambda>_. True) (drop n bytes) st1 = (st', True)"
        "flowed st' = flowed st1 @ drop n bytes" "chunks_ok st'" "assembler st' = assembler st1" "controls st' = controls st1" using 1(1) n(2) ok by blast
      then show ?thesis using hold held False flow1 by (subst step) (auto simp: st1_def)
    qed
  qed
qed

lemma segments_flow:
  "chunks_ok st \<Longrightarrow> \<exists>st'. mqtt_segments (\<lambda>_. True) ps st = (st', True) \<and> flowed st' = flowed st @ concat ps
    \<and> chunks_ok st' \<and> assembler st' = assembler st \<and> controls st' = controls st"
proof (induction ps arbitrary: st)
  case (Cons p ps)
  from segment_flows [OF Cons.prems, of p] obtain st1 where s1: "mqtt_segment (\<lambda>_. True) p st = (st1, True)"
    "flowed st1 = flowed st @ p" "chunks_ok st1" "assembler st1 = assembler st" "controls st1 = controls st" by blast
  from Cons.IH [OF s1(3)] obtain st2 where "mqtt_segments (\<lambda>_. True) ps st1 = (st2, True)"
    "flowed st2 = flowed st1 @ concat ps" "chunks_ok st2" "assembler st2 = assembler st1" "controls st2 = controls st1" by blast
  with s1 show ?case by simp
qed simp

lemma message_segments_bytes: "concat (message_segments_of m) = message_bytes m"
  by (simp add: message_segments_of_def message_bytes_def split: message_storage.splits)

lemma send_control_flows [simp]:
  "flowed (send_control ctl opcode payload st) = flowed st" "held_back (send_control ctl opcode payload st) = held_back st"
  "chunks_ok (send_control ctl opcode payload st) = chunks_ok st" "assembler (send_control ctl opcode payload st) = assembler st"
  by (simp_all add: send_control_def flowed_def chunks_ok_def)

lemma counters_flow [simp]:
  "flowed (st\<lparr>pending_messages := n\<rparr>) = flowed st" "chunks_ok (st\<lparr>pending_messages := n\<rparr>) = chunks_ok st"
  "flowed (st\<lparr>assembler := a\<rparr>) = flowed st" "chunks_ok (st\<lparr>assembler := a\<rparr>) = chunks_ok st"
  by (simp_all add: flowed_def chunks_ok_def)

text \<open>A part of a turn takes the stream from one state to the next.\<close>

definition flows :: "byte list \<Rightarrow> mqtt_ws \<Rightarrow> mqtt_ws \<Rightarrow> bool" where
  "flows bytes st st' = (flowed st' = flowed st @ bytes \<and> chunks_ok st')"

lemma flush_alive: "\<exists>st'. flush_mqtt_websocket_inbound (\<lambda>_. True) st = (st', True)"
  by (simp add: flush_mqtt_websocket_inbound_def send_mqtt_websocket_inbound_def)

text \<open>A turn that leaves the loop adds nothing to the stream.\<close>

lemma frame_stops:
  assumes ok: "chunks_ok st" and run: "mqtt_frame coalesce (\<lambda>_. True) True frame st = (st', Some g)"
  shows "flows [] st st'"
proof (cases frame)
  case (Ws_Data opcode fin payload)
  show ?thesis
  proof (cases "opcode = 1")
    case True
    with Ws_Data run ok show ?thesis by (auto simp: mqtt_frame_def mqtt_data_def flows_def)
  next
    case False
    obtain a e where p: "push_fragment opcode fin payload (assembler st) = (a, e)" by fastforce
    obtain a' m where t: "take_complete a = (a', m)" by fastforce
    obtain s1 where s1: "flush_mqtt_websocket_inbound (\<lambda>_. True) (st\<lparr>assembler := a\<rparr>) = (s1, True)" "flowed s1 = flowed st" "chunks_ok s1"
      using flush_flows [of "st\<lparr>assembler := a\<rparr>"] ok by auto
    obtain s2 where s2: "mqtt_segments (\<lambda>_. True) (message_segments_of (the m)) (st\<lparr>assembler := a'\<rparr>) = (s2, True)"
      using segments_flow [of "st\<lparr>assembler := a'\<rparr>"] ok by auto
    show ?thesis using Ws_Data False p t s1 s2 run
      by (cases e; cases m) (auto simp: mqtt_frame_def mqtt_data_def flows_def Let_def)
  qed
qed (use run ok in \<open>auto simp: mqtt_frame_def flows_def\<close>)

lemma arrived_stops:
  assumes ok: "chunks_ok st" and run: "mqtt_arrived coalesce (\<lambda>_. True) True buffer result st = (st', Some g)"
  shows "flows [] st st'"
proof -
  obtain sf where fl: "flush_mqtt_websocket_inbound (\<lambda>_. True) st = (sf, True)" "flowed sf = flowed st" "chunks_ok sf"
    using flush_flows [OF ok] by blast
  show ?thesis
  proof (cases result)
    case (Inl e)
    with run fl show ?thesis by (auto simp: mqtt_arrived_def or_break_def flows_def split: option.splits)
  next
    case (Inr frame)
    define st2 where "st2 = (if continue_binary frame then st else sf)"
    have s2: "flowed st2 = flowed st" "chunks_ok st2" using fl ok by (simp_all add: st2_def)
    have second: "(if continue_binary frame then (st, True) else flush_mqtt_websocket_inbound (\<lambda>_. True) st) = (st2, True)"
      by (simp add: st2_def fl)
    obtain st3 r3 where f: "mqtt_frame coalesce (\<lambda>_. True) True frame st2 = (st3, r3)" by fastforce
    obtain s4 where s4: "flush_mqtt_websocket_inbound (\<lambda>_. True) st3 = (s4, True)" using flush_alive by blast
    have "r3 = Some g \<and> st' = st3"
      using run Inr f s4 unfolding mqtt_arrived_def by (auto simp: or_break_def second split: option.splits if_splits)
    with frame_stops [OF s2(2)] f s2(1) show ?thesis by (simp add: flows_def)
  qed
qed

section \<open>The messages in the frames\<close>

text \<open>The reference, on frames as they are on the wire. \<open>m\<close> is what has arrived of a fragmented
  message. The stream is the concatenation of the complete binary messages; pings and pongs may
  come between the fragments.\<close>

definition begun :: "byte list option \<Rightarrow> byte list" where
  "begun m = (case m of None \<Rightarrow> [] | Some bs \<Rightarrow> bs)"

fun binary_stream :: "byte list option \<Rightarrow> (byte \<times> bool \<times> byte list) list \<Rightarrow> byte list" where
  "binary_stream m [] = []"
| "binary_stream m ((opcode, fin, payload) # frs) =
     (if opcode = 9 \<or> opcode = 0xA then binary_stream m frs
      else if fin then begun m @ payload @ binary_stream None frs
      else binary_stream (Some (begun m @ payload)) frs)"

text \<open>A sequence of frames as RFC 6455 has it, with binary messages within the size limit.\<close>

fun binary_frames :: "byte list option \<Rightarrow> (byte \<times> bool \<times> byte list) list \<Rightarrow> bool" where
  "binary_frames m [] = True"
| "binary_frames m ((opcode, fin, payload) # frs) =
     (if opcode = 9 \<or> opcode = 0xA then fin \<and> length payload \<le> 125 \<and> binary_frames m frs
      else opcode = (if m = None then 2 else 0) \<and> length (begun m) + length payload \<le> MAX_WEBSOCKET_MESSAGE_LEN
        \<and> binary_frames (if fin then None else Some (begun m @ payload)) frs)"

definition pongs :: "(byte \<times> bool \<times> byte list) list \<Rightarrow> (byte \<times> byte list) list" where
  "pongs frs = map (\<lambda>(opcode, fin, payload). (0xA, payload)) (filter (\<lambda>(opcode, fin, payload). opcode = 9) frs)"

text \<open>What a frame completes, and what has arrived of a message after it.\<close>

definition completes :: "byte list option \<Rightarrow> byte \<times> bool \<times> byte list \<Rightarrow> byte list" where
  "completes m = (\<lambda>(opcode, fin, p). if opcode = 9 \<or> opcode = 0xA \<or> \<not> fin then [] else begun m @ p)"

definition begun_after :: "byte list option \<Rightarrow> byte \<times> bool \<times> byte list \<Rightarrow> byte list option" where
  "begun_after m = (\<lambda>(opcode, fin, p). if opcode = 9 \<or> opcode = 0xA then m else if fin then None else Some (begun m @ p))"

lemma binary_Cons:
  "binary_stream m (fr # frs) = completes m fr @ binary_stream (begun_after m fr) frs"
  "binary_frames m (fr # frs) \<Longrightarrow> binary_frames (begun_after m fr) frs"
  by (cases fr; auto simp: completes_def begun_after_def split: if_splits)+

lemma binary_acceptable:
  assumes "binary_frames m ((opcode, fin, p) # frs)"
  shows "acceptable opcode fin (length p)"
  using assms by (auto simp: acceptable_def MAX_WEBSOCKET_MESSAGE_LEN_def split: if_splits)

text \<open>The accumulator holds what has arrived of a message.\<close>

definition assembles :: "byte list option \<Rightarrow> accumulator \<Rightarrow> bool" where
  "assembles m a =
     (\<not> complete a \<and> (case m of
        None \<Rightarrow> acc_opcode a = None \<and> storage a = None
      | Some bs \<Rightarrow> acc_opcode a = Some 2 \<and> (\<exists>ms. storage a = Some ms \<and> message_bytes ms = bs \<and> acc_len a = length bs)))"

lemma store_fragment_bytes: "message_bytes (store_fragment p (Some ms)) = message_bytes ms @ p"
  by (simp add: store_fragment_def message_bytes_def split: message_storage.splits)

lemma assembles_fragment:
  assumes a: "assembles m a" and opcode: "opcode = (if m = None then 2 else 0)"
    and len: "length (begun m) + length p \<le> MAX_WEBSOCKET_MESSAGE_LEN"
  shows "\<exists>a'. push_fragment opcode fin p a = (a', None) \<and>
    (if fin then \<exists>a'' ms. take_complete a' = (a'', Some ms) \<and> message_bytes ms = begun m @ p \<and> assembles None a''
     else take_complete a' = (a', None) \<and> assembles (Some (begun m @ p)) a')"
proof (cases m)
  case None
  with a opcode len show ?thesis
    by (auto simp: assembles_def begun_def push_fragment_def take_complete_def acc_len_def store_fragment_def message_bytes_def)
next
  case (Some bs)
  with a obtain ms where ms: "storage a = Some ms" "message_bytes ms = bs" "acc_len a = length bs" "acc_opcode a = Some 2" "\<not> complete a"
    by (auto simp: assembles_def)
  define a' where "a' = a\<lparr>storage := Some (store_fragment p (Some ms)), complete := fin\<rparr>"
  have push: "push_fragment opcode fin p a = (a', None)"
    using ms opcode len Some by (simp add: push_fragment_def a'_def begun_def)
  have "acc_len a' = length bs + length p"
    using ms by (auto simp: a'_def acc_len_def store_fragment_def split: message_storage.splits)
  with push ms Some show ?thesis
    by (auto simp: a'_def take_complete_def assembles_def begun_def store_fragment_bytes)
qed

text \<open>The state of the reader between two turns.\<close>

definition at_stream :: "byte list \<Rightarrow> byte list option \<Rightarrow> (byte \<times> byte list) list \<Rightarrow> mqtt_ws \<Rightarrow> bool" where
  "at_stream bytes m cs st = (flowed st = bytes \<and> chunks_ok st \<and> assembles m (assembler st) \<and> controls st = cs)"

definition prompt :: "bool \<Rightarrow> byte list \<Rightarrow> mqtt_ws \<Rightarrow> bool" where
  "prompt coalesce buffer st =
     (held_back st = [] \<or> websocket_buffer_contains_complete_frame buffer \<or> coalesce \<and> 2 \<le> pending_messages st)"

lemma flush_at:
  assumes "at_stream bytes m cs st"
  shows "\<exists>st'. flush_mqtt_websocket_inbound (\<lambda>_. True) st = (st', True) \<and> at_stream bytes m cs st' \<and> held_back st' = []"
  using flush_flows [of st] assms by (auto simp: at_stream_def)

lemma counters_at [simp]: "at_stream bytes m cs (st\<lparr>pending_messages := n\<rparr>) = at_stream bytes m cs st"
  by (simp add: at_stream_def)

lemma wait_at:
  assumes "at_stream bytes m cs st"
  shows "\<exists>st'. mqtt_wait coalesce (\<lambda>_. True) buffer late st = (st', True) \<and> at_stream bytes m cs st'
    \<and> (prompt coalesce buffer st \<and> late \<and> \<not> websocket_buffer_contains_complete_frame buffer \<longrightarrow> held_back st' = [])"
proof -
  define st0 where "st0 = (if held_back st = [] then st\<lparr>pending_messages := 0\<rparr> else st)"
  have at0: "at_stream bytes m cs st0" using assms by (simp add: st0_def)
  from flush_at [OF at0] obtain sf where sf: "flush_mqtt_websocket_inbound (\<lambda>_. True) st0 = (sf, True)" "at_stream bytes m cs sf" "held_back sf = []"
    by blast
  then show ?thesis unfolding mqtt_wait_def st0_def [symmetric] Let_def
    using at0 by (auto simp: prompt_def st0_def split: if_splits)
qed

lemma data_at:
  assumes at: "at_stream bytes m cs st" and opcode: "opcode = (if m = None then 2 else 0)"
    and len: "length (begun m) + length p \<le> MAX_WEBSOCKET_MESSAGE_LEN"
  shows "\<exists>st'. mqtt_data coalesce (\<lambda>_. True) True opcode fin p st = (st', None)
    \<and> at_stream (bytes @ (if fin then begun m @ p else [])) (if fin then None else Some (begun m @ p)) cs st'"
proof -
  have not1: "opcode \<noteq> 1" using opcode by simp
  from assembles_fragment [OF _ opcode len, of "assembler st" fin] at obtain a' where
    push: "push_fragment opcode fin p (assembler st) = (a', None)"
    and got: "if fin then \<exists>a'' ms. take_complete a' = (a'', Some ms) \<and> message_bytes ms = begun m @ p \<and> assembles None a''
      else take_complete a' = (a', None) \<and> assembles (Some (begun m @ p)) a'"
    by (auto simp: at_stream_def)
  show ?thesis
  proof (cases fin)
    case True
    with got obtain a'' ms where ms: "take_complete a' = (a'', Some ms)" "message_bytes ms = begun m @ p" "assembles None a''" by auto
    obtain s1 where "mqtt_segments (\<lambda>_. True) (message_segments_of ms) (st\<lparr>assembler := a''\<rparr>) = (s1, True)"
      "flowed s1 = flowed st @ message_bytes ms" "chunks_ok s1" "assembler s1 = a''" "controls s1 = controls st"
      using segments_flow [of "st\<lparr>assembler := a''\<rparr>" "message_segments_of ms"] at by (auto simp: message_segments_bytes at_stream_def)
    with True ms push not1 at show ?thesis by (auto simp: mqtt_data_def Let_def at_stream_def)
  next
    case False
    with got push not1 at show ?thesis by (auto simp: mqtt_data_def at_stream_def)
  qed
qed

text \<open>A frame of a well-formed sequence is read, and takes the stream on.\<close>

lemma frame_at:
  assumes at: "at_stream bytes m cs st" and ok: "binary_frames m ((opcode, fin, p) # frs)"
  shows "\<exists>frame st'. classify_ws opcode fin p = Inr frame \<and> mqtt_frame coalesce (\<lambda>_. True) True frame st = (st', None)
    \<and> at_stream (bytes @ completes m (opcode, fin, p)) (begun_after m (opcode, fin, p)) (cs @ pongs [(opcode, fin, p)]) st'"
proof -
  consider (ping) "opcode = 9" | (pong) "opcode = 0xA" | (data) "opcode \<noteq> 9" "opcode \<noteq> 0xA" by blast
  then show ?thesis
  proof cases
    case ping
    with at have "at_stream bytes m (cs @ [(0xA, p)]) (send_control True 0xA p st)"
      by (simp add: at_stream_def) (simp add: send_control_def)
    with ping show ?thesis by (simp add: classify_ws_def mqtt_frame_def pongs_def completes_def begun_after_def)
  next
    case pong
    with at show ?thesis by (simp add: classify_ws_def mqtt_frame_def pongs_def completes_def begun_after_def)
  next
    case data
    with ok have op: "opcode = (if m = None then 2 else 0)" and len: "length (begun m) + length p \<le> MAX_WEBSOCKET_MESSAGE_LEN" by auto
    have cl: "classify_ws opcode fin p = Inr (Ws_Data opcode fin p)" using op by (auto simp: classify_ws_def split: if_splits)
    from data_at [OF at op len, of coalesce fin] cl data show ?thesis
      by (auto simp: mqtt_frame_def completes_def begun_after_def pongs_def)
  qed
qed

lemma arrived_at:
  assumes at: "at_stream bytes m cs st" and ok: "binary_frames m ((opcode, fin, p) # frs)"
  obtains st' where "mqtt_arrived coalesce (\<lambda>_. True) True buffer (classify_ws opcode fin p) st = (st', None)"
    "at_stream (bytes @ completes m (opcode, fin, p)) (begun_after m (opcode, fin, p)) (cs @ pongs [(opcode, fin, p)]) st'"
    "prompt coalesce buffer st'"
proof -
  obtain sf where fl: "flush_mqtt_websocket_inbound (\<lambda>_. True) st = (sf, True)" "at_stream bytes m cs sf" using flush_at [OF at] by blast
  obtain frame where cl: "classify_ws opcode fin p = Inr frame" using frame_at [OF at ok] by blast
  define st2 where "st2 = (if continue_binary frame then st else sf)"
  have at2: "at_stream bytes m cs st2" using fl at by (simp add: st2_def)
  have second: "(if continue_binary frame then (st, True) else flush_mqtt_websocket_inbound (\<lambda>_. True) st) = (st2, True)"
    by (simp add: st2_def fl)
  from frame_at [OF at2 ok, of coalesce] cl obtain st3 where st3: "mqtt_frame coalesce (\<lambda>_. True) True frame st2 = (st3, None)"
    "at_stream (bytes @ completes m (opcode, fin, p)) (begun_after m (opcode, fin, p)) (cs @ pongs [(opcode, fin, p)]) st3" by auto
  from flush_at [OF st3(2)] obtain st4 where st4: "flush_mqtt_websocket_inbound (\<lambda>_. True) st3 = (st4, True)"
    "at_stream (bytes @ completes m (opcode, fin, p)) (begun_after m (opcode, fin, p)) (cs @ pongs [(opcode, fin, p)]) st4"
    "held_back st4 = []" by blast
  show thesis
  proof (cases "\<not> websocket_buffer_contains_complete_frame buffer \<and> (\<not> coalesce \<or> pending_messages st3 < 2)")
    case True
    with that [of st4] st4 st3(1) cl second show thesis by (simp add: mqtt_arrived_def or_break_def prompt_def)
  next
    case False
    with that [of st3] st3 cl second show thesis by (auto simp: mqtt_arrived_def or_break_def prompt_def)
  qed
qed

section \<open>The reader on the bytes of a connection\<close>

context byte_source
begin

lemma buffered_source:
  assumes c: "0 < cap"
  shows "byte_source (buf_read cap pull) coming"
proof
  fix n r assume n: "(0::nat) < n" and some: "coming r \<noteq> []"
  show "\<exists>r' b bs. buf_read cap pull n r = (r', Inr (b # bs)) \<and> coming r = (b # bs) @ coming r' \<and> length (b # bs) \<le> n"
  proof (cases "br_buffer r = [] \<and> n \<ge> cap")
    case True
    with pull_data [OF n, of "br_inner r"] some show ?thesis by (auto simp: buf_read_def coming_def)
  next
    case False
    obtain r' b bs where f: "fill_buf cap pull r = (r', Inr (b # bs))" "br_buffer r' = b # bs" "coming r' = coming r"
      using fill_buf_data [OF c some] by blast
    obtain k where k: "n = Suc k" using n by (cases n) auto
    define l where "l = min n (length (b # bs))"
    have "take l (coming r') = take n (b # bs)" using take_append [of l "b # bs"] f(2) by (auto simp: coming_def l_def min_def)
    moreover have "coming (consume l r') = drop l (coming r')" using f(2) by (simp add: coming_consume l_def)
    ultimately have "coming r = take n (b # bs) @ coming (consume (min n (length (b # bs))) r')"
      using f(3) append_take_drop_id [of l "coming r'"] by (simp only: l_def)
    moreover have "buf_read cap pull n r = (consume (min n (length (b # bs))) r', Inr (take n (b # bs)))"
      using False f(1) by (auto simp: buf_read_def)
    ultimately show ?thesis by (simp add: k)
  qed
next
  fix n r assume n: "(0::nat) < n" and none: "coming r = []"
  show "\<exists>r'. coming r' = [] \<and> (buf_read cap pull n r = (r', Inr []) \<or> (\<exists>e. buf_read cap pull n r = (r', Inl e)))"
  proof (cases "br_buffer r = [] \<and> n \<ge> cap")
    case True
    with pull_end [OF n, of "br_inner r"] none show ?thesis by (auto simp: buf_read_def coming_def)
  next
    case False
    obtain r' where r': "coming r' = []" "fill_buf cap pull r = (r', Inr []) \<or> (\<exists>e. fill_buf cap pull r = (r', Inl e))"
      using fill_buf_end [OF c none] by blast
    moreover have "consume 0 r' = r'" by (simp add: consume_def)
    ultimately show ?thesis using False by (auto simp: buf_read_def)
  qed
qed

lemma turn_at:
  assumes at: "at_stream bytes m cs st" and ok: "binary_frames m ((opcode, fin, p) # frs)"
    and key: "length k = 4" and wire: "coming r = websocket_frame_bytes opcode fin (Some k) p @ tail"
  obtains r' st' where "mqtt_turn pull coalesce (\<lambda>_. True) True late (r, st) = ((r', st'), None)" "coming r' = tail"
    "at_stream (bytes @ completes m (opcode, fin, p)) (begun_after m (opcode, fin, p)) (cs @ pongs [(opcode, fin, p)]) st'"
    "prompt coalesce (br_buffer r') st'"
proof -
  obtain st1 where st1: "mqtt_wait coalesce (\<lambda>_. True) (br_buffer r) late st = (st1, True)" "at_stream bytes m cs st1"
    using wait_at [OF at] by blast
  note acc = binary_acceptable [OF ok]
  have ahead: "0 < MQTT_READ_AHEAD" by (simp add: MQTT_READ_AHEAD_def)
  obtain r' where
    r': "read_websocket_frame_mode (buf_read MQTT_READ_AHEAD pull) True r = (r', classify_ws opcode fin p)" "coming r' = tail"
    using byte_source.read_websocket_frame_bytes [OF buffered_source [OF ahead] acc _ wire] key by auto
  from st1(2) ok show thesis
  proof (rule arrived_at [where coalesce = coalesce and buffer = "br_buffer r'"])
    fix st' assume arr: "mqtt_arrived coalesce (\<lambda>_. True) True (br_buffer r') (classify_ws opcode fin p) st1 = (st', None)"
      and at': "at_stream (bytes @ completes m (opcode, fin, p)) (begun_after m (opcode, fin, p)) (cs @ pongs [(opcode, fin, p)]) st'"
      and pr: "prompt coalesce (br_buffer r') st'"
    have "mqtt_turn pull coalesce (\<lambda>_. True) True late (r, st) = ((r', st'), None)" by (simp add: mqtt_turn_def st1(1) r'(1) arr)
    then show thesis using r'(2) at' pr by (rule that)
  qed
qed

lemma reader_at:
  assumes "encoded masked frs bs" and "masked" and "binary_frames m frs" and "at_stream bytes m cs st" and "coming r = bs @ tail"
    and "length lates = length frs" and "prompt coalesce (br_buffer r) st"
  shows "\<exists>r' st' m'. mqtt_ws_reader pull coalesce (\<lambda>_. True) True lates (r, st) = ((r', st'), None) \<and> coming r' = tail
    \<and> at_stream (bytes @ binary_stream m frs) m' (cs @ pongs frs) st' \<and> prompt coalesce (br_buffer r') st'"
  using assms
proof (induction arbitrary: lates m bytes cs st r rule: encoded.induct)
  case none
  then show ?case by (auto simp: pongs_def)
next
  case (frame frs bs key opcode fin p)
  obtain k where key: "key = Some k" "length k = 4" using frame.hyps frame.prems(1) by auto
  obtain late lates' where lates: "lates = late # lates'" "length lates' = length frs" using frame.prems(5) by (cases lates) auto
  have wire: "coming r = websocket_frame_bytes opcode fin (Some k) p @ bs @ tail" using frame.prems(4) key by simp
  obtain r1 st1 where r1: "mqtt_turn pull coalesce (\<lambda>_. True) True late (r, st) = ((r1, st1), None)" "coming r1 = bs @ tail"
    and at1: "at_stream (bytes @ completes m (opcode, fin, p)) (begun_after m (opcode, fin, p)) (cs @ pongs [(opcode, fin, p)]) st1"
    and pr1: "prompt coalesce (br_buffer r1) st1"
    by (rule turn_at [OF frame.prems(3,2) key(2) wire, of coalesce late])
  have pongs: "pongs ((opcode, fin, p) # frs) = pongs [(opcode, fin, p)] @ pongs frs" by (simp add: pongs_def)
  from frame.IH [OF frame.prems(1) binary_Cons(2) [OF frame.prems(2)] at1 r1(2) lates(2) pr1] show ?case
    unfolding binary_Cons(1) pongs lates(1) by (simp add: r1(1))
qed

end

text \<open>What is held back when the reader waits: an incomplete frame in the buffer is seen as such.\<close>

lemma incomplete_frame:
  assumes "encoded True [fr] w" and "length (snd (snd fr)) < 2 ^ 64" and "begins buffer w" and "buffer \<noteq> w"
  shows "\<not> websocket_buffer_contains_complete_frame buffer"
proof -
  obtain opcode fin p where fr: "fr = (opcode, fin, p)" by (metis prod_cases3)
  from assms(1) obtain k where w: "w = websocket_frame_bytes opcode fin (Some k) p" "length k = 4"
    unfolding fr by (auto elim!: encoded_ConsE)
  obtain q where q: "w = buffer @ q" "q \<noteq> []" using assms(3,4) by (auto simp: begins_def)
  have "take (length buffer) (w @ []) = buffer" using q(1) by simp
  moreover have "length buffer < length w" using q by simp
  ultimately show ?thesis
    using contains_complete_frame [of "Some k" p w opcode fin "length buffer" "[]"] w assms(2) fr by simp
qed

text \<open>C29: MQTT over WebSocket delivers the byte stream of the binary messages, at once. Take any
  sequence of masked frames on the wire, binary messages of any fragmentation with pings and pongs
  between the fragments, delivered by the transport in chunks of any size. As long as the broker
  takes chunks and the writer takes control frames, the reader reads exactly these frames, one in
  a turn, and answers every ping; what it has passed on, followed by what it holds back, is the
  concatenation of the complete binary messages in order, in chunks of one byte to 64 KiB. It
  holds bytes back only while a whole frame is buffered, which it reads next, or, on platforms
  that coalesce, two messages until the read of the next frame has been pending for a turn of the
  scheduler: when the frame in its buffer is incomplete and that read is late, everything has
  been passed on. And when the loop ends in the next turn, for whatever reason, everything has
  been passed on.\<close>

theorem mqtt_ws_stream:
  assumes source: "byte_source pull rest" and wire: "encoded True frs bs" "br_buffer r @ rest (br_inner r) = bs @ tail"
    and frames: "binary_frames None frs" and turns: "length lates = length frs"
  shows "\<exists>r' st'. mqtt_ws_reader pull coalesce (\<lambda>_. True) True lates (r, mqtt_ws_new) = ((r', st'), None)
    \<and> br_buffer r' @ rest (br_inner r') = tail
    \<and> concat (passed_on st') @ held_back st' = binary_stream None frs \<and> controls st' = pongs frs
    \<and> (\<forall>c \<in> set (passed_on st'). c \<noteq> [] \<and> length c \<le> 65536)
    \<and> (\<forall>fr w. encoded True [fr] w \<and> length (snd (snd fr)) < 2 ^ 64 \<and> begins (br_buffer r') w \<and> br_buffer r' \<noteq> w \<longrightarrow>
        (held_back st' = [] \<or> coalesce \<and> 2 \<le> pending_messages st')
        \<and> held_back (fst (mqtt_wait coalesce (\<lambda>_. True) (br_buffer r') True st')) = [])
    \<and> (\<forall>late r'' st'' graceful. mqtt_ws_reader pull coalesce (\<lambda>_. True) True [late] (r', st') = ((r'', st''), Some graceful) \<longrightarrow>
        concat (passed_on st'') = binary_stream None frs \<and> held_back st'' = [])"
proof -
  note src = byte_source.coming_def [OF source]
  have new: "at_stream [] None [] mqtt_ws_new" "prompt coalesce buffer mqtt_ws_new" for buffer
    by (simp_all add: at_stream_def mqtt_ws_new_def flowed_def chunks_ok_def MQTT_CHUNK_def assembles_def new_accumulator_def prompt_def)
  obtain r' st' m' where run: "mqtt_ws_reader pull coalesce (\<lambda>_. True) True lates (r, mqtt_ws_new) = ((r', st'), None)"
    "br_buffer r' @ rest (br_inner r') = tail" and at: "at_stream (binary_stream None frs) m' (pongs frs) st'"
    and prompt: "prompt coalesce (br_buffer r') st'"
    using byte_source.reader_at [OF source wire(1) _ frames new(1) _ turns new(2), of r tail] wire(2) by (auto simp: src)
  have waiting: "(held_back st' = [] \<or> coalesce \<and> 2 \<le> pending_messages st')
        \<and> held_back (fst (mqtt_wait coalesce (\<lambda>_. True) (br_buffer r') True st')) = []"
    if "encoded True [fr] w" "length (snd (snd fr)) < 2 ^ 64" "begins (br_buffer r') w" "br_buffer r' \<noteq> w" for fr w
    using incomplete_frame [OF that] prompt wait_at [OF at, of coalesce "br_buffer r'" True] by (auto simp: prompt_def)
  have stops: "concat (passed_on st'') = binary_stream None frs \<and> held_back st'' = []"
    if stop: "mqtt_ws_reader pull coalesce (\<lambda>_. True) True [late] (r', st') = ((r'', st''), Some graceful)" for late r'' st'' graceful
  proof -
    obtain st1 where st1: "mqtt_wait coalesce (\<lambda>_. True) (br_buffer r') late st' = (st1, True)" "at_stream (binary_stream None frs) m' (pongs frs) st1"
      using wait_at [OF at] by blast
    obtain r1 result where rd: "read_websocket_frame_mode (buf_read MQTT_READ_AHEAD pull) True r' = (r1, result)" by fastforce
    obtain st2 stop2 where arr: "mqtt_arrived coalesce (\<lambda>_. True) True (br_buffer r1) result st1 = (st2, stop2)" by fastforce
    have "stop2 = Some graceful" "st'' = fst (flush_mqtt_websocket_inbound (\<lambda>_. True) st2)"
      using stop st1(1) rd arr by (auto simp: mqtt_turn_def split: option.splits)
    moreover from this arrived_stops [of st1] arr st1(2) have "flows [] st1 st2" by (simp add: at_stream_def)
    ultimately show ?thesis using flush_flows [of st2] st1(2) by (auto simp: flows_def at_stream_def flowed_def)
  qed
  show ?thesis
  proof (intro exI conjI allI impI)
    show "mqtt_ws_reader pull coalesce (\<lambda>_. True) True lates (r, mqtt_ws_new) = ((r', st'), None)" by (rule run(1))
  qed (use run at waiting stops in \<open>auto simp: at_stream_def flowed_def chunks_ok_def MQTT_CHUNK_def\<close>)
qed

text \<open>A message in two fragments with a ping between them, delivered in two chunks, of which the
  first ends within the first frame.\<close>

definition mqtt_demo_frames :: "(byte \<times> bool \<times> byte list) list" where
  "mqtt_demo_frames = [(2, False, [16, 1]), (9, True, []), (0, True, [2])]"

definition mqtt_demo_bytes :: "byte list" where
  "mqtt_demo_bytes = concat (map (\<lambda>(opcode, fin, payload). websocket_frame_bytes opcode fin (Some [1, 2, 3, 4]) payload) mqtt_demo_frames)"

definition mqtt_demo_wire :: wire where
  "mqtt_demo_wire = \<lparr>chunks = [take 5 mqtt_demo_bytes, drop 5 mqtt_demo_bytes], silent = True, sent = []\<rparr>"

lemma mqtt_demo_encoded: "encoded True mqtt_demo_frames mqtt_demo_bytes"
  unfolding mqtt_demo_frames_def mqtt_demo_bytes_def list.map concat.simps prod.case by (intro encoded.frame encoded.none) auto

theorem mqtt_ws_stream_witness:
  "\<exists>r' st'. mqtt_ws_reader wire_pull True (\<lambda>_. True) True [False, False, True] (buf_reader_new mqtt_demo_wire, mqtt_ws_new) = ((r', st'), None)
     \<and> concat (passed_on st') @ held_back st' = [16, 1, 2] \<and> controls st' = [(10, [])]
     \<and> held_back (fst (mqtt_wait True (\<lambda>_. True) (br_buffer r') True st')) = []"
proof -
  have start: "br_buffer (buf_reader_new mqtt_demo_wire) @ wire_rest (br_inner (buf_reader_new mqtt_demo_wire)) = mqtt_demo_bytes @ []"
    by (simp add: buf_reader_new_def wire_rest_def mqtt_demo_wire_def)
  have demo: "binary_frames None mqtt_demo_frames" "binary_stream None mqtt_demo_frames = [16, 1, 2]" "pongs mqtt_demo_frames = [(10, [])]"
    by (simp_all add: mqtt_demo_frames_def begun_def pongs_def MAX_WEBSOCKET_MESSAGE_LEN_def)
  have turns: "length [False, False, True] = length mqtt_demo_frames" by (simp add: mqtt_demo_frames_def)
  obtain w where w: "encoded True [(9, True, [])] w" "w \<noteq> []"
  proof
    show "encoded True [(9, True, [])] (websocket_frame_bytes 9 True (Some [1, 2, 3, 4]) [] @ [])"
      by (intro encoded.frame encoded.none) auto
  qed (simp add: websocket_frame_bytes_def websocket_frame_header_def)
  obtain r' st' where run: "mqtt_ws_reader wire_pull True (\<lambda>_. True) True [False, False, True] (buf_reader_new mqtt_demo_wire, mqtt_ws_new) = ((r', st'), None)"
    "concat (passed_on st') @ held_back st' = binary_stream None mqtt_demo_frames" "controls st' = pongs mqtt_demo_frames"
    and empty: "br_buffer r' @ wire_rest (br_inner r') = []"
    and held: "\<forall>fr w. encoded True [fr] w \<and> length (snd (snd fr)) < 2 ^ 64 \<and> begins (br_buffer r') w \<and> br_buffer r' \<noteq> w \<longrightarrow>
        (held_back st' = [] \<or> True \<and> 2 \<le> pending_messages st')
        \<and> held_back (fst (mqtt_wait True (\<lambda>_. True) (br_buffer r') True st')) = []"
    using mqtt_ws_stream [OF wire.byte_source_axioms mqtt_demo_encoded start demo(1) turns, of True] by (elim exE conjE) (rule that)
  have "held_back (fst (mqtt_wait True (\<lambda>_. True) (br_buffer r') True st')) = []"
    using held [rule_format, of "(9, True, [])" w] w empty by simp
  with run demo(2,3) show ?thesis by auto
qed

text \<open>The reader knows exactly when a whole frame is in its buffer. For every frame, whatever its
  opcode, mask and length, and however much of it and of what follows is buffered, the check
  succeeds if and only if the buffer holds the frame to its last byte; it never reads outside
  the buffer.\<close>

theorem buffered_frame_exact:
  assumes "\<forall>k. key = Some k \<longrightarrow> length k = 4" and "length payload < 2 ^ 64"
    and "w = websocket_frame_header opcode fin (length payload) key
      @ (case key of None \<Rightarrow> payload | Some k \<Rightarrow> xor_websocket_mask payload k 0)"
    and "n \<le> length (w @ tail)"
  shows "websocket_buffer_contains_complete_frame (take n (w @ tail)) \<longleftrightarrow> length w \<le> n"
proof -
  have "w = websocket_frame_bytes opcode fin key payload"
    using assms(3) by (cases key) (simp_all add: websocket_frame_bytes_def masked_payload_def xor_websocket_mask_bytewise)
  with contains_complete_frame assms(1,2,4) show ?thesis by blast
qed

theorem buffered_frame_exact_witness:
  "websocket_buffer_contains_complete_frame [0x82, 0x02, 7, 8] \<and> \<not> websocket_buffer_contains_complete_frame [0x82, 0x02, 7]"
  using buffered_frame_exact [of None "[7, 8]" "[0x82, 0x02, 7, 8]" 2 True 4 "[]"]
    buffered_frame_exact [of None "[7, 8]" "[0x82, 0x02, 7, 8]" 2 True 3 "[]"]
  by (simp add: websocket_frame_header_def)

end
