(* ===== verification/Http_Response.thy ===== *)
theory Http_Response
  imports Http_Request Outbound_Frames
begin

text \<open>
  Writing HTTP/1 responses (\<^verbatim>\<open>ct_core/src/protocol.rs\<close>, \<^verbatim>\<open>ct_core/src/lib.rs\<close>): the head with the
  fields that the code adds, bodies of known length and chunked bodies. A response is the bytes
  that are written; a sink takes them. The canonical reason phrases of the crate \<^verbatim>\<open>http\<close>, which
  only the chunked writer uses, are a parameter.
\<close>

section \<open>The head\<close>

abbreviation crlf :: "byte list" where "crlf \<equiv> [0x0D, 0x0A]"

definition http_reason_phrase :: "int \<Rightarrow> rstr" where
  "http_reason_phrase status =
     (case map_of
        [(100, ''Continue''), (101, ''Switching Protocols''), (200, ''OK''), (201, ''Created''), (202, ''Accepted''),
         (204, ''No Content''), (301, ''Moved Permanently''), (302, ''Found''), (304, ''Not Modified''),
         (400, ''Bad Request''), (401, ''Unauthorized''), (403, ''Forbidden''), (404, ''Not Found''),
         (405, ''Method Not Allowed''), (409, ''Conflict''), (413, ''Payload Too Large''),
         (415, ''Unsupported Media Type''), (422, ''Unprocessable Entity''), (426, ''Upgrade Required''),
         (429, ''Too Many Requests''), (500, ''Internal Server Error''), (501, ''Not Implemented''),
         (502, ''Bad Gateway''), (503, ''Service Unavailable''), (504, ''Gateway Timeout'')] status of
        Some reason \<Rightarrow> ascii reason
      | None \<Rightarrow> ascii ''OK'')"

text \<open>\<open>Display\<close> of a signed number.\<close>

definition show_int :: "int \<Rightarrow> rstr" where
  "show_int i = (if i < 0 then 0x2D # decimal (nat (- i)) else decimal (nat i))"

definition field_line :: "rstr \<times> rstr \<Rightarrow> byte list" where
  "field_line f = fst f @ ascii '': '' @ snd f @ crlf"

definition has_field :: "string \<Rightarrow> (rstr \<times> rstr) list \<Rightarrow> bool" where
  "has_field n hs = (\<exists>f \<in> set hs. eq_ignore_ascii_case (fst f) (ascii n))"

definition status_line :: "nat \<Rightarrow> int \<Rightarrow> rstr \<Rightarrow> byte list" where
  "status_line version status reason = ascii ''HTTP/1.'' @ decimal version @ [0x20] @ show_int status @ [0x20] @ reason @ crlf"

definition response_head :: "nat \<Rightarrow> int \<Rightarrow> (rstr \<times> rstr) list \<Rightarrow> nat \<Rightarrow> byte list" where
  "response_head version status headers body_len =
     status_line version status (http_reason_phrase status)
     @ concat (map field_line headers)
     @ (if has_field ''content-length'' headers then [] else ascii ''Content-Length: '' @ decimal body_len @ crlf)
     @ (if has_field ''connection'' headers then []
        else if version \<ge> 1 then ascii ''Connection: keep-alive'' @ crlf else ascii ''Connection: close'' @ crlf)
     @ crlf"

definition write_http_response_inner ::
  "'s sink \<Rightarrow> nat \<Rightarrow> int \<Rightarrow> (rstr \<times> rstr) list \<Rightarrow> byte list \<Rightarrow> 's \<Rightarrow> 's \<times> stream_error option" where
  "write_http_response_inner push version status headers body s =
     (case push (response_head version status headers (length body)) s of
        (s', Some e) \<Rightarrow> (s', Some e)
      | (s', None) \<Rightarrow> if body \<noteq> [] then push body s' else (s', None))"

definition write_http_response_shared ::
  "'s sink \<Rightarrow> ('s \<Rightarrow> 's \<times> stream_error option) \<Rightarrow> nat \<Rightarrow> int \<Rightarrow> (rstr \<times> rstr) list \<Rightarrow> byte list \<Rightarrow> 's \<Rightarrow> 's \<times> stream_error option" where
  "write_http_response_shared push flush version status headers body s =
     (case write_http_response_inner push version status headers body s of
        (s', Some e) \<Rightarrow> (s', Some e)
      | (s', None) \<Rightarrow> flush s')"

section \<open>Connections that stay open\<close>

definition header_has_token :: "rstr \<Rightarrow> string \<Rightarrow> bool" where
  "header_has_token v needle = (\<exists>token \<in> set (split_on 0x2C v). eq_ignore_ascii_case (trim token) (ascii needle))"

definition find_field :: "string \<Rightarrow> (rstr \<times> rstr) list \<Rightarrow> rstr option" where
  "find_field n hs = map_option snd (find (\<lambda>f. eq_ignore_ascii_case (fst f) (ascii n)) hs)"

definition should_keep_alive :: "nat \<Rightarrow> (rstr \<times> rstr) list \<Rightarrow> bool" where
  "should_keep_alive version headers =
     (case find_field ''connection'' headers of
        Some v \<Rightarrow> if version = 0 then header_has_token v ''keep-alive'' else \<not> header_has_token v ''close''
      | None \<Rightarrow> version \<noteq> 0)"

definition ensure_connection_header :: "bool \<Rightarrow> nat \<Rightarrow> (rstr \<times> rstr) list \<Rightarrow> (rstr \<times> rstr) list" where
  "ensure_connection_header keep_alive version headers =
     (if has_field ''connection'' headers then headers
      else if keep_alive \<and> version \<ge> 1 then headers @ [(ascii ''Connection'', ascii ''keep-alive'')]
      else headers @ [(ascii ''Connection'', ascii ''close'')])"

definition drop_field :: "string \<Rightarrow> (rstr \<times> rstr) list \<Rightarrow> (rstr \<times> rstr) list" where
  "drop_field n headers = filter (\<lambda>f. \<not> eq_ignore_ascii_case (fst f) (ascii n)) headers"

definition strip_content_length :: "(rstr \<times> rstr) list \<Rightarrow> (rstr \<times> rstr) list" where
  "strip_content_length headers = drop_field ''content-length'' headers"

definition ensure_chunked_transfer_encoding :: "(rstr \<times> rstr) list \<Rightarrow> (rstr \<times> rstr) list" where
  "ensure_chunked_transfer_encoding headers = drop_field ''transfer-encoding'' headers @ [(ascii ''Transfer-Encoding'', ascii ''chunked'')]"

section \<open>Chunked bodies\<close>

definition hex_digit :: "nat \<Rightarrow> byte" where
  "hex_digit d = (if d < 10 then of_nat (48 + d) else of_nat (55 + d))"

fun upper_hex :: "nat \<Rightarrow> rstr" where
  "upper_hex n = (if n < 16 then [hex_digit n] else upper_hex (n div 16) @ [hex_digit (n mod 16)])"

declare upper_hex.simps [simp del]

definition chunk_bytes :: "byte list \<Rightarrow> byte list" where
  "chunk_bytes bytes = upper_hex (length bytes) @ crlf @ bytes @ crlf"

text \<open>What the application feeds into a response stream; a stream that is dropped without its end
  is \<open>Stream_Closed\<close>.\<close>

datatype stream_frame = Chunk "byte list" | Stream_Finished | Stream_Closed

definition clamp_status :: "int \<Rightarrow> int" where
  "clamp_status status = max 100 (min 599 status)"

definition chunked_head :: "(int \<Rightarrow> rstr option) \<Rightarrow> nat \<Rightarrow> int \<Rightarrow> (rstr \<times> rstr) list \<Rightarrow> byte list" where
  "chunked_head canonical_reason version status headers =
     status_line version (clamp_status status) (case canonical_reason (clamp_status status) of Some r \<Rightarrow> r | None \<Rightarrow> [])
     @ concat (map field_line headers) @ crlf"

text \<open>The loop over the frames. When it flushes depends on the batch and on whether the next frame
  is already there (\<open>ready\<close>); flushing adds no bytes. The answer says whether the body was
  completed.\<close>

fun write_chunks ::
  "'s sink \<Rightarrow> ('s \<Rightarrow> 's \<times> stream_error option) \<Rightarrow> nat \<Rightarrow> nat \<Rightarrow> (stream_frame \<times> bool) list \<Rightarrow> 's \<Rightarrow> 's \<times> bool" where
  "write_chunks push flush batched_chunks batched_bytes [] s = (s, False)"
| "write_chunks push flush batched_chunks batched_bytes ((Chunk bytes, ready) # frames) s =
     (if bytes = [] then write_chunks push flush batched_chunks batched_bytes frames s
      else case push (upper_hex (length bytes) @ crlf) s of
          (s1, Some e) \<Rightarrow> (s1, False)
        | (s1, None) \<Rightarrow>
            (case push bytes s1 of
               (s2, Some e) \<Rightarrow> (s2, False)
             | (s2, None) \<Rightarrow>
                 (case push crlf s2 of
                    (s3, Some e) \<Rightarrow> (s3, False)
                  | (s3, None) \<Rightarrow>
                      if batched_chunks + 1 \<ge> 64 \<or> batched_bytes + length bytes \<ge> 16 * 1024 \<or> \<not> ready then
                        (case flush s3 of
                           (s4, Some e) \<Rightarrow> (s4, False)
                         | (s4, None) \<Rightarrow> write_chunks push flush 0 0 frames s4)
                      else write_chunks push flush (batched_chunks + 1) (batched_bytes + length bytes) frames s3)))"
| "write_chunks push flush batched_chunks batched_bytes ((Stream_Finished, ready) # frames) s =
     (case push (ascii ''0'' @ crlf @ crlf) s of
        (s1, Some e) \<Rightarrow> (s1, False)
      | (s1, None) \<Rightarrow> (case flush s1 of (s2, Some e) \<Rightarrow> (s2, False) | (s2, None) \<Rightarrow> (s2, True)))"
| "write_chunks push flush batched_chunks batched_bytes ((Stream_Closed, ready) # frames) s = (s, False)"

definition write_http1_chunked_response ::
  "(int \<Rightarrow> rstr option) \<Rightarrow> 's sink \<Rightarrow> ('s \<Rightarrow> 's \<times> stream_error option) \<Rightarrow> nat \<Rightarrow> int \<Rightarrow> (rstr \<times> rstr) list \<Rightarrow>
   (stream_frame \<times> bool) list \<Rightarrow> 's \<Rightarrow> 's \<times> bool" where
  "write_http1_chunked_response canonical_reason push flush version status headers frames s =
     (case push (chunked_head canonical_reason version status headers) s of
        (s1, Some e) \<Rightarrow> (s1, False)
      | (s1, None) \<Rightarrow>
          (case flush s1 of
             (s2, Some e) \<Rightarrow> (s2, False)
           | (s2, None) \<Rightarrow> write_chunks push flush 0 0 frames s2))"

section \<open>Heads end where they end\<close>

definition no_cr :: "byte list \<Rightarrow> bool" where
  "no_cr l = (0x0D \<notin> set l)"

lemma find_skip: "no_cr l \<Longrightarrow> find_header_terminator (l @ zs) = map_option ((+) (length l)) (find_header_terminator zs)"
proof (induction l)
  case Nil
  show ?case by (cases "find_header_terminator zs") simp_all
next
  case (Cons b l)
  then show ?case by (auto simp: no_cr_def option.map_comp comp_def)
qed

lemma find_after_line: "no_cr l \<Longrightarrow> l \<noteq> [] \<Longrightarrow> find_header_terminator (crlf @ l @ zs) = map_option ((+) 2) (find_header_terminator (l @ zs))"
  by (cases l) (auto simp: no_cr_def option.map_comp comp_def)

lemma find_lines:
  "ls \<noteq> [] \<Longrightarrow> \<forall>l \<in> set ls. no_cr l \<and> l \<noteq> [] \<Longrightarrow>
   find_header_terminator (concat (map (\<lambda>l. l @ crlf) ls) @ crlf @ zs) = Some (length (concat (map (\<lambda>l. l @ crlf) ls)) - 2)"
proof (induction ls rule: list_nonempty_induct)
  case (single l)
  then show ?case using find_skip [of l "crlf @ crlf @ zs"] by simp
next
  case (cons l ls)
  obtain k ks where ks: "ls = k # ks" using cons.hyps by (cases ls) auto
  let ?rest = "concat (map (\<lambda>l. l @ crlf) ls) @ crlf @ zs"
  have r: "?rest = k @ (crlf @ concat (map (\<lambda>l. l @ crlf) ks) @ crlf @ zs)" by (simp add: ks)
  have "find_header_terminator (crlf @ ?rest) = map_option ((+) 2) (find_header_terminator ?rest)"
    unfolding r using cons.prems ks by (intro find_after_line) auto
  moreover have "find_header_terminator ?rest = Some (length (concat (map (\<lambda>l. l @ crlf) ls)) - 2)" using cons by simp
  moreover have "find_header_terminator (l @ crlf @ ?rest) = map_option ((+) (length l)) (find_header_terminator (crlf @ ?rest))"
    using cons.prems by (intro find_skip) simp
  moreover have "2 \<le> length (concat (map (\<lambda>l. l @ crlf) ls))" by (simp add: ks)
  ultimately show ?case by simp
qed

lemma no_cr_append [simp]: "no_cr (a @ b) \<longleftrightarrow> no_cr a \<and> no_cr b"
  by (auto simp: no_cr_def)

lemma no_cr_Cons [simp]: "no_cr (a # b) \<longleftrightarrow> a \<noteq> 0x0D \<and> no_cr b"
  by (auto simp: no_cr_def)

lemma no_cr_Nil [simp]: "no_cr []"
  by (simp add: no_cr_def)

lemma no_cr_decimal [simp]: "no_cr (decimal n)"
proof -
  have "\<not> is_ascii_digit 0x0D" by (simp add: is_ascii_digit_def)
  with decimal_digits [of "0x0D" n] show ?thesis unfolding no_cr_def by blast
qed

lemma no_cr_show_int [simp]: "no_cr (show_int i)"
  by (simp add: show_int_def)

lemma no_cr_reason [simp]: "no_cr (http_reason_phrase status)"
  by (simp add: http_reason_phrase_def ascii_def)

definition head_lines :: "nat \<Rightarrow> int \<Rightarrow> (rstr \<times> rstr) list \<Rightarrow> nat \<Rightarrow> byte list list" where
  "head_lines version status headers n =
     (ascii ''HTTP/1.'' @ decimal version @ [0x20] @ show_int status @ [0x20] @ http_reason_phrase status)
     # map (\<lambda>f. fst f @ ascii '': '' @ snd f) headers
     @ (if has_field ''content-length'' headers then [] else [ascii ''Content-Length: '' @ decimal n])
     @ (if has_field ''connection'' headers then []
        else if version \<ge> 1 then [ascii ''Connection: keep-alive''] else [ascii ''Connection: close''])"

lemma response_head_lines: "response_head version status headers n = concat (map (\<lambda>l. l @ crlf) (head_lines version status headers n)) @ crlf"
  by (simp add: response_head_def head_lines_def status_line_def field_line_def [abs_def] comp_def)

definition clean_fields :: "(rstr \<times> rstr) list \<Rightarrow> bool" where
  "clean_fields headers = (\<forall>f \<in> set headers. no_cr (fst f) \<and> no_cr (snd f))"

lemma head_lines_clean: "clean_fields headers \<Longrightarrow> \<forall>l \<in> set (head_lines version status headers n). no_cr l \<and> l \<noteq> []"
  by (auto simp: head_lines_def clean_fields_def ascii_def)

lemma response_head_ends:
  assumes "clean_fields headers"
  shows "find_header_terminator (response_head version status headers n @ body) = Some (length (response_head version status headers n) - 4)"
proof -
  have "head_lines version status headers n \<noteq> []" by (simp add: head_lines_def)
  from find_lines [OF this head_lines_clean [OF assms], of body] show ?thesis by (simp add: response_head_lines)
qed

section \<open>What a sink has taken\<close>

locale plain_writer =
  fixes push :: "'s sink" and flush :: "'s \<Rightarrow> 's \<times> stream_error option" and out :: "'s \<Rightarrow> byte list"
  assumes pushed: "push bs s = (s', None) \<Longrightarrow> out s' = out s @ bs"
    and flushed: "flush s = (s', r) \<Longrightarrow> out s' = out s"
begin

lemma write_inner_out:
  "write_http_response_inner push version status headers body s = (s', None) \<Longrightarrow>
   out s' = out s @ response_head version status headers (length body) @ body"
  by (auto simp: write_http_response_inner_def split: prod.splits option.splits if_splits dest!: pushed)

lemma write_shared_out:
  "write_http_response_shared push flush version status headers body s = (s', None) \<Longrightarrow>
   out s' = out s @ response_head version status headers (length body) @ body"
  by (auto simp: write_http_response_shared_def split: prod.splits option.splits dest!: write_inner_out flushed)

end

sublocale byte_sink \<subseteq> plain_writer push flush out
  by unfold_locales (auto dest: push_ok flush_out)

text \<open>C35: A response is delimited by its own head. When no name or value that the application supplies
  contains a carriage return, the first empty line of what has been written ends the head,
  whatever the body holds; the bytes after it are the body, and the length that the head
  announces is the length of the body unless the application has set its own.\<close>

theorem response_delimited:
  assumes "plain_writer push flush out" and "clean_fields headers"
    and "write_http_response_shared push flush version status headers body s = (s', None)"
  shows "\<exists>head. out s' = out s @ head @ body \<and> find_header_terminator (head @ body) = Some (length head - 4)
    \<and> (\<not> has_field ''content-length'' headers \<longrightarrow> (\<exists>a b. head = a @ ascii ''Content-Length: '' @ decimal (length body) @ crlf @ b))"
proof (intro exI conjI impI)
  let ?head = "response_head version status headers (length body)"
  show "out s' = out s @ ?head @ body" using plain_writer.write_shared_out [OF assms(1,3)] .
  show "find_header_terminator (?head @ body) = Some (length ?head - 4)" using response_head_ends [OF assms(2)] .
  show "?head = (status_line version status (http_reason_phrase status) @ concat (map field_line headers))
      @ ascii ''Content-Length: '' @ decimal (length body) @ crlf
      @ (if has_field ''connection'' headers then []
         else if version \<ge> 1 then ascii ''Connection: keep-alive'' @ crlf else ascii ''Connection: close'' @ crlf) @ crlf"
    if "\<not> has_field ''content-length'' headers" using that by (simp add: response_head_def)
qed

section \<open>Chunked bodies are decoded to what the application wrote\<close>

text \<open>The reference: a decoder of chunked bodies without extensions and trailers. It gives the body and
  what follows it.\<close>

definition hex_value :: "byte \<Rightarrow> nat option" where
  "hex_value b = digit_of 16 b"

definition chunk_size :: "rstr \<Rightarrow> nat" where
  "chunk_size ds = foldl (\<lambda>n b. 16 * n + the (hex_value b)) 0 ds"

function decode_chunked :: "byte list \<Rightarrow> (byte list \<times> byte list) option" where
  "decode_chunked zs =
     (let ds = takeWhile (\<lambda>b. hex_value b \<noteq> None) zs; t = drop (length ds) zs; n = chunk_size ds in
      if ds = [] \<or> take 2 t \<noteq> crlf then None
      else let d = drop 2 t in
        if length d < n + 2 \<or> take 2 (drop n d) \<noteq> crlf then None
        else if n = 0 then Some ([], drop 2 d)
        else map_option (\<lambda>(b, r). (take n d @ b, r)) (decode_chunked (drop (n + 2) d)))"
  by pat_completeness auto
termination
  by (relation "measure length") (auto simp: Let_def)

declare decode_chunked.simps [simp del]

lemma hex_digit_value: "d < 16 \<Longrightarrow> hex_value (hex_digit d) = Some d"
proof -
  assume "d < 16"
  then have "d \<le> 15" by simp
  from le_15_cases [OF this] show ?thesis
    by (elim disjE) (simp_all add: hex_value_def digit_of_def hex_digit_def is_ascii_digit_def)
qed

lemma upper_hex_digits: "\<forall>b \<in> set (upper_hex n). hex_value b \<noteq> None"
proof (induction n rule: upper_hex.induct)
  case (1 n)
  then show ?case by (subst upper_hex.simps) (auto simp: hex_digit_value)
qed

lemma upper_hex_size: "chunk_size (upper_hex n) = n"
proof (induction n rule: upper_hex.induct)
  case (1 n)
  show ?case
  proof (cases "n < 16")
    case True
    then show ?thesis by (subst upper_hex.simps) (simp add: chunk_size_def hex_digit_value)
  next
    case False
    with 1 [OF False] show ?thesis by (subst upper_hex.simps) (simp add: chunk_size_def hex_digit_value)
  qed
qed

lemma upper_hex_not_Nil [simp]: "upper_hex n \<noteq> []"
  by (subst upper_hex.simps) simp

lemma take_hex: "takeWhile (\<lambda>b. hex_value b \<noteq> None) (upper_hex n @ 0x0D # zs) = upper_hex n"
proof -
  have "hex_value 0x0D = None" by (simp add: hex_value_def digit_of_def is_ascii_digit_def)
  with upper_hex_digits [of n] show ?thesis by (subst takeWhile_append2) auto
qed

lemma decode_sized:
  "decode_chunked (upper_hex (length data) @ 0x0D # 0x0A # data @ 0x0D # 0x0A # zs) =
     (if data = [] then Some ([], zs) else map_option (\<lambda>(b, r). (data @ b, r)) (decode_chunked zs))"
  unfolding decode_chunked.simps [of "upper_hex (length data) @ _"] take_hex Let_def upper_hex_size by simp

lemma decode_chunk:
  "bytes \<noteq> [] \<Longrightarrow> decode_chunked (chunk_bytes bytes @ zs) = map_option (\<lambda>(b, r). (bytes @ b, r)) (decode_chunked zs)"
  using decode_sized [of bytes zs] by (simp add: chunk_bytes_def)

lemma decode_end: "decode_chunked (ascii ''0'' @ crlf @ crlf @ zs) = Some ([], zs)"
  using decode_sized [of "[]" zs] by (simp add: ascii_def upper_hex.simps [of 0] hex_digit_def)

text \<open>What the application has written before it finished the stream, if it did.\<close>

fun stream_body :: "(stream_frame \<times> bool) list \<Rightarrow> byte list option" where
  "stream_body [] = None"
| "stream_body ((Chunk bytes, ready) # frames) = map_option ((@) bytes) (stream_body frames)"
| "stream_body ((Stream_Finished, ready) # frames) = Some []"
| "stream_body ((Stream_Closed, ready) # frames) = None"

context plain_writer
begin

lemma write_chunks_out:
  "write_chunks push flush c n frames s = (s', True) \<Longrightarrow>
   \<exists>coded body. out s' = out s @ coded \<and> stream_body frames = Some body \<and> (\<forall>tail. decode_chunked (coded @ tail) = Some (body, tail))"
proof (induction frames arbitrary: c n s)
  case (Cons x frames)
  obtain fr ready where x: "x = (fr, ready)" by fastforce
  show ?case
  proof (cases fr)
    case (Chunk bytes)
    show ?thesis
    proof (cases "bytes = []")
      case True
      with Cons Chunk x show ?thesis by simp
    next
      case False
      with Cons.prems Chunk x obtain s1 s2 s3 where
        w: "push (upper_hex (length bytes) @ crlf) s = (s1, None)" "push bytes s1 = (s2, None)" "push crlf s2 = (s3, None)"
        by (auto split: prod.splits option.splits)
      then have "\<exists>c' n' s4. write_chunks push flush c' n' frames s4 = (s', True) \<and> out s4 = out s3"
        using Cons.prems Chunk x False flushed by (fastforce split: prod.splits option.splits if_splits)
      with Cons.IH obtain s4 coded body where IH: "out s4 = out s3" "out s' = out s4 @ coded" "stream_body frames = Some body"
        "\<forall>tail. decode_chunked (coded @ tail) = Some (body, tail)" by blast
      have "out s' = out s @ chunk_bytes bytes @ coded" using pushed [OF w(1)] pushed [OF w(2)] pushed [OF w(3)] IH(1,2) by (simp add: chunk_bytes_def)
      moreover have "decode_chunked ((chunk_bytes bytes @ coded) @ tail) = Some (bytes @ body, tail)" for tail
        using decode_chunk [OF False, of "coded @ tail"] IH(4) by simp
      ultimately show ?thesis using IH(3) Chunk x by auto
    qed
  next
    case Stream_Finished
    with Cons.prems x obtain s1 where w: "push (ascii ''0'' @ crlf @ crlf) s = (s1, None)" "flush s1 = (s', None)"
      by (auto split: prod.splits option.splits)
    then have "out s' = out s @ ascii ''0'' @ crlf @ crlf" using pushed [OF w(1)] flushed [OF w(2)] by simp
    then show ?thesis using Stream_Finished x decode_end by auto
  next
    case Stream_Closed
    with Cons.prems x show ?thesis by simp
  qed
qed simp

end

text \<open>C34: A streamed response arrives as the application wrote it. Whatever chunks the application feeds
  into the stream, empty ones included, and wherever the writer flushes, a response that is reported
  as complete consists of the head and of bytes that decode to exactly the chunks in order, and the
  decoder stands at the first byte after them. A stream that the application abandons is never
  reported as complete, so its response is never ended as if it were.\<close>

theorem chunked_response_roundtrip:
  assumes "plain_writer push flush out"
    and "write_http1_chunked_response canonical_reason push flush version status headers frames s = (s', True)"
  shows "\<exists>coded body. out s' = out s @ chunked_head canonical_reason version status headers @ coded
    \<and> stream_body frames = Some body \<and> (\<forall>tail. decode_chunked (coded @ tail) = Some (body, tail))"
proof -
  from assms(2) obtain s1 s2 where w: "push (chunked_head canonical_reason version status headers) s = (s1, None)" "flush s1 = (s2, None)"
    "write_chunks push flush 0 0 frames s2 = (s', True)"
    by (auto simp: write_http1_chunked_response_def split: prod.splits option.splits)
  from plain_writer.write_chunks_out [OF assms(1) w(3)] plain_writer.pushed [OF assms(1) w(1)] plain_writer.flushed [OF assms(1) w(2)]
  show ?thesis by auto
qed

section \<open>Concrete responses\<close>

definition demo_sink :: pipe where "demo_sink = \<lparr>accepted = [], room = 1000\<rparr>"

lemma write_shared_room:
  "length (response_head version status headers (length body)) + length body \<le> room s \<Longrightarrow>
   \<exists>s'. write_http_response_shared pipe_push pipe_flush version status headers body s = (s', None)"
  by (auto simp: write_http_response_shared_def write_http_response_inner_def pipe_push_def pipe_flush_def)

theorem response_delimited_witness:
  "\<exists>s'. write_http_response_shared pipe_push pipe_flush 1 404 [(ascii ''Connection'', ascii ''close'')] (ascii ''gone'') demo_sink = (s', None)
    \<and> (\<exists>head. accepted s' = head @ ascii ''gone'' \<and> find_header_terminator (head @ ascii ''gone'') = Some (length head - 4))"
proof -
  have "length (response_head 1 404 [(ascii ''Connection'', ascii ''close'')] (length (ascii ''gone''))) + length (ascii ''gone'') \<le> 1000"
    by (simp add: response_head_def status_line_def http_reason_phrase_def show_int_def field_line_def has_field_def ascii_def
        eq_ignore_ascii_case_def to_ascii_lowercase_def ascii_simps decimal.simps)
  then obtain s' where w: "write_http_response_shared pipe_push pipe_flush 1 404 [(ascii ''Connection'', ascii ''close'')] (ascii ''gone'') demo_sink = (s', None)"
    using write_shared_room [where s = demo_sink] by (fastforce simp: demo_sink_def)
  have clean: "clean_fields [(ascii ''Connection'', ascii ''close'')]" by (simp add: clean_fields_def ascii_def)
  from response_delimited [OF pipe.plain_writer_axioms clean w] w show ?thesis by (auto simp: demo_sink_def)
qed

lemma pipe_push_room:
  "length bs \<le> room s \<Longrightarrow> pipe_push bs s = (s\<lparr>accepted := accepted s @ bs, room := room s - length bs\<rparr>, None)"
  by (simp add: pipe_push_def)

lemma chunked_demo:
  "length head < 100 \<Longrightarrow> \<exists>s1 s2. pipe_push head demo_sink = (s1, None) \<and> pipe_flush s1 = (s2, None) \<and> 900 \<le> room s2"
  by (simp add: pipe_push_def pipe_flush_def demo_sink_def)

lemma chunks_demo:
  assumes "900 \<le> room s"
  shows "\<exists>s'. write_chunks pipe_push pipe_flush 0 0 [(Chunk [0x68, 0x69], True), (Chunk [], True), (Stream_Finished, False)] s = (s', True)"
proof -
  have h: "upper_hex (Suc (Suc 0)) = [0x32]" by (simp add: upper_hex.simps [of "Suc (Suc 0)"] hex_digit_def)
  from assms obtain k where "room s = k + 900" using le_Suc_ex by (metis add.commute)
  with h show ?thesis by (simp add: pipe_push_room pipe_flush_def ascii_def)
qed

theorem chunked_response_roundtrip_witness:
  "\<exists>s'. write_http1_chunked_response (\<lambda>_. None) pipe_push pipe_flush 1 200 [] [(Chunk [0x68, 0x69], True), (Chunk [], True), (Stream_Finished, False)] demo_sink = (s', True)
    \<and> (\<exists>coded. accepted s' = chunked_head (\<lambda>_. None) 1 200 [] @ coded \<and> decode_chunked coded = Some ([0x68, 0x69], []))"
proof -
  have "length (chunked_head (\<lambda>_. None) 1 200 []) < 100"
    by (simp add: chunked_head_def status_line_def clamp_status_def show_int_def ascii_def decimal.simps)
  with chunked_demo obtain s1 s2 where s2: "pipe_push (chunked_head (\<lambda>_. None) 1 200 []) demo_sink = (s1, None)"
    "pipe_flush s1 = (s2, None)" "900 \<le> room s2" by blast
  with chunks_demo obtain s' where "write_chunks pipe_push pipe_flush 0 0 [(Chunk [0x68, 0x69], True), (Chunk [], True), (Stream_Finished, False)] s2 = (s', True)"
    by blast
  with s2 have w: "write_http1_chunked_response (\<lambda>_. None) pipe_push pipe_flush 1 200 []
      [(Chunk [0x68, 0x69], True), (Chunk [], True), (Stream_Finished, False)] demo_sink = (s', True)"
    unfolding write_http1_chunked_response_def by (simp del: write_chunks.simps)
  from chunked_response_roundtrip [OF pipe.plain_writer_axioms w] obtain coded where
    "accepted s' = chunked_head (\<lambda>_. None) 1 200 [] @ coded" "\<forall>tail. decode_chunked (coded @ tail) = Some ([0x68, 0x69], tail)"
    by (auto simp: demo_sink_def)
  with w show ?thesis by (metis append.right_neutral)
qed

end
