(* ===== verification/Protocol_Negotiation.thy ===== *)
theory Protocol_Negotiation
  imports Http_Response
begin

text \<open>
  Protocol detection for an accepted connection (\<^verbatim>\<open>ct_core/src/protocol.rs\<close>): four bytes are looked at
  and pushed back, and they select HTTP/2, HTTP/1 with an optional WebSocket upgrade, MQTT or
  RawSocket, each only when the listener offers it. A negotiated connection is paired with the
  stream it continues on. The whole handshake runs under a timer, which is the answer \<open>Elapsed\<close>
  of the transport.
\<close>

unbundle bit_operations_syntax

section \<open>Data\<close>

definition HTTP2_PREFACE :: "byte list" where
  "HTTP2_PREFACE = ascii ''PRI * HTTP/2.0'' @ crlf @ crlf @ ascii ''SM'' @ crlf @ crlf"

definition HTTP_NOT_IMPLEMENTED_RESPONSE :: "byte list" where
  "HTTP_NOT_IMPLEMENTED_RESPONSE =
     ascii ''HTTP/1.1 501 Not Implemented'' @ crlf @ ascii ''Content-Length: 0'' @ crlf @ ascii ''Connection: close'' @ crlf @ crlf"

definition HTTP_NOT_FOUND_RESPONSE :: "byte list" where
  "HTTP_NOT_FOUND_RESPONSE =
     ascii ''HTTP/1.1 404 Not Found'' @ crlf @ ascii ''Content-Length: 0'' @ crlf @ ascii ''Connection: close'' @ crlf @ crlf"

record http_handshake =
  hs_request :: http_request
  hs_body :: http_body_phase
  prefetched :: "byte list"

record websocket_handshake =
  ws_http :: http_handshake
  sec_websocket_key :: rstr
  sec_websocket_protocols :: "rstr list"
  sec_websocket_version :: "rstr option"
  sec_websocket_extensions :: "rstr list"

record http2_handshake =
  h2_protocol :: rstr
  h2_alpn :: "rstr option"
  listener_protocols :: "rstr list"

datatype negotiated_connection =
    Raw_Socket negotiated_session
  | Mqtt_Connect byte
  | Web_Socket websocket_handshake
  | Http_One http_handshake
  | Http_Two http2_handshake

record http_reject_response =
  reject_version :: nat
  reject_status :: int
  reject_headers :: "(rstr \<times> rstr) list"
  reject_detail :: rstr

datatype http_handshake_error = Hs_Negotiation negotiation_error | Hs_Reject http_reject_response

definition status_only :: "nat \<Rightarrow> int \<Rightarrow> rstr \<Rightarrow> http_reject_response" where
  "status_only version status detail =
     \<lparr>reject_version = version, reject_status = status,
      reject_headers = [(ascii ''Connection'', ascii ''close'')], reject_detail = detail\<rparr>"

definition body_len :: "http_handshake \<Rightarrow> nat" where
  "body_len h =
     (case hs_body h of
        Buffered bytes \<Rightarrow> length bytes
      | Finished \<Rightarrow> 0
      | Needs_Streaming prefix remaining_len \<Rightarrow> length prefix + remaining_len)"

text \<open>The stream of an HTTP handshake goes on with what was prefetched; \<open>into_stream\<close> of the plain
  handshake, used only by the fixed answers, drops it.\<close>

definition websocket_into_stream :: "websocket_handshake \<Rightarrow> 's io_stream \<Rightarrow> 's io_stream" where
  "websocket_into_stream w s = buffer_front (prefetched (ws_http w)) s"

section \<open>Fields of a request\<close>

definition header_value :: "http_request \<Rightarrow> string \<Rightarrow> rstr option" where
  "header_value request name = find_field name (req_headers request)"

definition parse_comma_separated :: "rstr \<Rightarrow> rstr list" where
  "parse_comma_separated v = filter (\<lambda>part. part \<noteq> []) (map trim (split_on 0x2C v))"

definition header_equals :: "http_request \<Rightarrow> string \<Rightarrow> string \<Rightarrow> bool" where
  "header_equals request name expected =
     (case header_value request name of Some v \<Rightarrow> eq_ignore_ascii_case v (ascii expected) | None \<Rightarrow> False)"

definition header_contains_token :: "http_request \<Rightarrow> string \<Rightarrow> string \<Rightarrow> bool" where
  "header_contains_token request name token =
     (case header_value request name of
        Some v \<Rightarrow> (\<exists>segment \<in> set (split_on 0x2C v). eq_ignore_ascii_case (trim segment) (ascii token))
      | None \<Rightarrow> False)"

definition try_into_websocket :: "http_handshake \<Rightarrow> websocket_handshake option" where
  "try_into_websocket h =
     (let request = hs_request h in
      if \<not> eq_ignore_ascii_case (req_method request) (ascii ''GET'') then None
      else if \<not> header_equals request ''Upgrade'' ''websocket'' then None
      else if \<not> header_contains_token request ''Connection'' ''upgrade'' then None
      else case header_value request ''Sec-WebSocket-Key'' of
          None \<Rightarrow> None
        | Some key \<Rightarrow>
            if body_len h > 0 then None
            else Some \<lparr>ws_http = h, sec_websocket_key = trim key,
              sec_websocket_protocols =
                (case header_value request ''Sec-WebSocket-Protocol'' of Some v \<Rightarrow> parse_comma_separated v | None \<Rightarrow> []),
              sec_websocket_version = map_option trim (header_value request ''Sec-WebSocket-Version''),
              sec_websocket_extensions =
                (case header_value request ''Sec-WebSocket-Extensions'' of Some v \<Rightarrow> parse_comma_separated v | None \<Rightarrow> [])\<rparr>)"

definition split_http_target :: "rstr \<Rightarrow> rstr \<times> rstr option" where
  "split_http_target target =
     (let path = takeWhile (\<lambda>b. b \<noteq> 0x3F) target; rest = drop (length path) target
      in if length rest > 1 then (path, Some (drop 1 rest)) else (path, None))"

definition resolve_http_route :: "unicode \<Rightarrow> http_handshake \<Rightarrow> endpoint_runtime \<Rightarrow> http_route_match" where
  "resolve_http_route u h e =
     (let request = hs_request h; (path, query) = split_http_target (req_target request);
          normalised_path = (if path = [] then ascii ''/'' else path)
      in match_http_route u e normalised_path query (req_method request) (ascii ''http/1.'' @ decimal (req_version request)))"

section \<open>Fixed answers\<close>

text \<open>The stream is shut down after the answer, best effort.\<close>

definition send_http_response :: "'s sink \<Rightarrow> byte list \<Rightarrow> 's \<Rightarrow> 's \<times> stream_error option" where
  "send_http_response push payload s = push payload s"

definition respond_http_not_implemented :: "'s sink \<Rightarrow> 's \<Rightarrow> 's \<times> stream_error option" where
  "respond_http_not_implemented push s = send_http_response push HTTP_NOT_IMPLEMENTED_RESPONSE s"

definition respond_http_not_found :: "'s sink \<Rightarrow> 's \<Rightarrow> 's \<times> stream_error option" where
  "respond_http_not_found push s = send_http_response push HTTP_NOT_FOUND_RESPONSE s"

definition respond_http_method_not_allowed :: "'s sink \<Rightarrow> rstr list \<Rightarrow> 's \<Rightarrow> 's \<times> stream_error option" where
  "respond_http_method_not_allowed push methods s =
     send_http_response push
       (ascii ''HTTP/1.1 405 Method Not Allowed'' @ crlf @ ascii ''Allow: '' @ join (ascii '', '') methods @ crlf
        @ ascii ''Content-Length: 0'' @ crlf @ ascii ''Connection: close'' @ crlf @ crlf) s"

definition send_http_status_only_response ::
  "'s sink \<Rightarrow> nat \<Rightarrow> int \<Rightarrow> (rstr \<times> rstr) list \<Rightarrow> 's \<Rightarrow> 's \<times> stream_error option" where
  "send_http_status_only_response push version status headers s = write_http_response_inner push version status headers [] s"

definition write_http_response ::
  "'s sink \<Rightarrow> nat \<Rightarrow> int \<Rightarrow> (rstr \<times> rstr) list \<Rightarrow> byte list \<Rightarrow> 's \<Rightarrow> 's \<times> stream_error option" where
  "write_http_response push version status headers body s = write_http_response_inner push version status headers body s"

section \<open>The HTTP handshake\<close>

definition bad_requests :: "rstr list" where
  "bad_requests = map ascii
     [''invalid Content-Length value'', ''conflicting Content-Length headers'', ''invalid Transfer-Encoding framing'',
      ''invalid HTTP request'', ''missing HTTP method'', ''missing request target'', ''incomplete HTTP headers'',
      ''HTTP headers exceed supported limit'']"

definition classify_http_error_status :: "rstr \<Rightarrow> int option" where
  "classify_http_error_status detail =
     (if contains detail (ascii ''exceeds configured limit'') then Some 413
      else if detail = ascii ''chunked transfer encoding is not supported'' then Some 501
      else if detail \<in> set bad_requests then Some 400
      else None)"

definition classify_http_handshake_error :: "nat option \<Rightarrow> negotiation_error \<Rightarrow> http_handshake_error" where
  "classify_http_handshake_error v err =
     (let version = (case v of Some n \<Rightarrow> n | None \<Rightarrow> 1) in
      case err of
        Protocol detail \<Rightarrow>
          (case classify_http_error_status detail of
             Some status \<Rightarrow> Hs_Reject (status_only version status detail)
           | None \<Rightarrow> Hs_Negotiation (Protocol detail))
      | other \<Rightarrow> Hs_Negotiation other)"

definition parse_http_handshake ::
  "(byte list \<Rightarrow> parse_status) \<Rightarrow> 's source \<Rightarrow> endpoint_runtime \<Rightarrow> 's io_stream \<Rightarrow>
   's io_stream \<times> (http_handshake_error + http_handshake)" where
  "parse_http_handshake httparse pull e s =
     (case read_http_request_with_options httparse 1024 (poll_read pull) e False HTTP1_INLINE_BODY_LIMIT (buf_reader_new s) of
        (r, Inl err) \<Rightarrow> (br_inner r, Inl (classify_http_handshake_error None err))
      | (r, Inr None) \<Rightarrow>
          (br_inner r, Inl (Hs_Negotiation (Protocol (ascii ''connection closed before HTTP headers completed''))))
      | (r, Inr (Some (request, body_phase))) \<Rightarrow>
          (case body_phase of
             Buffered bytes \<Rightarrow>
               if length bytes > body_limit e then
                 (br_inner r, Inl (Hs_Reject (status_only (req_version request) 413 (body_too_long (length bytes) (body_limit e)))))
               else (br_inner r, Inr \<lparr>hs_request = request, hs_body = body_phase, prefetched = br_buffer r\<rparr>)
           | _ \<Rightarrow> (br_inner r, Inr \<lparr>hs_request = request, hs_body = body_phase, prefetched = br_buffer r\<rparr>)))"

section \<open>The MQTT preamble\<close>

definition mqtt_io :: "stream_error \<Rightarrow> negotiation_error" where
  "mqtt_io e = (if e = Elapsed then Timeout else Io e)"

text \<open>The remaining length: seven bits per byte, the lowest first. The shifts stay below 28 bits.\<close>

function read_remaining_length ::
  "'s source \<Rightarrow> nat \<Rightarrow> nat \<Rightarrow> byte list \<Rightarrow> 's \<Rightarrow> 's \<times> (negotiation_error + nat \<times> byte list)" where
  "read_remaining_length pull length_bytes remaining prefix s =
     (case read_exact pull 1 s of
        (s', Inl e) \<Rightarrow> (s', Inl (mqtt_io e))
      | (s', Inr buf) \<Rightarrow>
          let digit = buf ! 0;
              prefix' = prefix @ [digit];
              remaining' = remaining OR push_bit (7 * length_bytes) (unat (digit AND 0x7F));
              length_bytes' = length_bytes + 1
          in if digit AND 0x80 = 0 then
               if length_bytes' > 1 \<and> digit = 0 then (s', Inl (Protocol (ascii ''non-minimal MQTT remaining length'')))
               else (s', Inr (remaining', prefix'))
             else if length_bytes' \<ge> 4 then (s', Inl (Protocol (ascii ''MQTT remaining length exceeds four bytes'')))
             else read_remaining_length pull length_bytes' remaining' prefix' s')"
  by pat_completeness auto
termination
  by (relation "measure (\<lambda>(_, length_bytes, _). 4 - length_bytes)") auto

declare read_remaining_length.simps [simp del]

definition mqtt_name :: "byte list" where "mqtt_name = [0x00, 0x04] @ ascii ''MQTT''"

definition check_connect :: "nat \<Rightarrow> byte list \<Rightarrow> negotiation_error + byte" where
  "check_connect remaining variable_header =
     (if take 6 variable_header \<noteq> mqtt_name then Inl (Protocol (ascii ''invalid MQTT CONNECT protocol name''))
      else let version = variable_header ! 6 in
        if version \<noteq> 4 \<and> version \<noteq> 5 then Inl (Protocol (ascii ''unsupported MQTT protocol level''))
        else if remaining < (if version = 5 then 13 else 12)
          then Inl (Protocol (ascii ''MQTT CONNECT remaining length is too short''))
        else Inr version)"

definition negotiate_mqtt_connect :: "'s source \<Rightarrow> 's io_stream \<Rightarrow> 's io_stream \<times> (negotiation_error + byte)" where
  "negotiate_mqtt_connect pull s =
     (case read_exact (poll_read pull) 1 s of
        (s1, Inl e) \<Rightarrow> (s1, Inl (mqtt_io e))
      | (s1, Inr first) \<Rightarrow>
          (case read_remaining_length (poll_read pull) 0 0 first s1 of
             (s2, Inl err) \<Rightarrow> (s2, Inl err)
           | (s2, Inr (remaining, prefix)) \<Rightarrow>
               if remaining < 10 then (s2, Inl (Protocol (ascii ''MQTT CONNECT remaining length is too short'')))
               else case read_exact (poll_read pull) 10 s2 of
                   (s3, Inl e) \<Rightarrow> (s3, Inl (mqtt_io e))
                 | (s3, Inr variable_header) \<Rightarrow>
                     (case check_connect remaining variable_header of
                        Inl err \<Rightarrow> (s3, Inl err)
                      | Inr version \<Rightarrow> (buffer_front (prefix @ variable_header) s3, Inr version))))"

section \<open>Detection\<close>

definition peek_handshake :: "'s source \<Rightarrow> 's io_stream \<Rightarrow> 's io_stream \<times> (negotiation_error + byte list)" where
  "peek_handshake pull s =
     (case read_exact (poll_read pull) 4 s of
        (s', Inl Elapsed) \<Rightarrow> (s', Inl Timeout)
      | (s', Inl Unexpected_Eof) \<Rightarrow> (s', Inl (Protocol (ascii ''connection closed before protocol negotiation'')))
      | (s', Inl e) \<Rightarrow> (s', Inl (Io e))
      | (s', Inr buf) \<Rightarrow> (buffer_front buf s', Inr buf))"

definition looks_like_http :: "byte list \<Rightarrow> bool" where
  "looks_like_http buf =
     (buf \<in> set (map ascii [''GET '', ''POST'', ''HEAD'', ''PUT '', ''DELE'', ''OPTI'', ''PATC'', ''HTTP'', ''PRI '']))"

definition negotiate_http2 :: "rstr option \<Rightarrow> endpoint_runtime \<Rightarrow> http2_handshake" where
  "negotiate_http2 negotiated_alpn e =
     \<lparr>h2_protocol = ascii ''http/2'',
      h2_alpn =
        (case negotiated_alpn of
           Some a \<Rightarrow> Some a
         | None \<Rightarrow> (case http e of Some settings \<Rightarrow> find (\<lambda>token. token = ascii ''h2'') (alpn settings) | None \<Rightarrow> None)),
      listener_protocols = map protocol_identifier (protocols e)\<rparr>"

definition negotiate_http1 :: "endpoint_runtime \<Rightarrow> http_handshake \<Rightarrow> negotiation_error + negotiated_connection" where
  "negotiate_http1 e h =
     (if supports_protocol e Websocket then
        (case try_into_websocket h of
           Some w \<Rightarrow> Inr (Web_Socket w)
         | None \<Rightarrow>
             if supports_protocol e Http then Inr (Http_One h)
             else Inl (Protocol (ascii ''websocket handshake rejected and HTTP disabled'')))
      else if supports_protocol e Http then Inr (Http_One h)
      else Inl (Protocol (ascii ''HTTP protocol disabled for listener'')))"

definition rawsocket_error :: "handshake_error \<Rightarrow> negotiation_error" where
  "rawsocket_error err = (case err of Handshake_Protocol msg \<Rightarrow> Protocol (ascii msg) | Handshake_Io e \<Rightarrow> Io e)"

definition negotiate_connection ::
  "(byte list \<Rightarrow> parse_status) \<Rightarrow> ('s io_stream \<Rightarrow> rstr option) \<Rightarrow> ('s io_stream \<Rightarrow> stream_error + bool) \<Rightarrow>
   's source \<Rightarrow> 's sink \<Rightarrow> endpoint_runtime \<Rightarrow> 's io_stream \<Rightarrow> 's io_stream \<times> (negotiation_error + negotiated_connection)" where
  "negotiate_connection httparse negotiated_alpn clone_fd pull push e s =
     (case peek_handshake pull s of
        (s', Inl err) \<Rightarrow> (s', Inl err)
      | (s', Inr prefix) \<Rightarrow>
          if looks_like_http prefix then
            if prefix = take 4 HTTP2_PREFACE then
              if \<not> supports_protocol e Http2 then (s', Inl (Protocol (ascii ''http2 protocol disabled for listener'')))
              else (s', Inr (Http_Two (negotiate_http2 (negotiated_alpn s') e)))
            else if \<not> supports_protocol e Http \<and> \<not> supports_protocol e Websocket then
              (s', Inl (Protocol (ascii ''http/websocket protocols disabled for listener'')))
            else
              (case parse_http_handshake httparse pull e s' of
                 (s'', Inl (Hs_Negotiation err)) \<Rightarrow> (s'', Inl err)
               | (s'', Inl (Hs_Reject r)) \<Rightarrow>
                   (case send_http_status_only_response (poll_write push) (reject_version r) (reject_status r) (reject_headers r) s'' of
                      (s3, Some err) \<Rightarrow> (s3, Inl (Io err))
                    | (s3, None) \<Rightarrow> (s3, Inl (Protocol (reject_detail r))))
               | (s'', Inr h) \<Rightarrow> (s'', negotiate_http1 e h))
          else if prefix ! 0 = 0x10 then
            if \<not> supports_protocol e Mqtt then (s', Inl (Protocol (ascii ''mqtt protocol disabled for listener'')))
            else (case negotiate_mqtt_connect pull s' of
                    (s'', Inl err) \<Rightarrow> (s'', Inl err)
                  | (s'', Inr version) \<Rightarrow> (s'', Inr (Mqtt_Connect version)))
          else if prefix ! 0 = RAWSOCKET_MAGIC then
            if \<not> supports_protocol e Rawsocket then (s', Inl (Protocol (ascii ''rawsocket protocol disabled for listener'')))
            else (case negotiate pull push clone_fd (endpoint_runtime.max_rawsocket_size_exponent e) s' of
                    (s'', Inl err) \<Rightarrow> (s'', Inl (rawsocket_error err))
                  | (s'', Inr session) \<Rightarrow> (s'', Inr (Raw_Socket session)))
          else (s', Inl (Protocol (ascii ''unsupported listener handshake preamble''))))"

section \<open>MQTT lengths\<close>

text \<open>The reference: the shortest encoding of a length, seven bits per byte, the lowest first.\<close>

fun encode_remaining_length :: "nat \<Rightarrow> byte list" where
  "encode_remaining_length n =
     (if n < 128 then [of_nat n] else of_nat (128 + n mod 128) # encode_remaining_length (n div 128))"

declare encode_remaining_length.simps [simp del]

lemma digit_bits: "unat (d AND 0x7F) = unat d mod 128" "d AND 0x80 = 0 \<longleftrightarrow> unat d < 128" for d :: byte
proof -
  have "d AND 0x7F = take_bit 7 d" by (simp add: take_bit_eq_mask mask_eq_exp_minus_1)
  then show "unat (d AND 0x7F) = unat d mod 128" by (simp add: take_bit_eq_mod unat_mod)
  have "d AND 0x80 = 0 \<longleftrightarrow> \<not> bit d 7" using and_exp_eq_0_iff_not_bit [of d 7] by simp
  also have "\<dots> \<longleftrightarrow> \<not> bit (unat d) 7" by (simp add: bit_unsigned_iff)
  also have "\<dots> \<longleftrightarrow> \<not> odd (unat d div 128)" using bit_iff_odd [of "unat d" 7] by simp
  also have "unat d div 128 = (if unat d < 128 then 0 else 1)" using unat_byte_lt [of d] by (auto intro!: div_nat_eqI)
  then have "\<not> odd (unat d div 128) \<longleftrightarrow> unat d < 128" by simp
  finally show "d AND 0x80 = 0 \<longleftrightarrow> unat d < 128" .
qed

lemma or_shifted: "r < 128 ^ k \<Longrightarrow> r OR push_bit (7 * k) m = r + 128 ^ k * m" for r m :: nat
proof -
  have k: "128 ^ k = (2 :: nat) ^ (7 * k)" by (simp add: power_mult)
  assume "r < 128 ^ k"
  then have r: "r = take_bit (7 * k) r" by (simp add: take_bit_eq_mod k)
  have "r AND push_bit (7 * k) m = 0" by (subst r) (auto simp: bit_eq_iff bit_simps)
  then have "r + push_bit (7 * k) m = r OR push_bit (7 * k) m" by (rule disjunctive_add_eq_or)
  then show ?thesis by (simp only: k push_bit_eq_mult mult.commute)
qed

lemma encode_digit:
  "unat d < 128 \<Longrightarrow> encode_remaining_length (unat d) = [d]"
  "128 \<le> unat d \<Longrightarrow> 0 < n \<Longrightarrow> encode_remaining_length (unat d mod 128 + 128 * n) = d # encode_remaining_length n" for d :: byte
proof -
  show "unat d < 128 \<Longrightarrow> encode_remaining_length (unat d) = [d]" by (simp add: encode_remaining_length.simps)
  assume d: "128 \<le> unat d" "0 < n"
  let ?m = "unat d mod 128 + 128 * n"
  have "unat d div 128 = 1" using unat_byte_lt [of d] d(1) by (intro div_nat_eqI) auto
  with div_mult_mod_eq [of "unat d" 128] have "128 + unat d mod 128 = unat d" by simp
  moreover have "?m mod 128 = unat d mod 128" "?m div 128 = n" "\<not> ?m < 128" using d(2) by simp_all
  ultimately show "encode_remaining_length ?m = d # encode_remaining_length n"
    unfolding encode_remaining_length.simps [of ?m] by simp
qed

lemma encode_first:
  obtains d where "n < 128" "encode_remaining_length n = [d]" "unat d = n"
  | d where "128 \<le> n" "encode_remaining_length n = d # encode_remaining_length (n div 128)" "128 \<le> unat d" "unat d mod 128 = n mod 128"
proof (cases "n < 128")
  case True
  with that(1) [of "of_nat n"] show thesis by (simp add: encode_remaining_length.simps [of n])
next
  case False
  have "128 + n mod 128 < 256" by simp
  with False that(2) [of "of_nat (128 + n mod 128)"] show thesis
    by (simp add: encode_remaining_length.simps [of n] del: of_nat_add of_nat_numeral)
qed

context byte_source
begin

lemma read_exact_Inr:
  "read_exact pull n s = (s', Inr bs) \<Longrightarrow> n \<le> length (rest s) \<and> bs = take n (rest s) \<and> rest s' = drop n (rest s)"
  using read_exact_enough [of n s] read_exact_short [of s n] by (cases "n \<le> length (rest s)") auto

lemma read_byte:
  "read_exact pull 1 s = (s', Inr bs) \<Longrightarrow> \<exists>d. bs = [d] \<and> rest s = d # rest s'"
  using read_exact_Inr [of 1 s s' bs] by (cases "rest s") auto

lemma read_length_sound:
  assumes "read_remaining_length pull k r prefix s = (s', Inr (m, prefix'))" "k < 4" "r < 128 ^ k"
  shows "\<exists>n. m = r + 128 ^ k * n \<and> n < 128 ^ (4 - k) \<and> (0 < k \<longrightarrow> 0 < n)
    \<and> prefix' = prefix @ encode_remaining_length n \<and> rest s = encode_remaining_length n @ rest s'"
  using assms
proof (induction "4 - k" arbitrary: k r prefix s)
  case (Suc j)
  from Suc.prems(1) obtain s1 bs where "read_exact pull 1 s = (s1, Inr bs)"
    by (subst (asm) read_remaining_length.simps) (auto split: prod.splits sum.splits)
  with read_byte obtain d where d: "read_exact pull 1 s = (s1, Inr [d])" "rest s = d # rest s1" by blast
  have bits: "r OR push_bit (7 * k) (unat (d AND 0x7F)) = r + 128 ^ k * (unat d mod 128)"
    using or_shifted [OF Suc.prems(3)] by (simp add: digit_bits)
  note step = Suc.prems(1) [unfolded read_remaining_length.simps [of pull k r prefix s], unfolded d(1), simplified]
  show ?case
  proof (cases "unat d < 128")
    case True
    with step have "s' = s1" "m = r + 128 ^ k * unat d" "prefix' = prefix @ [d]" "0 < k \<longrightarrow> d \<noteq> 0"
      using or_shifted [OF Suc.prems(3), of "unat d"] by (auto simp: Let_def digit_bits split: if_splits)
    moreover have "unat d < 128 ^ (4 - k)" using True Suc.prems(2) self_le_power [of "128 :: nat" "4 - k"] by fastforce
    ultimately show ?thesis using d(2) encode_digit(1) [OF True] by (auto simp: unat_gt_0)
  next
    case False
    with step have k: "k + 1 < 4"
      and rec: "read_remaining_length pull (k + 1) (r + 128 ^ k * (unat d mod 128)) (prefix @ [d]) s1 = (s', Inr (m, prefix'))"
      by (auto simp: Let_def bits [simplified digit_bits] digit_bits split: if_splits)
    have "unat d mod 128 \<le> 127" by simp
    then have "r + 128 ^ k * (unat d mod 128) < 128 ^ k + 128 ^ k * 127" using Suc.prems(3) by (intro add_less_le_mono mult_le_mono) auto
    then have "r + 128 ^ k * (unat d mod 128) < 128 ^ (k + 1)" by simp
    moreover have "j = 4 - (k + 1)" using Suc.hyps(2) by simp
    ultimately obtain n where
      n: "m = r + 128 ^ k * (unat d mod 128) + 128 ^ (k + 1) * n" "n < 128 ^ (4 - (k + 1))" "0 < n"
        "prefix' = (prefix @ [d]) @ encode_remaining_length n" "rest s1 = encode_remaining_length n @ rest s'"
      using Suc.hyps(1) [OF _ rec k] by auto
    have "4 - k = Suc (4 - (k + 1))" using k by simp
    then have "unat d mod 128 + 128 * n < 128 ^ (4 - k)" using n(2) mod_less_divisor [of 128 "unat d"] by simp
    moreover have "m = r + 128 ^ k * (unat d mod 128 + 128 * n)" using n(1) by (simp add: algebra_simps)
    ultimately show ?thesis using n(3-) d(2) encode_digit(2) [of d n] False by (intro exI [of _ "unat d mod 128 + 128 * n"]) auto
  qed
qed simp

lemma read_length_complete:
  assumes "rest s = encode_remaining_length n @ tail" "k < 4" "r < 128 ^ k" "n < 128 ^ (4 - k)" "0 < k \<longrightarrow> 0 < n"
  shows "\<exists>s'. read_remaining_length pull k r prefix s = (s', Inr (r + 128 ^ k * n, prefix @ encode_remaining_length n)) \<and> rest s' = tail"
  using assms
proof (induction "4 - k" arbitrary: k r prefix s n)
  case (Suc j)
  obtain d ds where e: "encode_remaining_length n = d # ds" by (rule encode_first [of n]) auto
  with read_exact_enough [of 1 s] Suc.prems(1) obtain s1 where s1: "read_exact pull 1 s = (s1, Inr [d])" "rest s1 = ds @ tail" by auto
  have bits: "r OR push_bit (7 * k) (unat (d AND 0x7F)) = r + 128 ^ k * (unat d mod 128)"
    using or_shifted [OF Suc.prems(3)] by (simp add: digit_bits)
  show ?case
  proof (rule encode_first [of n])
    fix d' assume n: "n < 128" "encode_remaining_length n = [d']" "unat d' = n"
    with e have "d' = d" "ds = []" by auto
    with n s1 bits Suc.prems(5) show ?thesis by (subst read_remaining_length.simps) (auto simp: Let_def digit_bits unat_eq_0)
  next
    fix d' assume n: "128 \<le> n" "encode_remaining_length n = d' # encode_remaining_length (n div 128)" "128 \<le> unat d'" "unat d' mod 128 = n mod 128"
    with e have d': "d' = d" "ds = encode_remaining_length (n div 128)" by auto
    have "k \<noteq> 3" using Suc.prems(4) n(1) by auto
    with Suc.prems(2) have k: "k + 1 < 4" by simp
    let ?r = "r + 128 ^ k * (n mod 128)"
    have "n mod 128 \<le> 127" by simp
    then have "?r < 128 ^ k + 128 ^ k * 127" using Suc.prems(3) by (intro add_less_le_mono mult_le_mono) auto
    then have r: "?r < 128 ^ (k + 1)" by simp
    have "4 - k = Suc (4 - (k + 1))" using k by simp
    then have "n div 128 < 128 ^ (4 - (k + 1))" using Suc.prems(4) by (simp add: div_less_iff_less_mult mult.commute)
    moreover have "0 < n div 128" using n(1) by simp
    moreover have "j = 4 - (k + 1)" using Suc.hyps(2) by simp
    ultimately obtain s' where s': "read_remaining_length pull (k + 1) ?r (prefix @ [d]) s1
        = (s', Inr (?r + 128 ^ (k + 1) * (n div 128), (prefix @ [d]) @ encode_remaining_length (n div 128)))" "rest s' = tail"
      using Suc.hyps(1) [of "k + 1" s1 "n div 128" ?r "prefix @ [d]"] s1(2) d'(2) k r by blast
    have "?r + 128 ^ (k + 1) * (n div 128) = r + 128 ^ k * (n mod 128 + 128 * (n div 128))" by (simp only: algebra_simps power_add power_one_right)
    then have "?r + 128 ^ (k + 1) * (n div 128) = r + 128 ^ k * n" by simp
    moreover have "read_remaining_length pull k r prefix s = read_remaining_length pull (k + 1) ?r (prefix @ [d]) s1"
      using s1(1) bits n(3,4) k unfolding d'(1) by (subst read_remaining_length.simps) (auto simp: Let_def digit_bits)
    ultimately show ?thesis using s' e d'(2) by auto
  qed
qed simp

end

section \<open>The MQTT preamble\<close>

text \<open>A CONNECT packet as far as it is looked at: its type, the shortest encoding of a length that
  leaves room for the fields every CONNECT has, the protocol name, a version, and three bytes.\<close>

definition connect_preamble :: "byte \<Rightarrow> byte list \<Rightarrow> bool" where
  "connect_preamble version zs =
     (\<exists>first n flags tail. zs = first # encode_remaining_length n @ mqtt_name @ version # flags @ tail
        \<and> length flags = 3 \<and> n < 128 ^ 4 \<and> (version = 4 \<and> 12 \<le> n \<or> version = 5 \<and> 13 \<le> n))"

lemma check_connect_Inr:
  "length h = 10 \<Longrightarrow> check_connect n h = Inr version \<longleftrightarrow>
   (\<exists>flags. h = mqtt_name @ version # flags \<and> length flags = 3 \<and> (version = 4 \<and> 12 \<le> n \<or> version = 5 \<and> 13 \<le> n))"
proof
  assume h: "length h = 10" and "check_connect n h = Inr version"
  then have c: "take 6 h = mqtt_name" "h ! 6 = version" "version = 4 \<and> 12 \<le> n \<or> version = 5 \<and> 13 \<le> n"
    by (auto simp: check_connect_def Let_def split: if_splits)
  have "h = take 6 h @ h ! 6 # drop 7 h" using h id_take_nth_drop [of 6 h] by simp
  with c h show "\<exists>flags. h = mqtt_name @ version # flags \<and> length flags = 3 \<and> (version = 4 \<and> 12 \<le> n \<or> version = 5 \<and> 13 \<le> n)"
    by (intro exI [of _ "drop 7 h"]) simp
next
  assume "\<exists>flags. h = mqtt_name @ version # flags \<and> length flags = 3 \<and> (version = 4 \<and> 12 \<le> n \<or> version = 5 \<and> 13 \<le> n)"
  then show "check_connect n h = Inr version" by (auto simp: check_connect_def mqtt_name_def ascii_def)
qed

context transport
begin

lemma mqtt_connect_sound:
  assumes "negotiate_mqtt_connect pull s = (s', Inr version)"
  shows "connect_preamble version (pending rest s) \<and> pending rest s' = pending rest s"
proof -
  from assms obtain s1 first s2 n prefix s3 h where steps: "read_exact (poll_read pull) 1 s = (s1, Inr first)"
      "read_remaining_length (poll_read pull) 0 0 first s1 = (s2, Inr (n, prefix))"
      "read_exact (poll_read pull) 10 s2 = (s3, Inr h)" "check_connect n h = Inr version" "s' = buffer_front (prefix @ h) s3"
    by (auto simp: negotiate_mqtt_connect_def split: prod.splits sum.splits if_splits)
  from stream.read_byte [OF steps(1)] obtain b where b: "first = [b]" "pending rest s = b # pending rest s1" by blast
  from stream.read_length_sound [OF steps(2)] have n: "n < 128 ^ 4" "prefix = first @ encode_remaining_length n"
    "pending rest s1 = encode_remaining_length n @ pending rest s2" by auto
  from stream.read_exact_Inr [OF steps(3)] have h: "length h = 10" "pending rest s2 = h @ pending rest s3" by auto
  from steps(4) check_connect_Inr [OF h(1), of n version] obtain flags where
    f: "h = mqtt_name @ version # flags" "length flags = 3" "version = 4 \<and> 12 \<le> n \<or> version = 5 \<and> 13 \<le> n" by blast
  have "pending rest s = b # encode_remaining_length n @ mqtt_name @ version # flags @ pending rest s3" using n b h(2) f(1) by simp
  with f n(1) have "connect_preamble version (pending rest s)" unfolding connect_preamble_def by blast
  moreover have "pending rest s' = pending rest s" using n b h(2) steps(5) by simp
  ultimately show ?thesis ..
qed

lemma mqtt_connect_complete:
  assumes "connect_preamble version (pending rest s)"
  shows "\<exists>s'. negotiate_mqtt_connect pull s = (s', Inr version)"
proof -
  from assms obtain b n flags tail where p: "pending rest s = b # encode_remaining_length n @ (mqtt_name @ version # flags) @ tail"
    "length flags = 3" "n < 128 ^ 4" "version = 4 \<and> 12 \<le> n \<or> version = 5 \<and> 13 \<le> n" unfolding connect_preamble_def by auto
  from stream.read_exact_enough [of 1 s] p(1) obtain s1 where
    s1: "read_exact (poll_read pull) 1 s = (s1, Inr [b])" "pending rest s1 = encode_remaining_length n @ (mqtt_name @ version # flags) @ tail" by auto
  from stream.read_length_complete [OF s1(2), of 0 0 "[b]"] p(3) obtain s2 where
    s2: "read_remaining_length (poll_read pull) 0 0 [b] s1 = (s2, Inr (n, [b] @ encode_remaining_length n))"
      "pending rest s2 = (mqtt_name @ version # flags) @ tail" by auto
  have ten: "length (mqtt_name @ version # flags) = 10" using p(2) by (simp add: mqtt_name_def ascii_def)
  then have "take 10 (pending rest s2) = mqtt_name @ version # flags" "10 \<le> length (pending rest s2)"
    unfolding s2(2) by (metis append_eq_conv_conj, simp)
  with stream.read_exact_enough [of 10 s2] obtain s3 where
    s3: "read_exact (poll_read pull) 10 s2 = (s3, Inr (mqtt_name @ version # flags))" by auto
  have "check_connect n (mqtt_name @ version # flags) = Inr version" using p(2,4) ten by (subst check_connect_Inr) auto
  moreover have "\<not> n < 10" using p(4) by auto
  ultimately show ?thesis using s1(1) s2(1) s3 by (simp add: negotiate_mqtt_connect_def)
qed

end

text \<open>C28: An MQTT connection is accepted exactly when it opens with a CONNECT packet of version 3.1.1 or 5
  whose remaining length is in its shortest form and leaves room for the fields every CONNECT of
  that version has; and after that look-ahead the packet codec reads every byte from the first one,
  none missing and none twice, however the bytes were cut.\<close>

theorem mqtt_connect_exact:
  assumes "byte_source pull rest"
  shows "((\<exists>s'. negotiate_mqtt_connect pull s = (s', Inr version)) \<longleftrightarrow> connect_preamble version (pending rest s))
    \<and> (\<forall>s'. negotiate_mqtt_connect pull s = (s', Inr version) \<longrightarrow> pending rest s' = pending rest s)"
proof -
  have t: "transport pull rest" using assms by (simp add: transport_def)
  from transport.mqtt_connect_sound [OF t] transport.mqtt_connect_complete [OF t] show ?thesis by blast
qed

section \<open>What each protocol reads next\<close>

primrec phase_bytes :: "http_body_phase \<Rightarrow> byte list" where
  "phase_bytes (Buffered b) = b"
| "phase_bytes (Needs_Streaming p n) = p"
| "phase_bytes Finished = []"

primrec phase_total :: "http_body_phase \<Rightarrow> nat" where
  "phase_total (Buffered b) = length b"
| "phase_total (Needs_Streaming p n) = length p + n"
| "phase_total Finished = 0"

context byte_source
begin

text \<open>The bytes of the body that are at hand and the length of the whole body.\<close>

lemma request_read:
  assumes "0 < capacity" and read: "read_http_request_with_options httparse capacity pull e allow_eof inline_limit r = (r', Inr (Some (request, phase)))"
  shows "\<exists>head cl. parse_http_request httparse head = Inr (request, cl) \<and> find_header_terminator (coming r) = Some (length head - 4)
    \<and> 4 \<le> length head \<and> coming r = head @ phase_bytes phase @ coming r'
    \<and> phase_total phase = (case cl of Some n \<Rightarrow> n | None \<Rightarrow> 0)"
proof -
  obtain r1 res where h: "read_head capacity pull allow_eof [] r = (r1, res)" "head_answer allow_eof (coming r) res (coming r1)"
    using read_head_spec [OF assms(1), of "[]" "coming r" r allow_eof] by auto
  from read h(1) obtain head where res: "res = Inr (Some head)"
    by (auto simp: read_http_request_with_options_def split: sum.splits option.splits)
  with h(2) obtain i where i: "find_header_terminator (coming r) = Some i" "head = take (i + 4) (coming r)" "coming r1 = drop (i + 4) (coming r)"
    by (auto simp: head_answer_def split: option.splits if_splits)
  have "i + 4 \<le> length (coming r)" using i(1) ends_head_length by (auto simp: find_header_terminator_Some)
  then have head: "length head = i + 4" "coming r = head @ coming r1" using i by simp_all
  from read h(1) res obtain cl where cl: "parse_http_request httparse head = Inr (request, cl)"
    by (auto simp: read_http_request_with_options_def Let_def split: sum.splits option.splits prod.splits if_splits)
  have "phase_bytes phase @ coming r' = coming r1 \<and> phase_total phase = (case cl of Some n \<Rightarrow> n | None \<Rightarrow> 0)"
  proof (cases cl)
    case None
    with read h(1) res cl show ?thesis by (auto simp: read_http_request_with_options_def)
  next
    case (Some len)
    show ?thesis
    proof (cases "len \<le> inline_limit")
      case True
      with read h(1) res cl Some obtain body where b: "read_body capacity pull len [] r1 = (r', Inr body)" "phase = Buffered body"
        by (auto simp: read_http_request_with_options_def split: if_splits prod.splits sum.splits)
      with read_body_spec [OF assms(1), of "[]" len r1] Some show ?thesis by (auto split: if_splits)
    next
      case False
      let ?n = "min len (length (br_buffer r1))"
      from False read h(1) res cl Some have p: "r' = consume ?n r1" "phase = classify_http_body (take ?n (br_buffer r1)) (Some len)"
        by (auto simp: read_http_request_with_options_def Let_def split: if_splits)
      have "take ?n (br_buffer r1) @ coming r' = coming r1" unfolding p(1)
        by (simp add: coming_consume) (simp add: coming_def)
      with p(2) False Some show ?thesis by (auto simp: classify_http_body_def)
    qed
  qed
  with head i(1) cl show ?thesis by (intro exI [of _ head] exI [of _ cl]) simp
qed

lemma fill_None: "fill pull n s = (s', bs, None) \<Longrightarrow> bs = take n (rest s) \<and> rest s' = drop n (rest s) \<and> n \<le> length (rest s)"
  using fill_enough [of n s] fill_short [of s n] by (cases "n \<le> length (rest s)") auto

lemma fill_Some: "fill pull n s = (s', bs, Some e) \<Longrightarrow> bs = rest s \<and> rest s' = []"
  using fill_enough [of n s] fill_short [of s n] by (cases "n \<le> length (rest s)") auto

end

context transport
begin

lemma stream_source: "byte_source (poll_read pull) (pending rest)"
  by (rule stream.byte_source_axioms)

lemma peek_keeps:
  assumes "peek_handshake pull s = (s', Inr p)"
  shows "p = take 4 (pending rest s) \<and> length p = 4 \<and> pending rest s' = pending rest s"
proof -
  from assms obtain s1 where "read_exact (poll_read pull) 4 s = (s1, Inr p)" "s' = buffer_front p s1"
    by (auto simp: peek_handshake_def split: prod.splits sum.splits stream_error.splits)
  with stream.read_exact_Inr [of 4 s s1 p] show ?thesis by auto
qed

lemma server_upgrade_bytes:
  assumes push: "\<And>bs t. rest (fst (push bs t)) = rest t"
    and up: "server_upgrade pull push desired response s = (s', Inr (exponent, yes))"
  shows "\<exists>two. pending rest s = two @ pending rest s' \<and> length two = (if yes then 2 else 0)"
proof -
  obtain s1 buf err where f: "fill (poll_read pull) 2 s = (s1, buf, err)" by (metis prod_cases3)
  have pw: "pending rest (fst (poll_write push bs t)) = pending rest t" for bs t
    using push [of bs "inner t"] by (auto simp: poll_write_def pending_def split: prod.splits)
  show ?thesis
  proof (cases err)
    case None
    note n = stream.fill_None [OF f [unfolded None]]
    show ?thesis
    proof (cases "buf ! 0 = RAWSOCKET_UPGRADE_MAGIC")
      case True
      from up True f None obtain bs where "poll_write push bs s1 = (s', None)" "yes"
        by (auto simp: server_upgrade_def reject_def Let_def split: if_splits prod.splits option.splits)
      with pw [of bs s1] have "pending rest s' = pending rest s1" "yes" by simp_all
      with n show ?thesis by (intro exI [of _ buf]) auto
    next
      case False
      with up f None have "s' = buffer_front buf s1" "\<not> yes" by (auto simp: server_upgrade_def)
      with n show ?thesis by auto
    qed
  next
    case (Some e)
    with up f have "s' = buffer_front buf s1" "\<not> yes" by (auto simp: server_upgrade_def split: stream_error.splits)
    with stream.fill_Some [OF f [unfolded Some]] show ?thesis by auto
  qed
qed

lemma finish_session_Inr: "finish_session clone_fd ser x up s = (s', Inr session) \<Longrightarrow> s' = s \<and> upgraded session = up"
  by (auto simp: finish_session_def split: sum.splits if_splits)

lemma negotiate_bytes:
  assumes push: "\<And>bs t. rest (fst (push bs t)) = rest t"
    and neg: "negotiate pull push clone_fd m s = (s', Inr session)"
  shows "\<exists>hello two. pending rest s = hello @ two @ pending rest s' \<and> length hello = 4 \<and> length two = (if upgraded session then 2 else 0)"
proof -
  have pw: "pending rest t' = pending rest t" if "poll_write push bs t = (t', x)" for bs t t' x
    using push [of bs "inner t"] that by (auto simp: poll_write_def pending_def split: prod.splits)
  obtain s1 res where r: "read_with_timeout pull 4 s = (s1, res)" by fastforce
  with neg obtain hello where res: "res = Inr hello" by (cases res) (auto simp: negotiate_def)
  with r have "read_exact (poll_read pull) 4 s = (s1, Inr hello)"
    by (auto simp: read_with_timeout_def split: prod.splits sum.splits stream_error.splits)
  from stream.read_exact_Inr [OF this] have h: "pending rest s = hello @ pending rest s1" "length hello = 4" by auto
  from neg r res obtain bs s2 where s2: "poll_write push bs s1 = (s2, None)"
    and cont: "(\<exists>ser x. finish_session clone_fd ser x False s2 = (s', Inr session))
      \<or> (\<exists>d q s3 x up ser. server_upgrade pull push d q s2 = (s3, Inr (x, up)) \<and> finish_session clone_fd ser x up s3 = (s', Inr session))"
    by (auto simp: negotiate_def reject_def Let_def split: if_splits prod.splits option.splits sum.splits) blast+
  from cont obtain two where two: "pending rest s2 = two @ pending rest s'" "length two = (if upgraded session then 2 else 0)"
    using server_upgrade_bytes [where push = push and s = s2, OF push] by (fastforce dest!: finish_session_Inr)
  with h pw [OF s2] show ?thesis by (intro exI [of _ hello] exI [of _ two]) simp
qed

lemma handshake_read:
  assumes "parse_http_handshake httparse pull e s = (s', Inr h)"
  shows "\<exists>head cl. parse_http_request httparse head = Inr (hs_request h, cl) \<and> find_header_terminator (pending rest s) = Some (length head - 4)
    \<and> 4 \<le> length head \<and> pending rest s = head @ phase_bytes (hs_body h) @ prefetched h @ pending rest s'
    \<and> body_len h = (case cl of Some n \<Rightarrow> n | None \<Rightarrow> 0)"
proof -
  from assms obtain r where r: "read_http_request_with_options httparse 1024 (poll_read pull) e False HTTP1_INLINE_BODY_LIMIT (buf_reader_new s)
      = (r, Inr (Some (hs_request h, hs_body h)))" "s' = br_inner r" "prefetched h = br_buffer r"
    by (auto simp: parse_http_handshake_def split: prod.splits sum.splits option.splits http_body_phase.splits if_splits)
  have "body_len h = phase_total (hs_body h)" by (simp add: body_len_def split: http_body_phase.splits)
  with stream.request_read [OF _ r(1)] r(2,3) show ?thesis by (simp add: stream.coming_def buf_reader_new_def)
qed

end

section \<open>The negotiated connection\<close>

primrec protocol_of :: "negotiated_connection \<Rightarrow> transport_protocol" where
  "protocol_of (Raw_Socket session) = Rawsocket"
| "protocol_of (Mqtt_Connect version) = Mqtt"
| "protocol_of (Web_Socket w) = Websocket"
| "protocol_of (Http_One h) = Http"
| "protocol_of (Http_Two h) = Http2"

text \<open>The stream that the session reads: WebSocket and HTTP sessions put the prefetched bytes back.\<close>

primrec session_stream :: "negotiated_connection \<Rightarrow> 's io_stream \<Rightarrow> 's io_stream" where
  "session_stream (Raw_Socket session) s = s"
| "session_stream (Mqtt_Connect version) s = s"
| "session_stream (Web_Socket w) s = websocket_into_stream w s"
| "session_stream (Http_One h) s = buffer_front (prefetched h) s"
| "session_stream (Http_Two h) s = s"

text \<open>A request at the front of a byte stream: what is before \<open>later\<close> is its head, up to the first
  empty line, and the part of its body that is at hand.\<close>

definition request_at :: "(byte list \<Rightarrow> parse_status) \<Rightarrow> byte list \<Rightarrow> http_request \<Rightarrow> byte list \<Rightarrow> nat \<Rightarrow> byte list \<Rightarrow> bool" where
  "request_at httparse zs request body len later =
     (\<exists>head cl. parse_http_request httparse head = Inr (request, cl) \<and> find_header_terminator zs = Some (length head - 4)
        \<and> 4 \<le> length head \<and> zs = head @ body @ later \<and> len = (case cl of Some n \<Rightarrow> n | None \<Rightarrow> 0))"

primrec continues :: "(byte list \<Rightarrow> parse_status) \<Rightarrow> negotiated_connection \<Rightarrow> byte list \<Rightarrow> byte list \<Rightarrow> bool" where
  "continues httparse (Raw_Socket session) zs later =
     (\<exists>hello two. zs = hello @ two @ later \<and> length hello = 4 \<and> hello ! 0 = RAWSOCKET_MAGIC \<and> length two = (if upgraded session then 2 else 0))"
| "continues httparse (Mqtt_Connect version) zs later = (later = zs \<and> zs ! 0 = 0x10 \<and> connect_preamble version zs)"
| "continues httparse (Web_Socket w) zs later = request_at httparse zs (hs_request (ws_http w)) [] 0 later"
| "continues httparse (Http_One h) zs later =
     request_at httparse zs (hs_request h) (phase_bytes (hs_body h)) (phase_total (hs_body h)) later"
| "continues httparse (Http_Two h) zs later = (later = zs \<and> take 4 zs = take 4 HTTP2_PREFACE)"

lemma body_len_total: "body_len h = phase_total (hs_body h)"
  by (simp add: body_len_def split: http_body_phase.splits)

lemma phase_total_zero: "phase_total phase = 0 \<Longrightarrow> phase_bytes phase = []"
  by (cases phase) auto

lemma try_into_websocket_Some:
  "try_into_websocket h = Some w \<Longrightarrow> ws_http w = h \<and> body_len h = 0"
  by (auto simp: try_into_websocket_def Let_def split: if_splits option.splits)

lemma request_continues:
  assumes t: "transport pull rest" and h: "parse_http_handshake httparse pull e s = (s', Inr h)" "negotiate_http1 e h = Inr c"
  shows "supports_protocol e (protocol_of c) \<and> continues httparse c (pending rest s) (pending rest (session_stream c s'))"
proof -
  from transport.handshake_read [OF t h(1)]
  have at: "request_at httparse (pending rest s) (hs_request h) (phase_bytes (hs_body h)) (phase_total (hs_body h)) (prefetched h @ pending rest s')"
    by (simp add: request_at_def body_len_total)
  from h(2) consider (ws) w where "c = Web_Socket w" "supports_protocol e Websocket" "ws_http w = h" "body_len h = 0"
    | (one) "c = Http_One h" "supports_protocol e Http"
    by (auto simp: negotiate_http1_def dest: try_into_websocket_Some split: if_splits option.splits)
  then show ?thesis
    using at by cases (auto simp: websocket_into_stream_def body_len_total phase_total_zero)
qed

lemma rawsocket_continues:
  assumes t: "transport pull rest" and push: "\<And>bs t. rest (fst (push bs t)) = rest t"
    and r: "negotiate pull push clone_fd m s = (s', Inr session)" and first: "pending rest s ! 0 = RAWSOCKET_MAGIC"
  shows "continues httparse (Raw_Socket session) (pending rest s) (pending rest s')"
proof -
  from transport.negotiate_bytes [OF t push r] obtain hello two where
    b: "pending rest s = hello @ two @ pending rest s'" "length hello = 4" "length two = (if upgraded session then 2 else 0)" by auto
  then have "hello ! 0 = RAWSOCKET_MAGIC" using first by (simp add: nth_append)
  with b show ?thesis unfolding continues.simps by (intro exI [of _ hello] exI [of _ two] conjI)
qed

text \<open>C3: Whatever a client sends, a connection is negotiated only for a protocol that its listener
  offers, and no byte is lost or read twice on the way: HTTP/2 and MQTT sessions read the stream from
  its first byte, a RawSocket session after the four bytes of the handshake and the two of an
  upgrade, a WebSocket session directly after the empty line of the upgrade request, so that
  frames sent along with it are kept, and an HTTP session after the request and what is at hand of
  its body.\<close>

theorem negotiated_connection_exact:
  assumes "byte_source pull rest" and push: "\<And>bs t. rest (fst (push bs t)) = rest t"
    and neg: "negotiate_connection httparse negotiated_alpn clone_fd pull push e s = (s', Inr c)"
  shows "supports_protocol e (protocol_of c) \<and> continues httparse c (pending rest s) (pending rest (session_stream c s'))"
proof -
  have t: "transport pull rest" using assms(1) by (simp add: transport_def)
  from neg obtain s1 p where p: "peek_handshake pull s = (s1, Inr p)"
    by (auto simp: negotiate_connection_def split: prod.splits sum.splits)
  note peek = transport.peek_keeps [OF t p]
  then have first: "p ! 0 = pending rest s ! 0" by simp
  consider (http2) "looks_like_http p" "p = take 4 HTTP2_PREFACE"
    | (http1) "looks_like_http p" "p \<noteq> take 4 HTTP2_PREFACE"
    | (mqtt) "\<not> looks_like_http p" "p ! 0 = 0x10"
    | (raw) "\<not> looks_like_http p" "p ! 0 = RAWSOCKET_MAGIC" "p ! 0 \<noteq> 0x10"
    | (other) "\<not> looks_like_http p" "p ! 0 \<noteq> 0x10" "p ! 0 \<noteq> RAWSOCKET_MAGIC" by blast
  then show ?thesis
  proof cases
    case http2
    with neg p have "s' = s1" "supports_protocol e Http2" "\<exists>h. c = Http_Two h" by (auto simp: negotiate_connection_def split: if_splits)
    with http2 peek show ?thesis by auto
  next
    case http1
    with neg p obtain h where h: "parse_http_handshake httparse pull e s1 = (s', Inr h)" "negotiate_http1 e h = Inr c"
      by (auto simp: negotiate_connection_def split: if_splits prod.splits sum.splits http_handshake_error.splits option.splits)
    from request_continues [OF t h] peek show ?thesis by simp
  next
    case mqtt
    with neg p obtain v where v: "negotiate_mqtt_connect pull s1 = (s', Inr v)" "c = Mqtt_Connect v" "supports_protocol e Mqtt"
      by (auto simp: negotiate_connection_def split: if_splits prod.splits sum.splits)
    with transport.mqtt_connect_sound [OF t v(1)] peek first mqtt show ?thesis by simp
  next
    case raw
    with neg p obtain session where r: "negotiate pull push clone_fd (endpoint_runtime.max_rawsocket_size_exponent e) s1 = (s', Inr session)"
        "c = Raw_Socket session" "supports_protocol e Rawsocket"
      by (auto simp: negotiate_connection_def split: if_splits prod.splits sum.splits)
    from rawsocket_continues [OF t push r(1)] peek first raw(2) have
      "continues httparse (Raw_Socket session) (pending rest s) (pending rest s')" by simp
    with r(2,3) show ?thesis by simp
  next
    case other
    with neg p show ?thesis by (auto simp: negotiate_connection_def)
  qed
qed

section \<open>A concrete connection\<close>

text \<open>An MQTT 3.1.1 client without a name whose packet arrives in two pieces.\<close>

definition demo_connect :: "byte list" where
  "demo_connect = [0x10, 12] @ mqtt_name @ [4, 2, 0, 60, 0, 0]"

definition demo_mqtt_wire :: wire where
  "demo_mqtt_wire = \<lparr>chunks = [take 3 demo_connect, drop 3 demo_connect], silent = True, sent = []\<rparr>"

lemma demo_mqtt_pending: "pending wire_rest (plain demo_mqtt_wire) = demo_connect"
  by (simp add: demo_mqtt_wire_def wire_rest_def)

lemma demo_preamble: "connect_preamble 4 demo_connect"
  unfolding connect_preamble_def
  by (rule exI [of _ "0x10"], rule exI [of _ "12 :: nat"], rule exI [of _ "[2, 0, 60]"], rule exI [of _ "[0, 0]"])
     (simp add: demo_connect_def encode_remaining_length.simps [of 12])

theorem mqtt_connect_exact_witness:
  "\<exists>s'. negotiate_mqtt_connect wire_pull (plain demo_mqtt_wire) = (s', Inr 4) \<and> pending wire_rest s' = demo_connect"
  using mqtt_connect_exact [OF wire.byte_source_axioms, of "plain demo_mqtt_wire" 4] demo_preamble
  by (auto simp only: demo_mqtt_pending)

theorem negotiated_connection_exact_witness:
  "\<exists>e s'. negotiate_connection (\<lambda>_. Invalid) (\<lambda>_. None) (\<lambda>_. Inr False) wire_pull wire_push e (plain demo_mqtt_wire) = (s', Inr (Mqtt_Connect 4))
    \<and> pending wire_rest s' = demo_connect"
proof -
  obtain e0 where "try_from_endpoint ascii_tables demo_endpoint = Inr e0" using demo_endpoint_accepted by blast
  define e where "e = e0\<lparr>protocols := [Mqtt]\<rparr>"
  have mqtt: "supports_protocol e Mqtt" by (simp add: supports_protocol_def e_def)
  obtain s1 where s1: "read_exact (poll_read wire_pull) 4 (plain demo_mqtt_wire) = (s1, Inr (take 4 demo_connect))" "pending wire_rest s1 = drop 4 demo_connect"
    using wire.stream.read_exact_enough [of 4 "plain demo_mqtt_wire"] unfolding demo_mqtt_pending by (auto simp: demo_connect_def mqtt_name_def ascii_def)
  let ?s = "buffer_front (take 4 demo_connect) s1"
  have all: "pending wire_rest ?s = demo_connect" using s1(2) by (simp add: demo_connect_def mqtt_name_def ascii_def)
  then obtain s2 where s2: "negotiate_mqtt_connect wire_pull ?s = (s2, Inr 4)" using wire.mqtt_connect_complete [of 4 ?s] demo_preamble by auto
  have "\<not> looks_like_http (take 4 demo_connect)" "take 4 demo_connect ! 0 = 0x10" by (simp_all add: looks_like_http_def demo_connect_def mqtt_name_def ascii_def)
  with s1(1) s2 mqtt have run: "negotiate_connection (\<lambda>_. Invalid) (\<lambda>_. None) (\<lambda>_. Inr False) wire_pull wire_push e (plain demo_mqtt_wire) = (s2, Inr (Mqtt_Connect 4))"
    by (simp add: negotiate_connection_def peek_handshake_def)
  have "wire_rest (fst (wire_push bs t)) = wire_rest t" for bs t by (simp add: wire_push_def wire_rest_def)
  from negotiated_connection_exact [OF wire.byte_source_axioms this run] run demo_mqtt_pending show ?thesis by auto
qed

end
