(* ===== verification/Http_Body.thy ===== *)
theory Http_Body
  imports Http_Request
begin

text \<open>
  Bodies that are streamed to the application (\<^verbatim>\<open>ct_core/src/http_body.rs\<close>): a task reads the body from
  the connection and queues its chunks, the application takes slices of them and sleeps on a
  condition variable when there are none. Both sides are interleaved at the granularity of the
  mutex of the queue: what is done while the mutex is held is one step, the transition of the
  consumer from the empty queue to sleep holds the mutex over two steps, and a notification
  outside the mutex is a step of its own.
\<close>

section \<open>The shared queue\<close>

definition STREAMING_CHUNK_SIZE :: nat where "STREAMING_CHUNK_SIZE = 64 * 1024"

record streaming_chunk =
  chunk_data :: "byte list"
  chunk_offset :: nat

definition streaming_chunk_new :: "byte list \<Rightarrow> streaming_chunk" where
  "streaming_chunk_new bs = \<lparr>chunk_data = bs, chunk_offset = 0\<rparr>"

definition chunk_remaining :: "streaming_chunk \<Rightarrow> nat" where
  "chunk_remaining c = length (chunk_data c) - chunk_offset c"

record streaming_body =
  body_chunks :: "streaming_chunk list"
  last_chunk :: "byte list option"
  finished :: bool
  finish_requested :: bool
  total_len :: nat
  body_error :: "rstr option"

definition streaming_body_new :: "nat \<Rightarrow> streaming_body" where
  "streaming_body_new n =
     \<lparr>body_chunks = [], last_chunk = None, finished = False, finish_requested = False, total_len = n, body_error = None\<rparr>"

definition extend_total_len :: "nat \<Rightarrow> streaming_body \<Rightarrow> streaming_body" where
  "extend_total_len delta b = (if delta = 0 then b else b\<lparr>total_len := total_len b + delta\<rparr>)"

definition enqueue_bytes :: "byte list \<Rightarrow> streaming_body \<Rightarrow> streaming_body" where
  "enqueue_bytes bs b = (if bs = [] then b else b\<lparr>body_chunks := body_chunks b @ [streaming_chunk_new bs]\<rparr>)"

definition request_finish :: "streaming_body \<Rightarrow> streaming_body" where
  "request_finish b = b\<lparr>finish_requested := True\<rparr>"

definition mark_finished :: "streaming_body \<Rightarrow> streaming_body" where
  "mark_finished b = b\<lparr>finished := True\<rparr>"

text \<open>What the loop of \<open>take_slice\<close> does while it holds the mutex: a slice of the first chunk that is
  not used up, the end, the error, or the decision to wait.\<close>

datatype taken = Slice "byte list" | Body_End | Body_Failed rstr | Must_Wait

fun take_front :: "nat \<Rightarrow> streaming_chunk list \<Rightarrow> streaming_chunk list \<times> (byte list \<times> byte list) option" where
  "take_front len [] = ([], None)"
| "take_front len (c # cs) =
     (let available = chunk_remaining c in
      if available = 0 then take_front len cs
      else let request_len = min (max len 1) available;
               part = take request_len (drop (chunk_offset c) (chunk_data c));
               c' = c\<lparr>chunk_offset := chunk_offset c + request_len\<rparr>
           in (if chunk_offset c' \<ge> length (chunk_data c') then cs else c' # cs, Some (part, chunk_data c)))"

definition take_slice :: "nat \<Rightarrow> streaming_body \<Rightarrow> streaming_body \<times> taken" where
  "take_slice len b =
     (case take_front len (body_chunks b) of
        (cs, Some (part, whole)) \<Rightarrow> (b\<lparr>body_chunks := cs, last_chunk := Some whole\<rparr>, Slice part)
      | (cs, None) \<Rightarrow>
          (b\<lparr>body_chunks := cs\<rparr>,
           if finished b then (case body_error b of Some err \<Rightarrow> Body_Failed err | None \<Rightarrow> Body_End) else Must_Wait))"

section \<open>The task that reads the body\<close>

text \<open>Its effect on the connection: it reads until nothing remains, whether or not the chunks are still
  wanted, and gives the connection back only then.\<close>

function drain_body :: "'s source \<Rightarrow> nat \<Rightarrow> 's \<Rightarrow> 's \<times> bool" where
  "drain_body pull remaining s =
     (if remaining = 0 then (s, True)
      else case pull (min remaining STREAMING_CHUNK_SIZE) s of
          (s', Inr (b # bs)) \<Rightarrow> drain_body pull (remaining - length (b # bs)) s'
        | (s', _) \<Rightarrow> (s', False))"
  by pat_completeness auto
termination by (relation "measure (\<lambda>(_, remaining, _). remaining)") auto

declare drain_body.simps [simp del]

text \<open>The task as a sequence of steps. \<open>Enqueueing\<close> holds a chunk that has been read; a
  notification follows the enqueueing outside the mutex. An error is stored first and completion
  marked afterwards, once by \<open>mark_error\<close> and once at the end of the task.\<close>

datatype feeder_phase =
    Reading
  | Enqueueing "byte list"
  | Notifying
  | Erring rstr
  | Finishing_Error
  | Finishing
  | Reader_Done

text \<open>The consumer inside \<open>take_slice\<close>: running, holding the mutex on its way to sleep, asleep, or
  returned from its last call.\<close>

datatype consumer_phase = Running | Going_To_Sleep | Asleep | Got_End | Got_Failure rstr

record 's body_system =
  shared :: streaming_body
  source_state :: 's
  remaining :: nat
  feeder_phase :: feeder_phase
  consumer_phase :: consumer_phase
  received :: "byte list"
  reclaimed :: bool

definition spawn_http1_streaming_body :: "byte list \<Rightarrow> 's \<Rightarrow> nat \<Rightarrow> 's body_system" where
  "spawn_http1_streaming_body prefix s n =
     \<lparr>shared = enqueue_bytes prefix (streaming_body_new (length prefix + n)), source_state = s, remaining = n,
      feeder_phase = Reading, consumer_phase = Running, received = [], reclaimed = False\<rparr>"

definition wake :: "consumer_phase \<Rightarrow> consumer_phase" where
  "wake c = (if c = Asleep then Running else c)"

definition read_failure :: "stream_error \<Rightarrow> (stream_error \<Rightarrow> rstr) \<Rightarrow> rstr" where
  "read_failure e show_error =
     (if e = Elapsed then ascii ''http/1 body read timed out'' else ascii ''http/1 body read failed: '' @ show_error e)"

text \<open>The mutex is free unless the consumer is on its way to sleep.\<close>

inductive reader_step :: "(stream_error \<Rightarrow> rstr) \<Rightarrow> 's source \<Rightarrow> 's body_system \<Rightarrow> 's body_system \<Rightarrow> bool"
  for show_error pull where
  read_chunk: "feeder_phase y = Reading \<Longrightarrow> 0 < remaining y \<Longrightarrow>
     pull (min (remaining y) STREAMING_CHUNK_SIZE) (source_state y) = (s', Inr (c # cs)) \<Longrightarrow>
     reader_step show_error pull y (y\<lparr>source_state := s', remaining := remaining y - length (c # cs),
       feeder_phase := if finish_requested (shared y) then Reading else Enqueueing (c # cs)\<rparr>)"
| read_eof: "feeder_phase y = Reading \<Longrightarrow> 0 < remaining y \<Longrightarrow>
     pull (min (remaining y) STREAMING_CHUNK_SIZE) (source_state y) = (s', Inr []) \<Longrightarrow>
     reader_step show_error pull y (y\<lparr>source_state := s', feeder_phase := Erring (ascii ''connection closed before body drained'')\<rparr>)"
| read_error: "feeder_phase y = Reading \<Longrightarrow> 0 < remaining y \<Longrightarrow>
     pull (min (remaining y) STREAMING_CHUNK_SIZE) (source_state y) = (s', Inl e) \<Longrightarrow>
     reader_step show_error pull y (y\<lparr>source_state := s', feeder_phase := Erring (read_failure e show_error)\<rparr>)"
| read_all: "feeder_phase y = Reading \<Longrightarrow> remaining y = 0 \<Longrightarrow>
     reader_step show_error pull y (y\<lparr>feeder_phase := Finishing\<rparr>)"
| enqueue: "feeder_phase y = Enqueueing bs \<Longrightarrow> consumer_phase y \<noteq> Going_To_Sleep \<Longrightarrow>
     reader_step show_error pull y (y\<lparr>shared := enqueue_bytes bs (shared y), feeder_phase := Notifying\<rparr>)"
| notify: "feeder_phase y = Notifying \<Longrightarrow>
     reader_step show_error pull y (y\<lparr>consumer_phase := wake (consumer_phase y), feeder_phase := Reading\<rparr>)"
| store_error: "feeder_phase y = Erring msg \<Longrightarrow>
     reader_step show_error pull y (y\<lparr>shared := (shared y)\<lparr>body_error := Some msg\<rparr>, feeder_phase := Finishing_Error\<rparr>)"
| finish_error: "feeder_phase y = Finishing_Error \<Longrightarrow> consumer_phase y \<noteq> Going_To_Sleep \<Longrightarrow>
     reader_step show_error pull y (y\<lparr>shared := mark_finished (shared y), consumer_phase := wake (consumer_phase y), feeder_phase := Finishing\<rparr>)"
| finish: "feeder_phase y = Finishing \<Longrightarrow> consumer_phase y \<noteq> Going_To_Sleep \<Longrightarrow>
     reader_step show_error pull y (y\<lparr>shared := mark_finished (shared y), consumer_phase := wake (consumer_phase y), feeder_phase := Reader_Done,
       reclaimed := (remaining y = 0)\<rparr>)"

inductive consumer_step :: "'s body_system \<Rightarrow> 's body_system \<Rightarrow> bool" where
  take_some: "consumer_phase y = Running \<Longrightarrow> take_slice len (shared y) = (b, Slice bs) \<Longrightarrow>
     consumer_step y (y\<lparr>shared := b, received := received y @ bs\<rparr>)"
| take_end: "consumer_phase y = Running \<Longrightarrow> take_slice len (shared y) = (b, Body_End) \<Longrightarrow>
     consumer_step y (y\<lparr>shared := b, consumer_phase := Got_End\<rparr>)"
| take_failure: "consumer_phase y = Running \<Longrightarrow> take_slice len (shared y) = (b, Body_Failed err) \<Longrightarrow>
     consumer_step y (y\<lparr>shared := b, consumer_phase := Got_Failure err\<rparr>)"
| take_wait: "consumer_phase y = Running \<Longrightarrow> take_slice len (shared y) = (b, Must_Wait) \<Longrightarrow>
     consumer_step y (y\<lparr>shared := b, consumer_phase := Going_To_Sleep\<rparr>)"
| sleep: "consumer_phase y = Going_To_Sleep \<Longrightarrow> consumer_step y (y\<lparr>consumer_phase := Asleep\<rparr>)"
| app_finish: "consumer_step y (y\<lparr>shared := request_finish (shared y), consumer_phase := wake (consumer_phase y)\<rparr>)"

definition body_step :: "(stream_error \<Rightarrow> rstr) \<Rightarrow> 's source \<Rightarrow> 's body_system \<Rightarrow> 's body_system \<Rightarrow> bool" where
  "body_step show_error pull y z = (reader_step show_error pull y z \<or> consumer_step y z)"


section \<open>What a step does to the bytes\<close>

definition queue_bytes :: "streaming_chunk list \<Rightarrow> byte list" where
  "queue_bytes cs = concat (map (\<lambda>c. drop (chunk_offset c) (chunk_data c)) cs)"

lemma queue_bytes_simps [simp]:
  "queue_bytes [] = []" "queue_bytes (c # cs) = drop (chunk_offset c) (chunk_data c) @ queue_bytes cs"
  "queue_bytes (cs @ ds) = queue_bytes cs @ queue_bytes ds"
  by (simp_all add: queue_bytes_def)

lemma take_front_Some:
  "take_front len cs = (cs', Some (part, whole)) \<Longrightarrow> queue_bytes cs = part @ queue_bytes cs' \<and> part \<noteq> []"
proof (induction cs)
  case (Cons c cs)
  show ?case
  proof (cases "chunk_remaining c = 0")
    case True
    with Cons show ?thesis by (simp add: chunk_remaining_def)
  next
    case False
    define k where "k = min (max len 1) (chunk_remaining c)"
    have k: "0 < k" "k \<le> length (drop (chunk_offset c) (chunk_data c))" using False by (auto simp: k_def chunk_remaining_def)
    with Cons.prems False have "part = take k (drop (chunk_offset c) (chunk_data c))"
      "queue_bytes cs' = drop (k + chunk_offset c) (chunk_data c) @ queue_bytes cs"
      by (auto simp: Let_def k_def add.commute split: if_splits)
    with k show ?thesis using append_take_drop_id [of k "drop (chunk_offset c) (chunk_data c)"] by (auto simp flip: append_assoc)
  qed
qed simp

lemma take_front_None: "take_front len cs = (cs', None) \<Longrightarrow> queue_bytes cs = [] \<and> cs' = []"
  by (induction cs) (auto simp: Let_def chunk_remaining_def split: if_splits)

lemma take_slice_Slice:
  "take_slice len b = (b', Slice part) \<Longrightarrow> queue_bytes (body_chunks b) = part @ queue_bytes (body_chunks b') \<and> part \<noteq> []
    \<and> finished b' = finished b \<and> body_error b' = body_error b \<and> finish_requested b' = finish_requested b"
  by (auto simp: take_slice_def dest: take_front_Some split: prod.splits option.splits if_splits)

lemma take_slice_other:
  assumes "take_slice len b = (b', t)" "\<forall>part. t \<noteq> Slice part"
  shows "queue_bytes (body_chunks b) = [] \<and> b' = b\<lparr>body_chunks := []\<rparr>
    \<and> t = (if finished b then (case body_error b of Some err \<Rightarrow> Body_Failed err | None \<Rightarrow> Body_End) else Must_Wait)"
  using assms by (auto simp: take_slice_def dest: take_front_None split: prod.splits option.splits if_splits)

primrec in_hand :: "feeder_phase \<Rightarrow> byte list" where
  "in_hand Reading = []"
| "in_hand (Enqueueing bs) = bs"
| "in_hand Notifying = []"
| "in_hand (Erring msg) = []"
| "in_hand Finishing_Error = []"
| "in_hand Finishing = []"
| "in_hand Reader_Done = []"

section \<open>Invariants\<close>

text \<open>Where the bytes are: what was read from the connection is what the consumer has, what is queued and
  what the task has in hand.\<close>

definition bytes_inv :: "('s \<Rightarrow> byte list) \<Rightarrow> byte list \<Rightarrow> 's \<Rightarrow> nat \<Rightarrow> 's body_system \<Rightarrow> bool" where
  "bytes_inv rest prefix s0 n y =
     (\<exists>got. rest s0 = got @ rest (source_state y) \<and> length got + remaining y = n
        \<and> (\<not> finish_requested (shared y) \<longrightarrow>
             received y @ queue_bytes (body_chunks (shared y)) @ in_hand (feeder_phase y) = prefix @ got))"

text \<open>When the body is complete, and who sleeps.\<close>

definition phase_inv :: "'s body_system \<Rightarrow> bool" where
  "phase_inv y =
     ((finished (shared y) \<longrightarrow> feeder_phase y = Reader_Done \<or> feeder_phase y = Finishing \<and> body_error (shared y) \<noteq> None)
      \<and> (body_error (shared y) \<noteq> None \<longrightarrow> 0 < remaining y \<and> feeder_phase y \<in> {Finishing_Error, Finishing, Reader_Done})
      \<and> ((\<exists>msg. feeder_phase y = Erring msg) \<longrightarrow> 0 < remaining y)
      \<and> (feeder_phase y = Finishing_Error \<longrightarrow> body_error (shared y) \<noteq> None)
      \<and> (feeder_phase y \<in> {Finishing, Reader_Done} \<and> body_error (shared y) = None \<longrightarrow> remaining y = 0)
      \<and> (feeder_phase y = Reader_Done \<longrightarrow> finished (shared y))
      \<and> (reclaimed y \<longrightarrow> remaining y = 0 \<and> feeder_phase y = Reader_Done)
      \<and> (consumer_phase y = Got_End \<longrightarrow> finished (shared y) \<and> body_error (shared y) = None \<and> body_chunks (shared y) = [])
      \<and> (\<forall>err. consumer_phase y = Got_Failure err \<longrightarrow> body_error (shared y) \<noteq> None))"

definition sleep_inv :: "'s body_system \<Rightarrow> bool" where
  "sleep_inv y =
     ((consumer_phase y = Going_To_Sleep \<longrightarrow> body_chunks (shared y) = [] \<and> \<not> finished (shared y))
      \<and> (consumer_phase y = Asleep \<longrightarrow> body_chunks (shared y) = [] \<and> \<not> finished (shared y) \<or> feeder_phase y = Notifying))"

lemma phase_inv_reader: "reader_step show_error pull y z \<Longrightarrow> phase_inv y \<Longrightarrow> phase_inv z"
  by (induction rule: reader_step.induct) (auto simp: phase_inv_def enqueue_bytes_def mark_finished_def wake_def)

lemma phase_inv_consumer: "consumer_step y z \<Longrightarrow> phase_inv y \<Longrightarrow> phase_inv z"
proof (induction rule: consumer_step.induct)
  case (take_some y len b bs)
  then show ?case using take_slice_Slice [OF take_some(2)] by (auto simp: phase_inv_def)
next
  case (take_end y len b)
  then show ?case using take_slice_other [OF take_end(2)] by (auto simp: phase_inv_def split: if_splits option.splits)
next
  case (take_failure y len b err)
  then show ?case using take_slice_other [OF take_failure(2)] by (auto simp: phase_inv_def split: if_splits option.splits)
next
  case (take_wait y len b)
  then show ?case using take_slice_other [OF take_wait(2)] by (auto simp: phase_inv_def split: if_splits option.splits)
qed (auto simp: phase_inv_def enqueue_bytes_def mark_finished_def request_finish_def wake_def)

lemma sleep_inv_reader: "reader_step show_error pull y z \<Longrightarrow> phase_inv y \<Longrightarrow> sleep_inv y \<Longrightarrow> sleep_inv z"
  by (induction rule: reader_step.induct) (auto simp: sleep_inv_def phase_inv_def enqueue_bytes_def mark_finished_def wake_def)

lemma sleep_inv_consumer: "consumer_step y z \<Longrightarrow> sleep_inv y \<Longrightarrow> sleep_inv z"
proof (induction rule: consumer_step.induct)
  case (take_some y len b bs)
  then show ?case using take_slice_Slice [OF take_some(2)] by (auto simp: sleep_inv_def)
next
  case (take_end y len b)
  then show ?case by (auto simp: sleep_inv_def)
next
  case (take_failure y len b err)
  then show ?case by (auto simp: sleep_inv_def)
next
  case (take_wait y len b)
  then show ?case using take_slice_other [OF take_wait(2)] by (auto simp: sleep_inv_def split: if_splits option.splits)
qed (auto simp: sleep_inv_def enqueue_bytes_def mark_finished_def request_finish_def wake_def)

lemma bytes_inv_consumer: "consumer_step y z \<Longrightarrow> bytes_inv rest prefix s0 n y \<Longrightarrow> bytes_inv rest prefix s0 n z"
proof (induction rule: consumer_step.induct)
  case (take_some y len b bs)
  then show ?case using take_slice_Slice [OF take_some(2)] by (auto simp: bytes_inv_def)
next
  case (take_end y len b)
  then show ?case using take_slice_other [OF take_end(2)] by (auto simp: bytes_inv_def)
next
  case (take_failure y len b err)
  then show ?case using take_slice_other [OF take_failure(2)] by (auto simp: bytes_inv_def)
next
  case (take_wait y len b)
  then show ?case using take_slice_other [OF take_wait(2)] by (auto simp: bytes_inv_def)
qed (auto simp: bytes_inv_def request_finish_def)

context byte_source
begin

lemma bytes_inv_reader: "reader_step show_error pull y z \<Longrightarrow> bytes_inv rest prefix s0 n y \<Longrightarrow> bytes_inv rest prefix s0 n z"
proof (induction rule: reader_step.induct)
  case (read_chunk y s' c cs)
  let ?k = "min (remaining y) STREAMING_CHUNK_SIZE"
  have k: "0 < ?k" using read_chunk by (simp add: STREAMING_CHUNK_SIZE_def)
  from read_chunk(3) pull_data [OF k, of "source_state y"] pull_end [OF k, of "source_state y"]
  have "rest (source_state y) = (c # cs) @ rest s'" "length (c # cs) \<le> ?k" by (cases "rest (source_state y) = []"; auto)+
  with read_chunk obtain got where "rest s0 = (got @ c # cs) @ rest s'" "length (got @ c # cs) + (remaining y - length (c # cs)) = n"
      "\<not> finish_requested (shared y) \<longrightarrow> received y @ queue_bytes (body_chunks (shared y)) @ c # cs = prefix @ got @ c # cs"
    by (auto simp: bytes_inv_def)
  then show ?case unfolding bytes_inv_def by (intro exI [of _ "got @ c # cs"]) simp
next
  case (read_eof y s')
  let ?k = "min (remaining y) STREAMING_CHUNK_SIZE"
  have k: "0 < ?k" using read_eof by (simp add: STREAMING_CHUNK_SIZE_def)
  from read_eof(3) pull_data [OF k, of "source_state y"] pull_end [OF k, of "source_state y"]
  have "rest (source_state y) = rest s'" by (cases "rest (source_state y) = []"; auto)
  with read_eof show ?case by (auto simp: bytes_inv_def)
next
  case (read_error y s' e)
  let ?k = "min (remaining y) STREAMING_CHUNK_SIZE"
  have k: "0 < ?k" using read_error by (simp add: STREAMING_CHUNK_SIZE_def)
  from read_error(3) pull_data [OF k, of "source_state y"] pull_end [OF k, of "source_state y"]
  have "rest (source_state y) = rest s'" by (cases "rest (source_state y) = []"; auto)
  with read_error show ?case by (auto simp: bytes_inv_def)
next
  case (enqueue y bs)
  then show ?case by (auto simp: bytes_inv_def enqueue_bytes_def streaming_chunk_new_def)
qed (auto simp: bytes_inv_def mark_finished_def)

lemma drain_body_enough: "n \<le> length (rest s) \<Longrightarrow> \<exists>s'. drain_body pull n s = (s', True) \<and> rest s' = drop n (rest s)"
proof (induction n arbitrary: s rule: less_induct)
  case (less n)
  show ?case
  proof (cases "n = 0")
    case True
    then show ?thesis by (simp add: drain_body.simps)
  next
    case False
    let ?k = "min n STREAMING_CHUNK_SIZE"
    have "0 < ?k" using False by (simp add: STREAMING_CHUNK_SIZE_def)
    moreover have "rest s \<noteq> []" using False less.prems by auto
    ultimately obtain s1 b bs where p: "pull ?k s = (s1, Inr (b # bs))" "rest s = (b # bs) @ rest s1" "length (b # bs) \<le> ?k"
      using pull_data by blast
    have "n - length (b # bs) < n" "n - length (b # bs) \<le> length (rest s1)" using False less.prems p(2) by auto
    from less.IH [OF this] obtain s' where "drain_body pull (n - length (b # bs)) s1 = (s', True)" "rest s' = drop (n - length (b # bs)) (rest s1)" by blast
    moreover obtain j where "n = length (b # bs) + j" using p(3) by (metis le_add_diff_inverse min.boundedE)
    ultimately show ?thesis using False p(1,2) by (subst drain_body.simps) simp
  qed
qed

lemma drain_body_short: "length (rest s) < n \<Longrightarrow> \<exists>s'. drain_body pull n s = (s', False)"
proof (induction n arbitrary: s rule: less_induct)
  case (less n)
  let ?k = "min n STREAMING_CHUNK_SIZE"
  have k: "0 < ?k" using less.prems by (simp add: STREAMING_CHUNK_SIZE_def)
  show ?case
  proof (cases "rest s = []")
    case True
    from pull_end [OF k True] less.prems show ?thesis by (subst drain_body.simps) auto
  next
    case False
    then obtain s1 b bs where p: "pull ?k s = (s1, Inr (b # bs))" "rest s = (b # bs) @ rest s1" using pull_data [OF k] by blast
    have "n - length (b # bs) < n" "length (rest s1) < n - length (b # bs)" using less.prems p(2) by auto
    from less.IH [OF this] p(1) less.prems show ?thesis by (subst drain_body.simps) auto
  qed
qed

lemma pull_total:
  assumes "0 < k"
  obtains s' c cs where "pull k s = (s', Inr (c # cs))" | s' where "pull k s = (s', Inr [])" | s' e where "pull k s = (s', Inl e)"
  using pull_data [OF assms, of s] pull_end [OF assms, of s] by (cases "rest s = []") auto

end

section \<open>Reachable states\<close>

lemma spawn_inv:
  "phase_inv (spawn_http1_streaming_body prefix s n)" "sleep_inv (spawn_http1_streaming_body prefix s n)"
  "bytes_inv rest prefix s n (spawn_http1_streaming_body prefix s n)"
  by (auto simp: phase_inv_def sleep_inv_def bytes_inv_def spawn_http1_streaming_body_def streaming_body_new_def
      enqueue_bytes_def streaming_chunk_new_def)

lemma reachable_inv:
  assumes "byte_source pull rest" "(body_step show_error pull)\<^sup>*\<^sup>* (spawn_http1_streaming_body prefix s n) y"
  shows "phase_inv y \<and> sleep_inv y \<and> bytes_inv rest prefix s n y"
  using assms(2)
proof (induction rule: rtranclp_induct)
  case base
  show ?case by (simp add: spawn_inv)
next
  case (step y z)
  from step.hyps(2) consider "reader_step show_error pull y z" | "consumer_step y z" by (auto simp: body_step_def)
  then show ?case
    using step.IH by cases (simp_all add: phase_inv_reader phase_inv_consumer sleep_inv_reader sleep_inv_consumer
        byte_source.bytes_inv_reader [OF assms(1)] bytes_inv_consumer)
qed

text \<open>C6: A streamed body reaches the application exactly. However the reading task and the application
  are interleaved and whatever slice lengths the application asks for, what it has taken is at every
  moment a prefix of the announced body; when it is told that the body has ended it has all of it
  and nothing else; it is told so only when all of it has arrived, otherwise it gets an error. And the
  connection is given back only at the first byte after the body, also when the application has
  declined the rest of the body.\<close>

theorem streamed_body_exact:
  assumes "byte_source pull rest" and "(body_step show_error pull)\<^sup>*\<^sup>* (spawn_http1_streaming_body prefix s n) y"
  shows "(\<not> finish_requested (shared y) \<longrightarrow> (\<exists>more. prefix @ take n (rest s) = received y @ more))
    \<and> (\<not> finish_requested (shared y) \<and> consumer_phase y = Got_End \<longrightarrow> received y = prefix @ take n (rest s) \<and> n \<le> length (rest s))
    \<and> (\<forall>err. consumer_phase y = Got_Failure err \<longrightarrow> \<not> reclaimed y)
    \<and> (reclaimed y \<longrightarrow> n \<le> length (rest s) \<and> rest (source_state y) = drop n (rest s))"
proof -
  have inv: "phase_inv y" "sleep_inv y" "bytes_inv rest prefix s n y" using reachable_inv [OF assms] by auto
  then obtain got where got: "rest s = got @ rest (source_state y)" "length got + remaining y = n"
      "\<not> finish_requested (shared y) \<longrightarrow> received y @ queue_bytes (body_chunks (shared y)) @ in_hand (feeder_phase y) = prefix @ got"
    unfolding bytes_inv_def by blast
  have all: "take n (rest s) = got @ take (remaining y) (rest (source_state y))" unfolding got(1) got(2) [symmetric] by simp
  have 1: "\<exists>more. prefix @ take n (rest s) = received y @ more" if "\<not> finish_requested (shared y)"
    using got(3) that all by (metis append.assoc)
  have complete: "rest (source_state y) = drop n (rest s)" "n \<le> length (rest s)" "got = take n (rest s)" if "remaining y = 0"
    using got(1,2) that by auto
  have 2: "received y = prefix @ take n (rest s) \<and> n \<le> length (rest s)" if "\<not> finish_requested (shared y)" "consumer_phase y = Got_End"
  proof -
    have p: "finished (shared y)" "body_error (shared y) = None" "body_chunks (shared y) = []" using inv(1) that(2) by (auto simp: phase_inv_def)
    then have "feeder_phase y = Reader_Done" "remaining y = 0" using inv(1) by (auto simp: phase_inv_def)
    with p(3) got(3) that(1) complete show ?thesis by simp
  qed
  have 3: "\<not> reclaimed y" if "consumer_phase y = Got_Failure err" for err using inv(1) that by (auto simp: phase_inv_def)
  have 4: "n \<le> length (rest s) \<and> rest (source_state y) = drop n (rest s)" if "reclaimed y"
    using inv(1) that complete by (auto simp: phase_inv_def)
  from 1 2 3 4 show ?thesis by blast
qed

section \<open>Sleeping consumers are woken\<close>

lemma one_step: "R y z \<Longrightarrow> P z \<Longrightarrow> \<exists>v. R\<^sup>*\<^sup>* y v \<and> P v"
  by (meson r_into_rtranclp)

lemma two_steps: "R y z \<Longrightarrow> R z w \<Longrightarrow> P w \<Longrightarrow> \<exists>v. R\<^sup>*\<^sup>* y v \<and> P v"
  by (meson converse_rtranclp_into_rtranclp r_into_rtranclp)

context byte_source
begin

lemma wake_from_finishing:
  assumes "feeder_phase y = Finishing" "consumer_phase y = Asleep"
  shows "\<exists>z. reader_step show_error pull y z \<and> consumer_phase z = Running"
  using reader_step.finish [OF assms(1), where show_error = show_error and pull = pull] assms(2) by (fastforce simp: wake_def)

lemma wake_from_error:
  assumes "feeder_phase y = Erring msg" "consumer_phase y = Asleep"
  shows "\<exists>z. (reader_step show_error pull)\<^sup>*\<^sup>* y z \<and> consumer_phase z = Running"
proof -
  let ?y = "y\<lparr>shared := (shared y)\<lparr>body_error := Some msg\<rparr>, feeder_phase := Finishing_Error\<rparr>"
  let ?z = "?y\<lparr>shared := mark_finished (shared ?y), consumer_phase := wake (consumer_phase ?y), feeder_phase := Finishing\<rparr>"
  have "reader_step show_error pull y ?y" using reader_step.store_error [OF assms(1)] .
  moreover have "reader_step show_error pull ?y ?z" by (rule reader_step.finish_error) (simp_all add: assms(2))
  moreover have "consumer_phase ?z = Running" by (simp add: wake_def assms(2))
  ultimately show ?thesis by (rule two_steps [where P = "\<lambda>z. consumer_phase z = Running"])
qed

lemma wake_from_chunk:
  assumes "feeder_phase y = Enqueueing bs" "consumer_phase y = Asleep"
  shows "\<exists>z. (reader_step show_error pull)\<^sup>*\<^sup>* y z \<and> consumer_phase z = Running"
proof -
  let ?y = "y\<lparr>shared := enqueue_bytes bs (shared y), feeder_phase := Notifying\<rparr>"
  let ?z = "?y\<lparr>consumer_phase := wake (consumer_phase ?y), feeder_phase := Reading\<rparr>"
  have "reader_step show_error pull y ?y" by (rule reader_step.enqueue) (simp_all add: assms)
  moreover have "reader_step show_error pull ?y ?z" by (rule reader_step.notify) simp
  moreover have "consumer_phase ?z = Running" by (simp add: wake_def assms(2))
  ultimately show ?thesis by (rule two_steps [where P = "\<lambda>z. consumer_phase z = Running"])
qed

lemma wake_from_reading:
  "feeder_phase y = Reading \<Longrightarrow> consumer_phase y = Asleep \<Longrightarrow> \<exists>z. (reader_step show_error pull)\<^sup>*\<^sup>* y z \<and> consumer_phase z = Running"
proof (induction "remaining y" arbitrary: y rule: less_induct)
  case less
  show ?case
  proof (cases "remaining y = 0")
    case True
    let ?y = "y\<lparr>feeder_phase := Finishing\<rparr>"
    have "reader_step show_error pull y ?y" using reader_step.read_all [OF less.prems(1) True] .
    moreover obtain z where "reader_step show_error pull ?y z" "consumer_phase z = Running"
      using wake_from_finishing [of ?y show_error] less.prems(2) by auto
    ultimately show ?thesis by (meson converse_rtranclp_into_rtranclp r_into_rtranclp)
  next
    case False
    let ?k = "min (remaining y) STREAMING_CHUNK_SIZE"
    have k: "0 < ?k" using False by (simp add: STREAMING_CHUNK_SIZE_def)
    have step: "\<exists>z. (reader_step show_error pull)\<^sup>*\<^sup>* y z \<and> consumer_phase z = Running"
      if "reader_step show_error pull y y1" "\<exists>z. (reader_step show_error pull)\<^sup>*\<^sup>* y1 z \<and> consumer_phase z = Running" for y1
      using that by (meson converse_rtranclp_into_rtranclp)
    show ?thesis
    proof (rule pull_total [OF k, of "source_state y"])
      fix s' c cs assume p: "pull ?k (source_state y) = (s', Inr (c # cs))"
      let ?y = "y\<lparr>source_state := s', remaining := remaining y - length (c # cs),
        feeder_phase := if finish_requested (shared y) then Reading else Enqueueing (c # cs)\<rparr>"
      have "reader_step show_error pull y ?y" by (rule reader_step.read_chunk [where c = c and cs = cs]) (use less.prems(1) False p in simp_all)
      moreover have "\<exists>z. (reader_step show_error pull)\<^sup>*\<^sup>* ?y z \<and> consumer_phase z = Running"
        using less.hyps [of ?y] wake_from_chunk [of ?y "c # cs" show_error] less.prems(2) False by (cases "finish_requested (shared y)") auto
      ultimately show ?thesis by (rule step)
    next
      fix s' assume p: "pull ?k (source_state y) = (s', Inr [])"
      have "reader_step show_error pull y (y\<lparr>source_state := s', feeder_phase := Erring (ascii ''connection closed before body drained'')\<rparr>)"
        by (rule reader_step.read_eof) (use less.prems(1) False p in simp_all)
      from step [OF this] wake_from_error less.prems(2) show ?thesis by simp
    next
      fix s' e assume p: "pull ?k (source_state y) = (s', Inl e)"
      have "reader_step show_error pull y (y\<lparr>source_state := s', feeder_phase := Erring (read_failure e show_error)\<rparr>)"
        by (rule reader_step.read_error) (use less.prems(1) False p in simp_all)
      from step [OF this] wake_from_error less.prems(2) show ?thesis by simp
    qed
  qed
qed

lemma wake_from_any:
  assumes "phase_inv y" "sleep_inv y" "consumer_phase y = Asleep"
  shows "\<exists>z. (reader_step show_error pull)\<^sup>*\<^sup>* y z \<and> consumer_phase z = Running"
proof (cases "feeder_phase y")
  case Notifying
  have "reader_step show_error pull y (y\<lparr>consumer_phase := wake (consumer_phase y), feeder_phase := Reading\<rparr>)"
    by (rule reader_step.notify) (rule Notifying)
  then show ?thesis by (rule one_step [where P = "\<lambda>z. consumer_phase z = Running"]) (simp add: wake_def assms(3))
next
  case Finishing_Error
  have "reader_step show_error pull y (y\<lparr>shared := mark_finished (shared y), consumer_phase := wake (consumer_phase y), feeder_phase := Finishing\<rparr>)"
    by (rule reader_step.finish_error) (use Finishing_Error assms(3) in simp_all)
  then show ?thesis by (rule one_step [where P = "\<lambda>z. consumer_phase z = Running"]) (simp add: wake_def assms(3))
next
  case Reader_Done
  with assms show ?thesis by (auto simp: phase_inv_def sleep_inv_def)
next
  case Finishing
  with wake_from_finishing assms(3) show ?thesis by (meson r_into_rtranclp)
qed (use wake_from_reading wake_from_chunk wake_from_error assms(3) in blast)+

end

text \<open>C32: No consumer sleeps through its data. In every reachable state in which the application sleeps in
  \<open>take_slice\<close>, a chunk or the end of the body is there only while the notification is still on its way,
  and steps of the reading task alone wake the application; completion can not slip in
  between the last look at the queue and the sleep, because it takes the same mutex.\<close>

theorem body_consumer_woken:
  assumes "byte_source pull rest" and "(body_step show_error pull)\<^sup>*\<^sup>* (spawn_http1_streaming_body prefix s n) y"
    and "consumer_phase y = Asleep"
  shows "(body_chunks (shared y) \<noteq> [] \<or> finished (shared y) \<longrightarrow> feeder_phase y = Notifying)
    \<and> (\<exists>z. (reader_step show_error pull)\<^sup>*\<^sup>* y z \<and> consumer_phase z = Running)"
proof -
  have inv: "phase_inv y" "sleep_inv y" using reachable_inv [OF assms(1,2)] by auto
  then show ?thesis using byte_source.wake_from_any [OF assms(1) inv assms(3)] assms(3) by (auto simp: sleep_inv_def)
qed

section \<open>A concrete body\<close>

text \<open>Three bytes of which the first is there; the application asks before the others arrive.\<close>

definition demo_body_wire :: wire where
  "demo_body_wire = \<lparr>chunks = [[0x62, 0x63], [0x47]], silent = False, sent = []\<rparr>"

definition demo_at :: "streaming_chunk list \<Rightarrow> byte list list \<Rightarrow> nat \<Rightarrow> bool \<Rightarrow> feeder_phase \<Rightarrow> consumer_phase \<Rightarrow> byte list option \<Rightarrow> byte list \<Rightarrow> bool \<Rightarrow> wire body_system" where
  "demo_at queue left n fin rp cp lc got back =
     \<lparr>shared = \<lparr>body_chunks = queue, last_chunk = lc, finished = fin, finish_requested = False, total_len = 3, body_error = None\<rparr>,
      source_state = demo_body_wire\<lparr>chunks := left\<rparr>, remaining = n, feeder_phase = rp, consumer_phase = cp, received = got, reclaimed = back\<rparr>"

lemma demo_spawned: "spawn_http1_streaming_body [0x61] demo_body_wire 2 =
    demo_at [streaming_chunk_new [0x61]] [[0x62, 0x63], [0x47]] 2 False Reading Running None [] False"
  by (simp add: spawn_http1_streaming_body_def demo_at_def streaming_body_new_def enqueue_bytes_def demo_body_wire_def)

lemma by_consumer: "consumer_step y a \<Longrightarrow> a = z \<Longrightarrow> body_step sh pull y z"
  by (simp add: body_step_def)

lemma by_reader: "reader_step sh pull y a \<Longrightarrow> a = z \<Longrightarrow> body_step sh pull y z"
  by (simp add: body_step_def)

lemmas demo_simps = demo_at_def take_slice_def chunk_remaining_def streaming_chunk_new_def Let_def

lemma demo_first: "body_step sh wire_pull (demo_at [streaming_chunk_new [0x61]] l n f rp Running o1 got r) (demo_at [] l n f rp Running (Some [0x61]) (got @ [0x61]) r)"
  by (rule by_consumer, rule consumer_step.take_some [where len = 5]) (simp_all add: demo_simps)

lemma demo_wait: "body_step sh wire_pull (demo_at [] l n False rp Running o1 got r) (demo_at [] l n False rp Going_To_Sleep o1 got r)"
  by (rule by_consumer, rule consumer_step.take_wait [where len = 5]) (simp_all add: demo_simps)

lemma demo_sleep: "body_step sh wire_pull (demo_at q l n f rp Going_To_Sleep o1 got r) (demo_at q l n f rp Asleep o1 got r)"
  by (rule by_consumer, rule consumer_step.sleep) (simp_all add: demo_simps)

theorem body_consumer_woken_witness:
  "\<exists>y. (body_step (\<lambda>_. []) wire_pull)\<^sup>*\<^sup>* (spawn_http1_streaming_body [0x61] demo_body_wire 2) y \<and> consumer_phase y = Asleep
    \<and> (\<exists>z. (reader_step (\<lambda>_. []) wire_pull)\<^sup>*\<^sup>* y z \<and> consumer_phase z = Running)"
proof -
  let ?y = "demo_at [] [[0x62, 0x63], [0x47]] 2 False Reading Asleep (Some [0x61]) [0x61] False"
  have run: "(body_step (\<lambda>_. []) wire_pull)\<^sup>*\<^sup>* (spawn_http1_streaming_body [0x61] demo_body_wire 2) ?y"
    unfolding demo_spawned
    by (rule converse_rtranclp_into_rtranclp, rule demo_first, simp, rule converse_rtranclp_into_rtranclp, rule demo_wait,
        rule r_into_rtranclp, rule demo_sleep)
  moreover have asleep: "consumer_phase ?y = Asleep" by (simp add: demo_at_def)
  ultimately show ?thesis using body_consumer_woken [OF wire.byte_source_axioms run asleep] by blast
qed

lemma demo_read: "body_step sh wire_pull (demo_at q [[0x62, 0x63], [0x47]] 2 f Reading Running o1 got r)
    (demo_at q [[], [0x47]] 0 f (Enqueueing [0x62, 0x63]) Running o1 got r)"
  by (rule by_reader, rule reader_step.read_chunk [where c = "0x62" and cs = "[0x63]"])
    (simp_all add: demo_simps wire_pull_def STREAMING_CHUNK_SIZE_def demo_body_wire_def)

lemma demo_enqueue: "body_step sh wire_pull (demo_at [] l n f (Enqueueing [0x62, 0x63]) Running o1 got r)
    (demo_at [streaming_chunk_new [0x62, 0x63]] l n f Notifying Running o1 got r)"
  by (rule by_reader, rule reader_step.enqueue [where bs = "[0x62, 0x63]"]) (simp_all add: demo_simps enqueue_bytes_def)

lemma demo_notify: "body_step sh wire_pull (demo_at q l n f Notifying Running o1 got r) (demo_at q l n f Reading Running o1 got r)"
  by (rule by_reader, rule reader_step.notify) (simp_all add: demo_simps wake_def)

lemma demo_all: "body_step sh wire_pull (demo_at q l 0 f Reading Running o1 got r) (demo_at q l 0 f Finishing Running o1 got r)"
  by (rule by_reader, rule reader_step.read_all) (simp_all add: demo_simps)

lemma demo_finish: "body_step sh wire_pull (demo_at q l 0 f Finishing Running o1 got r) (demo_at q l 0 True Reader_Done Running o1 got True)"
  by (rule by_reader, rule reader_step.finish) (simp_all add: demo_simps wake_def mark_finished_def)

lemma demo_second: "body_step sh wire_pull (demo_at [streaming_chunk_new [0x62, 0x63]] l n f rp Running o1 got r) (demo_at [] l n f rp Running (Some [0x62, 0x63]) (got @ [0x62, 0x63]) r)"
  by (rule by_consumer, rule consumer_step.take_some [where len = 5]) (simp_all add: demo_simps)

lemma demo_end: "body_step sh wire_pull (demo_at [] l n True rp Running o1 got r) (demo_at [] l n True rp Got_End o1 got r)"
  by (rule by_consumer, rule consumer_step.take_end [where len = 5]) (simp_all add: demo_simps)

theorem streamed_body_exact_witness:
  "\<exists>y. (body_step (\<lambda>_. []) wire_pull)\<^sup>*\<^sup>* (spawn_http1_streaming_body [0x61] demo_body_wire 2) y
    \<and> consumer_phase y = Got_End \<and> received y = [0x61, 0x62, 0x63] \<and> reclaimed y \<and> wire_rest (source_state y) = [0x47]"
proof -
  let ?y = "demo_at [] [[], [0x47]] 0 True Reader_Done Got_End (Some [0x62, 0x63]) ([0x61] @ [0x62, 0x63]) True"
  have run: "(body_step (\<lambda>_. []) wire_pull)\<^sup>*\<^sup>* (spawn_http1_streaming_body [0x61] demo_body_wire 2) ?y"
    unfolding demo_spawned
    by (rule converse_rtranclp_into_rtranclp, rule demo_first, simp only: append_Nil,
        rule converse_rtranclp_into_rtranclp, rule demo_read, rule converse_rtranclp_into_rtranclp, rule demo_enqueue,
        rule converse_rtranclp_into_rtranclp, rule demo_notify, rule converse_rtranclp_into_rtranclp, rule demo_all,
        rule converse_rtranclp_into_rtranclp, rule demo_finish, rule converse_rtranclp_into_rtranclp, rule demo_second,
        rule r_into_rtranclp, rule demo_end)
  have at: "consumer_phase ?y = Got_End" "\<not> finish_requested (shared ?y)" "reclaimed ?y" by (simp_all add: demo_at_def)
  from streamed_body_exact [OF wire.byte_source_axioms run] at have
    "received ?y = [0x61] @ take 2 (wire_rest demo_body_wire)" "wire_rest (source_state ?y) = drop 2 (wire_rest demo_body_wire)" by blast+
  with run at show ?thesis by (intro exI [of _ ?y]) (simp add: demo_body_wire_def wire_rest_def)
qed

end
