(* ===== verification/Http_Service.thy ===== *)
theory Http_Service
  imports Protocol_Negotiation Http_Body
begin

text \<open>
  The loop that serves an HTTP/1 connection (\<^verbatim>\<open>ct_core/src/lib.rs\<close>): a request is read, routed, checked
  against the transport requirements of its route and handed to the application, whose answer is
  written; other requests are answered at once. The application is a parameter with its own
  state: it takes a request and answers, or its answer never comes. The task that reads a streamed
  body has the effect \<open>drain_body\<close> on the connection. One round of the loop is a function; the loop
  has a bound on its rounds, and the bound is shown to be no restriction.
\<close>

section \<open>Transport requirements\<close>

datatype http_transport_auth_failure = Bearer_Required | Tls_Required | Mutual_Tls_Required

definition has_non_empty_header_string :: "(rstr \<times> rstr) list \<Rightarrow> string \<Rightarrow> bool" where
  "has_non_empty_header_string headers target =
     (\<exists>f \<in> set headers. eq_ignore_ascii_case (fst f) (ascii target) \<and> trim (snd f) \<noteq> [])"

definition is_cors_preflight_string :: "rstr \<Rightarrow> (rstr \<times> rstr) list \<Rightarrow> bool" where
  "is_cors_preflight_string method headers =
     (eq_ignore_ascii_case method (ascii ''OPTIONS'')
      \<and> has_non_empty_header_string headers ''origin''
      \<and> has_non_empty_header_string headers ''access-control-request-method'')"

definition has_bearer_header_string :: "(rstr \<times> rstr) list \<Rightarrow> bool" where
  "has_bearer_header_string headers =
     (\<exists>f \<in> set headers. eq_ignore_ascii_case (fst f) (ascii ''authorization'') \<and> length (snd f) > 7
        \<and> \<not> continuation_byte (snd f ! 7) \<and> eq_ignore_ascii_case (take 7 (snd f)) (ascii ''bearer '')
        \<and> trim (drop 7 (snd f)) \<noteq> [])"

definition evaluate_http_transport_auth_string_headers ::
  "transport_auth \<Rightarrow> endpoint_runtime \<Rightarrow> rstr \<Rightarrow> (rstr \<times> rstr) list \<Rightarrow> http_transport_auth_failure option" where
  "evaluate_http_transport_auth_string_headers requirements e method headers =
     (if require_mtls requirements \<and> map_option (\<lambda>c. auth_mode c = Auth_Required) (client_auth e) \<noteq> Some True
        then Some Mutual_Tls_Required
      else if require_tls requirements \<and> tls e = Tls_Disabled then Some Tls_Required
      else let bearerless_preflight =
               allow_unauthenticated_cors_preflight requirements \<and> is_cors_preflight_string method headers
           in if require_bearer requirements \<and> \<not> bearerless_preflight \<and> \<not> has_bearer_header_string headers
              then Some Bearer_Required else None)"

section \<open>Answers\<close>

datatype http_response_body = Response_Buffered "byte list" | Response_Streaming "(stream_frame \<times> bool) list"

record http_response_dispatch =
  dispatch_status :: int
  dispatch_headers :: "(rstr \<times> rstr) list"
  dispatch_body :: http_response_body

definition send_http_dispatch ::
  "(int \<Rightarrow> rstr option) \<Rightarrow> 'w sink \<Rightarrow> ('w \<Rightarrow> 'w \<times> stream_error option) \<Rightarrow> nat \<Rightarrow> bool \<Rightarrow> http_response_dispatch \<Rightarrow> 'w \<Rightarrow> 'w \<times> bool" where
  "send_http_dispatch canonical_reason push flush version keep_alive d w =
     (let headers = ensure_connection_header keep_alive version (dispatch_headers d) in
      case dispatch_body d of
        Response_Buffered body \<Rightarrow>
          (case write_http_response_shared push flush version (dispatch_status d) headers body w of (w', e) \<Rightarrow> (w', e = None))
      | Response_Streaming frames \<Rightarrow>
          write_http1_chunked_response canonical_reason push flush version (dispatch_status d)
            (ensure_chunked_transfer_encoding (strip_content_length headers)) frames w)"

definition send_http_simple_response ::
  "'w sink \<Rightarrow> ('w \<Rightarrow> 'w \<times> stream_error option) \<Rightarrow> nat \<Rightarrow> int \<Rightarrow> bool \<Rightarrow> byte list \<Rightarrow> (rstr \<times> rstr) list \<Rightarrow> 'w \<Rightarrow> 'w \<times> bool" where
  "send_http_simple_response push flush version status keep_alive body extra_headers w =
     (case write_http_response_shared push flush version status (ensure_connection_header keep_alive version extra_headers) body w of
        (w', e) \<Rightarrow> (w', e = None))"

section \<open>Requests for the application\<close>

datatype http_body_handle = Inline_Body "byte list" | Empty_Body | Streaming_Body "byte list" nat

record http_request_summary =
  sum_method :: rstr
  sum_target :: rstr
  sum_path :: rstr
  sum_query :: "rstr option"
  sum_protocol :: rstr
  sum_version :: nat
  sum_headers :: "(rstr \<times> rstr) list"
  sum_body :: http_body_handle
  sum_route :: http_route_resolution

text \<open>What becomes of a request that is handed over: it may be refused, answered, or dropped without
  an answer.\<close>

datatype app_answer = Not_Enqueued | Cancelled | Dispatched http_response_dispatch

type_synonym 'a application = "http_request_summary \<Rightarrow> 'a \<Rightarrow> 'a \<times> app_answer"

record ('r, 'w, 'a) http_service =
  service_reader :: "'r buf_reader option"
  pending_reclaim :: "(nat \<times> 'r) option"
  service_writer :: 'w
  service_app :: 'a
  handed :: "http_request_summary list"

record ('r, 'w, 'a) http_context =
  ctx_tables :: unicode
  ctx_httparse :: "byte list \<Rightarrow> parse_status"
  ctx_reasons :: "int \<Rightarrow> rstr option"
  ctx_pull :: "'r source"
  ctx_push :: "'w sink"
  ctx_flush :: "'w \<Rightarrow> 'w \<times> stream_error option"
  ctx_app :: "'a application"
  ctx_endpoint :: endpoint_runtime

section \<open>One round\<close>

text \<open>The reader comes back from the task that read the last body, if there was one.\<close>

definition reclaim_reader :: "('r, 'w, 'a) http_context \<Rightarrow> ('r, 'w, 'a) http_service \<Rightarrow> ('r, 'w, 'a) http_service option" where
  "reclaim_reader c v =
     (case service_reader v of
        Some r \<Rightarrow> Some v
      | None \<Rightarrow>
          (case pending_reclaim v of
             Some (n, s) \<Rightarrow>
               (case drain_body (ctx_pull c) n s of
                  (s', True) \<Rightarrow> Some (v\<lparr>service_reader := Some (buf_reader_new s'), pending_reclaim := None\<rparr>)
                | (s', False) \<Rightarrow> None)
           | None \<Rightarrow> None))"

definition simple :: "('r, 'w, 'a) http_context \<Rightarrow> nat \<Rightarrow> int \<Rightarrow> bool \<Rightarrow> string \<Rightarrow> (rstr \<times> rstr) list \<Rightarrow> ('r, 'w, 'a) http_service \<Rightarrow> ('r, 'w, 'a) http_service \<times> bool" where
  "simple c version status keep_alive body extra v =
     (case send_http_simple_response (ctx_push c) (ctx_flush c) version status keep_alive (ascii body) extra (service_writer v) of
        (w, ok) \<Rightarrow> (v\<lparr>service_writer := w\<rparr>, ok))"

text \<open>Reading the next request. A request that cannot be read is answered when the error has a status; then
  the loop ends.\<close>

definition next_request ::
  "('r, 'w, 'a) http_context \<Rightarrow> nat \<Rightarrow> ('r, 'w, 'a) http_service \<Rightarrow> ('r, 'w, 'a) http_service \<times> (http_request \<times> http_body_phase) option" where
  "next_request c initial_version v =
     (case reclaim_reader c v of
        None \<Rightarrow> (v, None)
      | Some v1 \<Rightarrow>
          (case read_http_request (ctx_httparse c) 8192 (ctx_pull c) (ctx_endpoint c) (the (service_reader v1)) of
             (r, Inr x) \<Rightarrow> (v1\<lparr>service_reader := Some r\<rparr>, x)
           | (r, Inl (Protocol detail)) \<Rightarrow>
               (case classify_http_error_status detail of
                  Some status \<Rightarrow>
                    (fst (simple c initial_version status False ''invalid HTTP request'' [] (v1\<lparr>service_reader := Some r\<rparr>)), None)
                | None \<Rightarrow> (v1\<lparr>service_reader := Some r\<rparr>, None))
           | (r, Inl err) \<Rightarrow> (v1\<lparr>service_reader := Some r\<rparr>, None)))"

text \<open>A body that is not at hand takes the reader with it.\<close>

definition claim_body :: "http_body_phase \<Rightarrow> ('r, 'w, 'a) http_service \<Rightarrow> (('r, 'w, 'a) http_service \<times> http_body_handle) option" where
  "claim_body phase v =
     (case phase of
        Buffered bytes \<Rightarrow> Some (v, Inline_Body bytes)
      | Finished \<Rightarrow> Some (v, Empty_Body)
      | Needs_Streaming prefix n \<Rightarrow>
          (case service_reader v of
             Some r \<Rightarrow> Some (v\<lparr>service_reader := None, pending_reclaim := Some (n, br_inner r)\<rparr>, Streaming_Body prefix n)
           | None \<Rightarrow> None))"

text \<open>How a round goes on: the loop ends, starts over at once, or first settles the reader and the
  question whether the connection stays open.\<close>

datatype round_end = Break | Continue | Settle

definition reject_unauthorised ::
  "('r, 'w, 'a) http_context \<Rightarrow> http_request \<Rightarrow> bool \<Rightarrow> http_transport_auth_failure \<Rightarrow> ('r, 'w, 'a) http_service \<Rightarrow> ('r, 'w, 'a) http_service \<times> round_end" where
  "reject_unauthorised c request keep_alive failure v =
     (case (case failure of
              Bearer_Required \<Rightarrow>
                simple c (req_version request) 401 keep_alive ''bearer token required'' [(ascii ''WWW-Authenticate'', ascii ''Bearer'')] v
            | Tls_Required \<Rightarrow> simple c (req_version request) 403 keep_alive ''tls required'' [] v
            | Mutual_Tls_Required \<Rightarrow> simple c (req_version request) 403 keep_alive ''mutual tls required'' [] v) of
        (v', ok) \<Rightarrow> (v', if ok then Continue else Break))"

definition settled :: "('r, 'w, 'a) http_service \<times> bool \<Rightarrow> ('r, 'w, 'a) http_service \<times> round_end" where
  "settled x = (case x of (v, ok) \<Rightarrow> (v, if ok then Settle else Break))"

definition hand_over ::
  "('r, 'w, 'a) http_context \<Rightarrow> http_request \<Rightarrow> bool \<Rightarrow> http_request_summary \<Rightarrow> ('r, 'w, 'a) http_service \<Rightarrow> ('r, 'w, 'a) http_service \<times> round_end" where
  "hand_over c request keep_alive summary v =
     (case ctx_app c summary (service_app v) of
        (a, answer) \<Rightarrow>
          let v1 = v\<lparr>service_app := a, handed := handed v @ [summary]\<rparr> in
          case answer of
            Not_Enqueued \<Rightarrow> (v1, Break)
          | Cancelled \<Rightarrow> (fst (simple c (req_version request) 500 keep_alive ''http request cancelled'' [] v1), Break)
          | Dispatched d \<Rightarrow>
              (case send_http_dispatch (ctx_reasons c) (ctx_push c) (ctx_flush c) (req_version request) keep_alive d (service_writer v1) of
                 (w, ok) \<Rightarrow> settled (v1\<lparr>service_writer := w\<rparr>, ok)))"

definition request_path :: "http_request \<Rightarrow> rstr" where
  "request_path request =
     (let path = fst (split_http_target (req_target request)) in if path = [] then ascii ''/'' else path)"

definition request_query :: "http_request \<Rightarrow> rstr option" where
  "request_query request = snd (split_http_target (req_target request))"

definition protocol_label :: "http_request \<Rightarrow> rstr" where
  "protocol_label request = ascii ''http/1.'' @ decimal (req_version request)"

definition summary_of :: "http_request \<Rightarrow> http_body_handle \<Rightarrow> http_route_resolution \<Rightarrow> http_request_summary" where
  "summary_of request body resolution =
     \<lparr>sum_method = req_method request, sum_target = req_target request, sum_path = request_path request,
      sum_query = request_query request, sum_protocol = protocol_label request, sum_version = req_version request,
      sum_headers = req_headers request, sum_body = body, sum_route = resolution\<rparr>"

definition answer_request ::
  "('r, 'w, 'a) http_context \<Rightarrow> http_request \<Rightarrow> http_body_handle \<Rightarrow> ('r, 'w, 'a) http_service \<Rightarrow> ('r, 'w, 'a) http_service \<times> round_end" where
  "answer_request c request body v =
     (let normalized_method = to_uppercase (ctx_tables c) (req_method request);
          keep_alive = should_keep_alive (req_version request) (req_headers request)
      in case match_http_route (ctx_tables c) (ctx_endpoint c) (request_path request) (request_query request) normalized_method (protocol_label request) of
           Resolved resolution \<Rightarrow>
             (case evaluate_http_transport_auth_string_headers (res_auth resolution) (ctx_endpoint c) normalized_method (req_headers request) of
                Some failure \<Rightarrow> reject_unauthorised c request keep_alive failure v
              | None \<Rightarrow> hand_over c request keep_alive (summary_of request body resolution) v)
         | Method_Not_Allowed methods \<Rightarrow>
             settled (simple c (req_version request) 405 keep_alive ''method not allowed'' [(ascii ''Allow'', join (ascii '', '') methods)] v)
         | Protocol_Not_Allowed ps \<Rightarrow>
             settled (simple c (req_version request) 426 keep_alive ''protocol not allowed'' [(ascii ''Upgrade'', join (ascii '', '') ps)] v)
         | Not_Found \<Rightarrow> settled (simple c (req_version request) 404 keep_alive ''route not found'' [] v))"

definition settle_round :: "('r, 'w, 'a) http_context \<Rightarrow> http_request \<Rightarrow> ('r, 'w, 'a) http_service \<Rightarrow> ('r, 'w, 'a) http_service \<times> bool" where
  "settle_round c request v =
     (case reclaim_reader c v of
        None \<Rightarrow> (v, False)
      | Some v' \<Rightarrow> (v', should_keep_alive (req_version request) (req_headers request)))"

text \<open>A round with a request; the answer says whether the loop goes on.\<close>

definition serve_request ::
  "('r, 'w, 'a) http_context \<Rightarrow> http_request \<Rightarrow> http_body_phase \<Rightarrow> ('r, 'w, 'a) http_service \<Rightarrow> ('r, 'w, 'a) http_service \<times> bool" where
  "serve_request c request phase v =
     (case claim_body phase v of
        None \<Rightarrow> (v, False)
      | Some (v1, body) \<Rightarrow>
          (case answer_request c request body v1 of
             (v2, Break) \<Rightarrow> (v2, False)
           | (v2, Continue) \<Rightarrow> (v2, True)
           | (v2, Settle) \<Rightarrow> settle_round c request v2))"

definition serve_next :: "('r, 'w, 'a) http_context \<Rightarrow> nat \<Rightarrow> ('r, 'w, 'a) http_service \<Rightarrow> ('r, 'w, 'a) http_service \<times> bool" where
  "serve_next c initial_version v =
     (case next_request c initial_version v of
        (v1, None) \<Rightarrow> (v1, False)
      | (v1, Some (request, phase)) \<Rightarrow> serve_request c request phase v1)"

text \<open>At most \<open>n\<close> further rounds; the answer says whether the loop has ended.\<close>

fun serve_loop :: "nat \<Rightarrow> ('r, 'w, 'a) http_context \<Rightarrow> nat \<Rightarrow> ('r, 'w, 'a) http_service \<Rightarrow> ('r, 'w, 'a) http_service \<times> bool" where
  "serve_loop 0 c initial_version v = (v, False)"
| "serve_loop (Suc n) c initial_version v =
     (case serve_next c initial_version v of
        (v', False) \<Rightarrow> (v', True)
      | (v', True) \<Rightarrow> serve_loop n c initial_version v')"

text \<open>The connection after the handshake: the reading half starts with what was prefetched, the first
  request is at hand.\<close>

definition service_start :: "'r \<Rightarrow> 'w \<Rightarrow> 'a \<Rightarrow> ('r, 'w, 'a) http_service" where
  "service_start s w a =
     \<lparr>service_reader = Some (buf_reader_new s), pending_reclaim = None, service_writer = w, service_app = a, handed = []\<rparr>"

definition serve_http_connection ::
  "nat \<Rightarrow> ('r io_stream, 'w, 'a) http_context \<Rightarrow> http_handshake \<Rightarrow> 'r io_stream \<Rightarrow> 'w \<Rightarrow> 'a \<Rightarrow> ('r io_stream, 'w, 'a) http_service \<times> bool" where
  "serve_http_connection n c h s w a =
     (case serve_request c (hs_request h) (hs_body h) (service_start (buffer_front (prefetched h) s) w a) of
        (v, False) \<Rightarrow> (v, True)
      | (v, True) \<Rightarrow> serve_loop n c (req_version (hs_request h)) v)"

section \<open>Only permitted requests reach the application\<close>

text \<open>A request that its route and the requirements of its route admit.\<close>

definition admitted :: "unicode \<Rightarrow> endpoint_runtime \<Rightarrow> http_request_summary \<Rightarrow> bool" where
  "admitted u e sm =
     (let method = to_uppercase u (sum_method sm); auth = res_auth (sum_route sm) in
      match_http_route u e (sum_path sm) (sum_query sm) method (sum_protocol sm) = Resolved (sum_route sm)
      \<and> (require_mtls auth \<longrightarrow> (\<exists>ca. client_auth e = Some ca \<and> auth_mode ca = Auth_Required))
      \<and> (require_tls auth \<longrightarrow> tls e \<noteq> Tls_Disabled)
      \<and> (require_bearer auth \<longrightarrow> has_bearer_header_string (sum_headers sm)
           \<or> allow_unauthenticated_cors_preflight auth \<and> is_cors_preflight_string method (sum_headers sm)))"

lemma evaluate_None:
  "evaluate_http_transport_auth_string_headers auth e method headers = None \<longleftrightarrow>
     (require_mtls auth \<longrightarrow> (\<exists>ca. client_auth e = Some ca \<and> auth_mode ca = Auth_Required))
     \<and> (require_tls auth \<longrightarrow> tls e \<noteq> Tls_Disabled)
     \<and> (require_bearer auth \<longrightarrow> has_bearer_header_string headers
          \<or> allow_unauthenticated_cors_preflight auth \<and> is_cors_preflight_string method headers)"
  by (auto simp: evaluate_http_transport_auth_string_headers_def Let_def)

lemma simple_keeps:
  assumes "simple c version status keep_alive body extra v = (v', ok)"
  shows "handed v' = handed v \<and> service_reader v' = service_reader v \<and> pending_reclaim v' = pending_reclaim v"
  using assms by (auto simp: simple_def split: prod.splits)

lemma simple_keeps_fst [simp]:
  "handed (fst (simple c version status keep_alive body extra v)) = handed v"
  "service_reader (fst (simple c version status keep_alive body extra v)) = service_reader v"
  "pending_reclaim (fst (simple c version status keep_alive body extra v)) = pending_reclaim v"
  using simple_keeps [OF surjective_pairing] by blast+

lemma settled_fst [simp]: "fst (settled x) = fst x"
  by (simp add: settled_def split: prod.splits)

text \<open>What answering a request leaves alone, and what it adds to the log.\<close>

lemma reject_keeps:
  "handed (fst (reject_unauthorised c request k failure v)) = handed v"
  "service_reader (fst (reject_unauthorised c request k failure v)) = service_reader v"
  "pending_reclaim (fst (reject_unauthorised c request k failure v)) = pending_reclaim v"
  by (cases failure; simp add: reject_unauthorised_def split_def)+

lemma hand_over_keeps:
  "handed (fst (hand_over c request k sm v)) = handed v @ [sm]"
  "service_reader (fst (hand_over c request k sm v)) = service_reader v"
  "pending_reclaim (fst (hand_over c request k sm v)) = pending_reclaim v"
  by (auto simp: hand_over_def Let_def split: prod.splits app_answer.splits)

lemma answer_keeps:
  "service_reader (fst (answer_request c request body v)) = service_reader v"
  "pending_reclaim (fst (answer_request c request body v)) = pending_reclaim v"
  by (simp_all add: answer_request_def Let_def reject_keeps hand_over_keeps split: http_route_match.splits option.splits)

lemma answer_handed:
  assumes "\<forall>sm \<in> set (handed v). admitted (ctx_tables c) (ctx_endpoint c) sm"
  shows "\<forall>sm \<in> set (handed (fst (answer_request c request body v))). admitted (ctx_tables c) (ctx_endpoint c) sm"
proof -
  have "admitted (ctx_tables c) (ctx_endpoint c) (summary_of request body resolution)"
    if "match_http_route (ctx_tables c) (ctx_endpoint c) (request_path request) (request_query request)
          (to_uppercase (ctx_tables c) (req_method request)) (protocol_label request) = Resolved resolution"
      "evaluate_http_transport_auth_string_headers (res_auth resolution) (ctx_endpoint c)
          (to_uppercase (ctx_tables c) (req_method request)) (req_headers request) = None" for resolution
    using that by (simp add: admitted_def summary_of_def evaluate_None Let_def)
  with assms show ?thesis
    by (simp add: answer_request_def Let_def reject_keeps hand_over_keeps split: http_route_match.splits option.splits)
qed

lemma reclaim_keeps: "reclaim_reader c v = Some v' \<Longrightarrow> handed v' = handed v"
  by (auto simp: reclaim_reader_def split: option.splits prod.splits bool.splits)

lemma claim_keeps: "claim_body phase v = Some (v', body) \<Longrightarrow> handed v' = handed v"
  by (auto simp: claim_body_def split: http_body_phase.splits option.splits)

lemma serve_request_handed:
  assumes "\<forall>sm \<in> set (handed v). admitted (ctx_tables c) (ctx_endpoint c) sm" "serve_request c request phase v = (v', go)"
  shows "\<forall>sm \<in> set (handed v'). admitted (ctx_tables c) (ctx_endpoint c) sm"
proof (cases "claim_body phase v")
  case None
  with assms show ?thesis by (simp add: serve_request_def)
next
  case (Some x)
  then obtain v1 body where x: "claim_body phase v = Some (v1, body)" by (metis surj_pair)
  obtain v2 r where a: "answer_request c request body v1 = (v2, r)" by fastforce
  have "\<forall>sm \<in> set (handed v1). admitted (ctx_tables c) (ctx_endpoint c) sm" using assms(1) claim_keeps [OF x] by simp
  from answer_handed [OF this, of request body] a have "\<forall>sm \<in> set (handed v2). admitted (ctx_tables c) (ctx_endpoint c) sm" by simp
  moreover have "handed v' = handed v2"
    using assms(2) x a by (cases r) (auto simp: serve_request_def settle_round_def dest: reclaim_keeps split: option.splits)
  ultimately show ?thesis by simp
qed

lemma next_request_handed: "next_request c iv v = (v', x) \<Longrightarrow> handed v' = handed v"
  by (auto simp: next_request_def dest: reclaim_keeps split: option.splits prod.splits sum.splits negotiation_error.splits)

lemma serve_loop_handed:
  "\<forall>sm \<in> set (handed v). admitted (ctx_tables c) (ctx_endpoint c) sm \<Longrightarrow> serve_loop n c iv v = (v', d) \<Longrightarrow>
   \<forall>sm \<in> set (handed v'). admitted (ctx_tables c) (ctx_endpoint c) sm"
proof (induction n arbitrary: v)
  case (Suc n)
  obtain v1 go where s: "serve_next c iv v = (v1, go)" by fastforce
  obtain v0 x where x: "next_request c iv v = (v0, x)" by fastforce
  have "\<forall>sm \<in> set (handed v0). admitted (ctx_tables c) (ctx_endpoint c) sm" using Suc.prems(1) next_request_handed [OF x] by simp
  then have "\<forall>sm \<in> set (handed v1). admitted (ctx_tables c) (ctx_endpoint c) sm"
    using s x serve_request_handed by (cases x) (fastforce simp: serve_next_def)+
  with Suc s show ?case by (cases go) auto
qed simp

text \<open>C4: Only permitted requests reach the application. Whatever bytes a client sends on an HTTP/1
  connection, and however the application answers, every request it is given was resolved by the
  routes of the endpoint for its path, query, method and protocol, and satisfies what that
  route requires: a listener that demands client certificates, TLS, and a non-empty bearer token,
  which only a complete CORS preflight may omit and only where the route allows it.\<close>

theorem http_service_guarded:
  assumes "serve_http_connection n c h s w a = (v, ended)"
  shows "\<forall>sm \<in> set (handed v). admitted (ctx_tables c) (ctx_endpoint c) sm"
proof -
  obtain v1 go where r: "serve_request c (hs_request h) (hs_body h) (service_start (buffer_front (prefetched h) s) w a) = (v1, go)" by fastforce
  have start: "\<forall>sm \<in> set (handed (service_start (buffer_front (prefetched h) s) w a)). admitted (ctx_tables c) (ctx_endpoint c) sm"
    by (simp add: service_start_def)
  note first = serve_request_handed [OF start r]
  with assms r serve_loop_handed [OF first] show ?thesis by (cases go) (auto simp: serve_http_connection_def)
qed

section \<open>The loop ends\<close>

text \<open>The bytes that have not been read yet.\<close>

definition unread :: "('r \<Rightarrow> byte list) \<Rightarrow> ('r, 'w, 'a) http_service \<Rightarrow> byte list" where
  "unread rest v =
     (case service_reader v of
        Some r \<Rightarrow> br_buffer r @ rest (br_inner r)
      | None \<Rightarrow> (case pending_reclaim v of Some (n, s) \<Rightarrow> rest s | None \<Rightarrow> []))"

lemma unread_cong: "service_reader v' = service_reader v \<Longrightarrow> pending_reclaim v' = pending_reclaim v \<Longrightarrow> unread rest v' = unread rest v"
  by (simp add: unread_def split: option.split)

context byte_source
begin

lemma reclaim_unread:
  assumes "reclaim_reader c v = Some v'" "ctx_pull c = pull"
  shows "length (unread rest v') \<le> length (unread rest v) \<and> (\<exists>r. service_reader v' = Some r)"
proof (cases "service_reader v")
  case (Some r)
  with assms show ?thesis by (simp add: reclaim_reader_def)
next
  case None
  with assms obtain n s s' where d: "pending_reclaim v = Some (n, s)" "drain_body pull n s = (s', True)"
      "v' = v\<lparr>service_reader := Some (buf_reader_new s'), pending_reclaim := None\<rparr>"
    by (auto simp: reclaim_reader_def split: option.splits prod.splits bool.splits)
  from d(2) drain_body_short [of s n] drain_body_enough [of n s] have "rest s' = drop n (rest s)" by (cases "n \<le> length (rest s)") auto
  with d None show ?thesis by (simp add: unread_def buf_reader_new_def)
qed

lemma claim_unread: "claim_body phase v = Some (v', body) \<Longrightarrow> length (unread rest v') \<le> length (unread rest v)"
  by (auto simp: claim_body_def unread_def split: http_body_phase.splits option.splits)

lemma serve_request_unread:
  assumes "serve_request c request phase v = (v', True)" "ctx_pull c = pull"
  shows "length (unread rest v') \<le> length (unread rest v)"
proof -
  from assms(1) obtain v1 body where x: "claim_body phase v = Some (v1, body)" by (auto simp: serve_request_def split: option.splits)
  obtain v2 r where a: "answer_request c request body v1 = (v2, r)" by fastforce
  with answer_keeps [of c request body v1] have "unread rest v2 = unread rest v1" by (intro unread_cong) simp_all
  moreover have "length (unread rest v') \<le> length (unread rest v2)"
    using assms x a reclaim_unread [of c v2] by (cases r) (auto simp: serve_request_def settle_round_def split: option.splits)
  ultimately show ?thesis using claim_unread [OF x] by simp
qed

lemma next_request_unread:
  assumes "next_request c iv v = (v', Some x)" "ctx_pull c = pull"
  shows "length (unread rest v') < length (unread rest v)"
proof -
  from assms(1) obtain v1 where v1: "reclaim_reader c v = Some v1" by (auto simp: next_request_def split: option.splits)
  from reclaim_unread [OF this assms(2)] obtain r where r: "service_reader v1 = Some r" "length (unread rest v1) \<le> length (unread rest v)" by blast
  obtain request phase where xp: "x = (request, phase)" by fastforce
  from assms(1) v1 r(1) obtain r' where
    read: "read_http_request (ctx_httparse c) 8192 pull (ctx_endpoint c) r = (r', Inr (Some (request, phase)))" "v' = v1\<lparr>service_reader := Some r'\<rparr>"
    using assms(2) xp by (auto simp: next_request_def split: prod.splits sum.splits negotiation_error.splits option.splits)
  from request_read [OF _ read(1) [unfolded read_http_request_def]] obtain head where
    "coming r = head @ phase_bytes phase @ coming r'" "4 \<le> length head" by auto
  then have "length (coming r') < length (coming r)" by auto
  with r read(2) show ?thesis by (simp add: unread_def coming_def)
qed

lemma serve_loop_ends:
  "ctx_pull c = pull \<Longrightarrow> length (unread rest v) < n \<Longrightarrow> \<exists>v'. serve_loop n c iv v = (v', True)"
proof (induction n arbitrary: v)
  case (Suc n)
  obtain v1 go where s: "serve_next c iv v = (v1, go)" by fastforce
  show ?case
  proof (cases go)
    case True
    with s obtain v0 request phase where x: "next_request c iv v = (v0, Some (request, phase))" "serve_request c request phase v0 = (v1, True)"
      by (auto simp: serve_next_def split: prod.splits option.splits)
    from next_request_unread [OF x(1) Suc.prems(1)] serve_request_unread [OF x(2) Suc.prems(1)] Suc.prems(2)
    have "length (unread rest v1) < n" by simp
    from Suc.IH [OF Suc.prems(1) this] s True show ?thesis by simp
  next
    case False
    with s show ?thesis by simp
  qed
qed simp

end

text \<open>C33: Serving a connection ends. Once the bytes that a client sends are finite, the loop ends: every round
  that goes on has read at least the four bytes that end a head, so more rounds than there are
  bytes left are never needed, whatever the application answers.\<close>

theorem http_service_ends:
  assumes "byte_source pull rest" and "ctx_pull c = poll_read pull"
    and "length (prefetched h @ pending rest s) < n"
  shows "\<exists>v. serve_http_connection n c h s w a = (v, True)"
proof -
  have b: "byte_source (poll_read pull) (pending rest)"
    using transport.stream_source assms(1) by (simp add: transport_def)
  let ?start = "service_start (buffer_front (prefetched h) s) w a"
  obtain v1 go where r: "serve_request c (hs_request h) (hs_body h) ?start = (v1, go)" by fastforce
  show ?thesis
  proof (cases go)
    case True
    have "unread (pending rest) ?start = prefetched h @ pending rest s" by (simp add: unread_def service_start_def buf_reader_new_def)
    moreover have "serve_request c (hs_request h) (hs_body h) ?start = (v1, True)" using r True by simp
    note byte_source.serve_request_unread [OF b this assms(2)]
    ultimately have "length (unread (pending rest) v1) < n" using assms(3) by simp
    from byte_source.serve_loop_ends [OF b assms(2) this] r True show ?thesis by (simp add: serve_http_connection_def)
  next
    case False
    with r show ?thesis by (simp add: serve_http_connection_def)
  qed
qed

section \<open>The next request is read where the last one ended\<close>

context byte_source
begin

lemma reclaim_after:
  assumes "ctx_pull c = pull" "claim_body phase v = Some (v1, b)" "service_reader v = Some r" "body_delivered body tail phase (br_buffer r) (coming r)"
    and "service_reader v2 = service_reader v1" "pending_reclaim v2 = pending_reclaim v1"
  shows "\<exists>v3 r3. reclaim_reader c v2 = Some v3 \<and> service_reader v3 = Some r3 \<and> coming r3 = tail"
proof (cases phase)
  case (Needs_Streaming prefix n)
  with assms(4) have d: "br_buffer r = []" "n = length body - length prefix" "0 < n" "prefix @ coming r = body @ tail"
    by (auto simp: body_delivered_def)
  have rest: "coming r = rest (br_inner r)" using d(1) by (simp add: coming_def)
  have "length prefix + n = length body" using d(2,3) by simp
  then have "n \<le> length (coming r)" "drop n (coming r) = tail"
    using arg_cong [OF d(4), of length] arg_cong [OF d(4), of "drop (length prefix + n)"] by (simp_all add: d(2))
  with drain_body_enough [of n "br_inner r"] rest obtain s' where s': "drain_body pull n (br_inner r) = (s', True)" "rest s' = tail" by auto
  have "service_reader v2 = None" "pending_reclaim v2 = Some (n, br_inner r)" using Needs_Streaming assms(2,3,5,6) by (auto simp: claim_body_def)
  with s' assms(1) show ?thesis by (simp add: reclaim_reader_def buf_reader_new_def coming_def)
qed (use assms in \<open>auto simp: body_delivered_def claim_body_def reclaim_reader_def\<close>)

lemma round_delimited:
  assumes "ctx_pull c = pull" "service_reader v = Some r"
    and head: "find_header_terminator head = Some (length head - 4)" "4 \<le> length head" "length head \<le> MAX_HTTP_HEADER_BYTES"
    and parsed: "parse_http_request (ctx_httparse c) head = Inr (request, cl)"
    and body: "length body = (case cl of Some n \<Rightarrow> n | None \<Rightarrow> 0)" "length body \<le> body_limit (ctx_endpoint c)" "length body \<le> usize_max"
    and wire: "coming r = head @ body @ tail"
    and go: "serve_next c iv v = (v', True)"
  shows "\<exists>v'' r''. reclaim_reader c v' = Some v'' \<and> service_reader v'' = Some r'' \<and> coming r'' = tail"
proof -
  obtain r1 phase where r1: "read_http_request (ctx_httparse c) 8192 pull (ctx_endpoint c) r = (r1, Inr (Some (request, phase)))"
      "body_delivered body tail phase (br_buffer r1) (coming r1)"
    using request_delimited [OF _ head parsed body wire, of 8192 True HTTP1_INLINE_BODY_LIMIT] by (auto simp: read_http_request_def)
  let ?v = "v\<lparr>service_reader := Some r1\<rparr>"
  have "next_request c iv v = (?v, Some (request, phase))" using assms(1,2) r1(1) by (simp add: next_request_def reclaim_reader_def)
  with go have s: "serve_request c request phase ?v = (v', True)" by (simp add: serve_next_def)
  then obtain v1 b where cl: "claim_body phase ?v = Some (v1, b)" by (auto simp: serve_request_def split: option.splits)
  obtain v2 e where a: "answer_request c request b v1 = (v2, e)" by fastforce
  from answer_keeps [of c request b v1] a have "service_reader v2 = service_reader v1" "pending_reclaim v2 = pending_reclaim v1" by simp_all
  from reclaim_after [OF assms(1) cl _ r1(2) this] obtain v3 r3 where
    3: "reclaim_reader c v2 = Some v3" "service_reader v3 = Some r3" "coming r3 = tail" by auto
  from s cl a 3(1) consider "v' = v2" | "v' = v3" by (cases e) (auto simp: serve_request_def settle_round_def)
  then show ?thesis using 3 by cases (auto simp: reclaim_reader_def)
qed

end

text \<open>C10: Pipelined requests can not be confused. When an accepted head is followed by the body it announces,
  then after a round that keeps the connection the next request is read from the first byte after
  that body, whether the body was at hand or streamed, whether the application read it, and
  whether the request was answered by the application or refused.\<close>

theorem http_round_delimited:
  assumes "byte_source pull rest" and "ctx_pull c = pull" and "service_reader v = Some r"
    and "find_header_terminator head = Some (length head - 4)" "4 \<le> length head" "length head \<le> MAX_HTTP_HEADER_BYTES"
    and "parse_http_request (ctx_httparse c) head = Inr (request, cl)"
    and "length body = (case cl of Some n \<Rightarrow> n | None \<Rightarrow> 0)" "length body \<le> body_limit (ctx_endpoint c)" "length body \<le> usize_max"
    and "br_buffer r @ rest (br_inner r) = head @ body @ tail"
    and "serve_next c iv v = (v', True)"
  shows "\<exists>v'' r''. reclaim_reader c v' = Some v'' \<and> service_reader v'' = Some r'' \<and> br_buffer r'' @ rest (br_inner r'') = tail"
  using byte_source.round_delimited [OF assms(1-10) _ assms(12)] assms(11) by (simp add: byte_source.coming_def [OF assms(1)])

section \<open>Refused requests and closed connections\<close>

text \<open>A sink that takes everything.\<close>

definition keep_flush :: "wire \<Rightarrow> wire \<times> stream_error option" where "keep_flush w = (w, None)"

definition takes_all :: "('r, wire, 'a) http_context \<Rightarrow> bool" where
  "takes_all c = (ctx_push c = wire_push \<and> ctx_flush c = keep_flush)"

lemma shared_takes_all: "snd (write_http_response_shared wire_push keep_flush version status headers body w) = None"
  by (simp add: write_http_response_shared_def write_http_response_inner_def wire_push_def keep_flush_def)

lemma simple_takes_all: "takes_all c \<Longrightarrow> snd (simple c version status keep_alive body extra v)"
  by (simp add: simple_def send_http_simple_response_def takes_all_def split_def shared_takes_all)

lemma reject_takes_all: "takes_all c \<Longrightarrow> snd (reject_unauthorised c request keep_alive failure v) = Continue"
  by (cases failure) (simp_all add: reject_unauthorised_def split_def simple_takes_all)

text \<open>A request that is refused for its transport is answered, and the round starts over without asking
  whether the connection is to stay open: a client that asked for the connection to be closed,
  and is told so in the answer, still has its next request served.\<close>

theorem refused_request_keeps_connection:
  assumes "takes_all c"
    and "match_http_route (ctx_tables c) (ctx_endpoint c) (request_path request) (request_query request)
      (to_uppercase (ctx_tables c) (req_method request)) (protocol_label request) = Resolved resolution"
    and "evaluate_http_transport_auth_string_headers (res_auth resolution) (ctx_endpoint c)
      (to_uppercase (ctx_tables c) (req_method request)) (req_headers request) = Some failure"
    and "\<not> should_keep_alive (req_version request) (req_headers request)"
  shows "\<exists>v'. serve_request c request (Buffered body) v = (v', True)"
proof -
  obtain v' where "reject_unauthorised c request False failure v = (v', Continue)"
    using reject_takes_all [OF assms(1)] by (metis prod.collapse)
  with assms(2-) show ?thesis by (simp add: serve_request_def claim_body_def answer_request_def Let_def)
qed

section \<open>Concrete connections\<close>

definition demo_answer :: "http_request_summary \<Rightarrow> unit \<Rightarrow> unit \<times> app_answer" where
  "demo_answer sm a = ((), Dispatched \<lparr>dispatch_status = 200, dispatch_headers = [], dispatch_body = Response_Buffered (ascii ''ok'')\<rparr>)"

definition demo_context :: "'r source \<Rightarrow> endpoint_runtime \<Rightarrow> ('r, wire, unit) http_context" where
  "demo_context pull e =
     \<lparr>ctx_tables = ascii_tables, ctx_httparse = demo_httparse, ctx_reasons = (\<lambda>_. None), ctx_pull = pull,
      ctx_push = wire_push, ctx_flush = keep_flush, ctx_app = demo_answer, ctx_endpoint = e\<rparr>"

definition demo_get :: http_handshake where
  "demo_get = \<lparr>hs_request = \<lparr>req_method = ascii ''GET'', req_target = demo_path, req_version = 1, req_headers = []\<rparr>,
     hs_body = Buffered [], prefetched = []\<rparr>"

lemma demo_context_simps [simp]:
  "ctx_tables (demo_context pull e) = ascii_tables" "ctx_httparse (demo_context pull e) = demo_httparse"
  "ctx_pull (demo_context pull e) = pull" "ctx_app (demo_context pull e) = demo_answer"
  "ctx_endpoint (demo_context pull e) = e" "takes_all (demo_context pull e)"
  "ctx_push (demo_context pull e) = wire_push" "ctx_flush (demo_context pull e) = keep_flush"
  by (simp_all add: demo_context_def takes_all_def)

lemma demo_hand_over: "\<exists>v'. hand_over (demo_context pull e) request k sm v = (v', Settle)"
  by (simp add: hand_over_def demo_answer_def send_http_dispatch_def settled_def Let_def split_def shared_takes_all)

lemma demo_answered: "\<exists>v' r. answer_request (demo_context pull e) request body v = (v', r) \<and> r \<noteq> Break"
proof -
  have h: "\<exists>v' r. hand_over (demo_context pull e) request k sm v = (v', r) \<and> r \<noteq> Break" for k sm using demo_hand_over by blast
  have j: "\<exists>v' r. reject_unauthorised (demo_context pull e) request k f v = (v', r) \<and> r \<noteq> Break" for k f
    using reject_takes_all [of "demo_context pull e" request k f v] by (cases "reject_unauthorised (demo_context pull e) request k f v") simp
  have q: "\<exists>v' r. settled (simple (demo_context pull e) version status k b extra v) = (v', r) \<and> r \<noteq> Break" for version status k b extra
    using simple_takes_all [of "demo_context pull e" version status k b extra v] by (simp add: settled_def split_def)
  show ?thesis unfolding answer_request_def Let_def using h j q by (simp split: http_route_match.splits option.splits)
qed

theorem http_service_ends_witness:
  "\<exists>e v. try_from_endpoint ascii_tables demo_endpoint = Inr e
    \<and> serve_http_connection 20 (demo_context (poll_read wire_pull) e) demo_get (plain demo_mqtt_wire) demo_mqtt_wire () = (v, True)"
proof -
  obtain e where e: "try_from_endpoint ascii_tables demo_endpoint = Inr e" using demo_endpoint_accepted by blast
  have "length (prefetched demo_get @ pending wire_rest (plain demo_mqtt_wire)) < 20"
    unfolding demo_mqtt_pending by (simp add: demo_get_def demo_connect_def mqtt_name_def ascii_def)
  with http_service_ends [OF wire.byte_source_axioms, of "demo_context (poll_read wire_pull) e"] e show ?thesis by simp
qed

lemma demo_target: "request_path (hs_request demo_get) = demo_path" "request_query (hs_request demo_get) = None"
    "protocol_label (hs_request demo_get) = ascii ''http/1.1''"
  by (simp_all add: request_path_def request_query_def split_http_target_def protocol_label_def demo_get_def demo_path_def decimal.simps Let_def)
     (simp_all add: ascii_def)

theorem http_service_guarded_witness:
  "\<exists>e v sm. try_from_endpoint ascii_tables demo_endpoint = Inr e
    \<and> serve_http_connection 0 (demo_context (poll_read wire_pull) e) demo_get (plain demo_mqtt_wire) demo_mqtt_wire () = (v, False)
    \<and> handed v = [sm] \<and> admitted ascii_tables e sm \<and> procedure (sum_route sm) = ascii ''app.users.__.7''"
proof -
  obtain e where e: "try_from_endpoint ascii_tables demo_endpoint = Inr e" using demo_endpoint_accepted by blast
  let ?c = "demo_context (poll_read wire_pull) e" and ?r = "hs_request demo_get"
  let ?res = "\<lparr>realm = ascii ''realm1'', procedure = ascii ''app.users.__.7'', res_method = ascii ''GET'',
      res_protocol = ascii ''http/1.1'', res_path = demo_path, res_query = None, res_auth = no_auth\<rparr>"
  let ?sm = "summary_of ?r (Inline_Body []) ?res"
  let ?start = "service_start (plain demo_mqtt_wire) demo_mqtt_wire ()"
  have m: "req_method ?r = ascii ''GET''" "req_version ?r = 1" "req_headers ?r = []" "hs_body demo_get = Buffered []" "prefetched demo_get = []"
    by (simp_all add: demo_get_def)
  have auth: "evaluate_http_transport_auth_string_headers no_auth e (ascii ''GET'') [] = None" by (simp add: evaluate_None no_auth_def)
  obtain v' where v': "hand_over ?c ?r True ?sm ?start = (v', Settle)" using demo_hand_over by blast
  have keep: "should_keep_alive 1 []" by (simp add: should_keep_alive_def find_field_def)
  have "answer_request ?c ?r (Inline_Body []) ?start = (v', Settle)"
    using v' keep auth demo_match [OF e] by (simp add: answer_request_def demo_target m demo_upper Let_def)
  moreover have "reclaim_reader ?c v' = Some v'"
    using hand_over_keeps(2) [of ?c ?r True ?sm ?start] v' by (simp add: reclaim_reader_def service_start_def)
  ultimately have run: "serve_http_connection 0 ?c demo_get (plain demo_mqtt_wire) demo_mqtt_wire () = (v', False)"
    using keep by (simp add: serve_http_connection_def m buffer_front_def serve_request_def claim_body_def settle_round_def)
  have "handed v' = [?sm]" using hand_over_keeps(1) [of ?c ?r True ?sm ?start] v' by (simp add: service_start_def)
  with http_service_guarded [OF run] run e show ?thesis by (auto simp: summary_of_def)
qed

theorem http_round_delimited_witness:
  "\<exists>e v'. try_from_endpoint ascii_tables demo_endpoint = Inr e
    \<and> serve_next (demo_context wire_pull e) 1
        \<lparr>service_reader = Some demo_reader, pending_reclaim = None, service_writer = demo_mqtt_wire, service_app = (), handed = []\<rparr> = (v', True)
    \<and> (\<exists>v'' r''. reclaim_reader (demo_context wire_pull e) v' = Some v'' \<and> service_reader v'' = Some r''
         \<and> br_buffer r'' @ wire_rest (br_inner r'') = ascii ''GET'')"
proof -
  obtain e where e: "try_from_endpoint ascii_tables demo_endpoint = Inr e" using demo_endpoint_accepted by blast
  let ?c = "demo_context wire_pull e"
  let ?v = "\<lparr>service_reader = Some demo_reader, pending_reclaim = None, service_writer = demo_mqtt_wire, service_app = (), handed = []\<rparr>"
  have limit: "body_limit e = 4194304"
    using accepted_body_limit [OF e] by (simp add: body_limit_def demo_endpoint_def DEFAULT_HTTP_BODY_LIMIT_def)
  have wire: "br_buffer demo_reader @ wire_rest (br_inner demo_reader) = demo_head @ [0x68, 0x69] @ ascii ''GET''"
    by (simp add: demo_reader_def buf_reader_new_def wire_rest_def)
  have small: "length [0x68, 0x69 :: byte] = (case Some 2 of Some n \<Rightarrow> n | None \<Rightarrow> 0)" "length [0x68, 0x69 :: byte] \<le> body_limit e"
    "length [0x68, 0x69 :: byte] \<le> usize_max" by (simp_all add: limit usize_max_def)
  have parsed: "parse_http_request (ctx_httparse ?c) demo_head = Inr (demo_request, Some 2)" using demo_parsed by simp
  obtain r1 phase where r1: "read_http_request demo_httparse 8192 wire_pull e demo_reader = (r1, Inr (Some (demo_request, phase)))"
      "body_delivered [0x68, 0x69] (ascii ''GET'') phase (br_buffer r1) (wire.coming r1)"
    using wire.request_delimited [OF _ demo_head_ends demo_parsed small, of 8192 demo_reader "ascii ''GET''" True HTTP1_INLINE_BODY_LIMIT] wire
    by (auto simp: read_http_request_def wire.coming_def)
  let ?v1 = "?v\<lparr>service_reader := Some r1\<rparr>"
  obtain v2 b where claim: "claim_body phase ?v1 = Some (v2, b)" by (cases phase) (auto simp: claim_body_def)
  obtain v3 z where a: "answer_request ?c demo_request b v2 = (v3, z)" "z \<noteq> Break" using demo_answered by blast
  have kept: "service_reader v3 = service_reader v2" "pending_reclaim v3 = pending_reclaim v2" using answer_keeps [of ?c demo_request b v2] a by simp_all
  from wire.reclaim_after [where c = ?c, OF _ claim _ r1(2) kept] obtain v4 where "reclaim_reader ?c v3 = Some v4" by auto
  moreover have "should_keep_alive (req_version demo_request) (req_headers demo_request)"
    by (simp add: should_keep_alive_def find_field_def demo_request_def eq_ignore_ascii_case_def to_ascii_lowercase_def ascii_def ascii_simps)
  ultimately have "\<exists>v'. serve_request ?c demo_request phase ?v1 = (v', True)"
    using claim a by (cases z) (simp_all add: serve_request_def settle_round_def)
  then obtain v' where go: "serve_next ?c 1 ?v = (v', True)" using r1(1) by (auto simp: serve_next_def next_request_def reclaim_reader_def)
  from http_round_delimited [OF wire.byte_source_axioms _ _ demo_head_ends parsed _ _ _ wire go] small go e show ?thesis by simp
qed

end
