(* ===== verification/Websocket_Upgrade.thy ===== *)
theory Websocket_Upgrade
  imports Protocol_Negotiation Websocket_Frames
begin

text \<open>
  The opening handshake of WebSocket connections on both sides (\<^verbatim>\<open>ct_core/src/lib.rs\<close>): the request and
  the checks of the client, the answer of the server, and the loop that reads the head of the
  answer. SHA-1 and base64 are parameters. Errors keep their kind and their fixed text; what
  the code appends of the offending input is left out.
\<close>

section \<open>Constants and the accept value\<close>







section \<open>The server\<close>




section \<open>The request of the client\<close>




section \<open>The head of the answer\<close>



section \<open>The checks of the client\<close>

text \<open>\<open>split\<close> at every CR LF.\<close>

fun split_crlf :: "rstr \<Rightarrow> rstr list" where
  "split_crlf [] = [[]]"
| "split_crlf [a] = [[a]]"
| "split_crlf (a # b # s) =
     (if a = 0x0D \<and> b = 0x0A then [] # split_crlf s
      else case split_crlf (b # s) of l # ls \<Rightarrow> (a # l) # ls | [] \<Rightarrow> [[a]])"








section \<open>Text of the alphabets the handshake uses\<close>











section \<open>The answer, line by line\<close>

lemma split_crlf_not_Nil: "split_crlf s \<noteq> []"
  by (cases s rule: split_crlf.cases) (auto split: list.splits)

















section \<open>Both sides\<close>




section \<open>The server reads the request of the client\<close>














section \<open>Properties\<close>



end
