(* ===== verification/Spec2Isabelle.thy ===== *)
theory Spec2Isabelle
  imports Msgpack_Messages Wamp_Json Message_Handles External_Leases Owned_Buffers Rawsocket_Connection Rawsocket_Handshake Mqtt_Websocket Http_Service Websocket_Upgrade
begin

text \<open>
  Verification of the native transport of connectanum, a WAMP router and client whose
  transport is written in Rust (\<^verbatim>\<open>src/native/transport\<close>). The crate \<^verbatim>\<open>ct_core\<close> accepts and opens
  connections, frames and parses WAMP messages; the crate \<^verbatim>\<open>ct_ffi\<close> gives them to Dart as
  numeric handles. Bytes arrive on a stream, the reader task of a connection cuts them into
  frames and parses a message of each; messages of the application leave through the queue
  of the writer task, which frames them and settles a completion.

  \<^bold>\<open>Shared.\<close> \<open>Prelude\<close> has the outcome type of fallible code (a value, an error of the code or a
  panic), machine constants, and lemmas on lists, words and big-endian bytes. \<open>Wamp_Message\<close>
  has the data of \<^verbatim>\<open>wamp.rs\<close>: messages, payloads, parse errors, serializers, dynamic values.

  \<^bold>\<open>Parsing\<close> (\<^verbatim>\<open>ct_core/src/wamp.rs\<close>). \<open>Raw_Frame\<close> models a frame in one or several segments and
  the reader over segments: both agree with the concatenated bytes. \<open>Wamp_Value\<close> is the
  generic path from a dynamic value to a message; it inverts the WAMP layout of every
  message. \<open>Wamp_Msgpack\<close>, \<open>Msgpack_Grammar\<close> and \<open>Msgpack_Messages\<close> are the MessagePack path:
  the walk over one object agrees with the grammar of MessagePack, segmentation is
  invisible, payloads are verbatim parts of the frame, nothing panics. \<open>Wamp_Cbor\<close> is the CBOR
  path, which never decodes the payload: it returns what full decoding would. \<open>Wamp_Json\<close> is
  the JSON path over borrowed raw values. The serde libraries are a parameter (\<open>serde\<close>), with
  what the code relies on as hypotheses.

  \<^bold>\<open>Handles\<close> (\<^verbatim>\<open>ct_ffi/src/runtime\<close>). \<open>Handle_Store\<close> models the tables of numeric handles
  (\<^verbatim>\<open>resource_handles.rs\<close>, \<^verbatim>\<open>message_handles.rs\<close>) under any interleaving of callers;
  \<open>Message_Handles\<close> the narrow and wide message tables together (\<^verbatim>\<open>state.rs\<close>). \<open>External_Leases\<close>
  models loans of foreign memory with their quota and release queue (\<^verbatim>\<open>external_leases.rs\<close>) as
  operations and as a step relation; every count is exact in every reachable state.
  \<open>Owned_Buffers\<close> models outbound buffers (\<^verbatim>\<open>owned_buffers.rs\<close>) with their C entry points: frozen
  bytes never change and every view stays in bounds.

  \<^bold>\<open>Streams and RawSocket\<close> (\<^verbatim>\<open>io_stream.rs\<close>, \<^verbatim>\<open>lib.rs\<close>, \<^verbatim>\<open>rawsocket.rs\<close>). \<open>Io_Stream\<close> has the look-ahead
  buffer before a transport and exact reads; the locales \<open>byte_source\<close> and \<open>transport\<close> say what
  a transport promises, and a sublocale shows that the stream promises it again.
  \<open>Rawsocket_Frames\<close> is the frame header and the frame reader, \<open>Outbound_Frames\<close> the frames of
  the writer, late segments, file ranges by sendfile or by chunks, and the writer task over
  the locale \<open>byte_sink\<close>. \<open>Rawsocket_Connection\<close> has the reader task and both ends together,
  \<open>Rawsocket_Handshake\<close> the two sides of the handshake with the size upgrade and their agreement.

  \<^bold>\<open>WebSocket\<close> (\<^verbatim>\<open>lib.rs\<close>). \<open>Websocket_Frames\<close> has the header, masking through 128-bit words, the
  frame reader, close payloads and the assembly of fragments; \<open>Websocket_Writer\<close> the frame
  writers over the locale \<open>websocket_sink\<close>, with batched continuation frames and file ranges;
  \<open>Websocket_Connection\<close> the two tasks and both ends together, with what the outcomes of the writer
  say of the bytes on the transport, also when it fails; \<open>Websocket_Upgrade\<close> the opening
  handshake on both sides, which agree when each reads what the other one writes.

  \<^bold>\<open>Write receipts\<close> (\<^verbatim>\<open>write_completion.rs\<close>, \<^verbatim>\<open>write_receipts.rs\<close>, \<^verbatim>\<open>lib.rs\<close>). \<open>Write_Receipts\<close> models the
  completions of queued frames, the quota of receipts, tracked submission through the send
  queue and the C entry points: counts are exact in every interleaving of callers, and below
  in this theory a receipt that reads as written is traced to the bytes on the socket.

  \<^bold>\<open>MQTT\<close> (\<^verbatim>\<open>lib.rs\<close>). \<open>Mqtt_Bridge\<close> models the inbound queue with its wake-up flag, where the
  reader task, polls, the callback and the closing of the connection interleave, and the
  outbound queue with its permits, as step relations. \<open>Mqtt_Websocket\<close> is the reader of MQTT over
  WebSocket on the bytes of the connection, through its buffered reader: it hands on the
  concatenated payloads however they are framed and does not keep them from a waiting broker.
  Whether a pending read is late is its only input besides the bytes.

  \<^bold>\<open>Router configuration\<close> (\<^verbatim>\<open>config.rs\<close>). \<open>Rust_Text\<close> has Rust strings as UTF-8 bytes with the text
  operations the code uses; \<open>Ip_Address\<close> the parser of addresses; \<open>Router_Config\<close> the validation of
  endpoints: what it accepts is well formed. \<open>Http_Routes\<close> has the route table of HTTP: matching
  equals a declarative lookup and a request never leaves the prefix of its route. The Unicode
  case tables are a parameter.

  \<^bold>\<open>Negotiation and HTTP/1\<close> (\<^verbatim>\<open>protocol.rs\<close>, \<^verbatim>\<open>lib.rs\<close>). \<open>Http_Request\<close> reads the head and the body of a
  request and turns the result of the parser library, a parameter, into a request; \<open>Http_Response\<close>
  writes whole and chunked responses over the locale \<open>plain_writer\<close>. \<open>Protocol_Negotiation\<close>
  recognises RawSocket, MQTT, HTTP and WebSocket from the first bytes of a connection and
  negotiates each; the session reads every byte that is its own. \<open>Http_Body\<close> is the streamed body, a
  task that reads and an application that takes slices, as one step relation; \<open>Http_Service\<close> the
  loop that serves the requests of a connection, with routing, transport requirements,
  answers and the recovery of the connection behind a body.

  \<^bold>\<open>Bounds and fuel.\<close> Loops with a decreasing measure are functions with a termination proof: the
  readers of heads count down to their size limit, those of bodies to the announced length. The
  recursion of the MessagePack walk takes a depth; the length of the frame is shown to be
  enough, and a theorem gives the depth that a frame can force. Reader tasks run until their
  connection ends, so they take the number of frames they may read, and the theorems name the
  number that is used up. The loop over HTTP requests takes a number of rounds; the number of
  bytes that are left is shown to be enough. Sizes are natural numbers where the code checks
  them against \<open>usize\<close> and words where it wraps or masks.

  \<^bold>\<open>Not modelled.\<close> HTTP/2 and HTTP/3, which are driven by their libraries; TLS and kernel TLS,
  where the code passes keys and buffers between a library and the kernel; listeners, sockets
  and the registry of the runtime; the flatbuffers codec, whose accessors are generated; the C
  entry points that only look up a handle and call what is modelled; the benchmarks and the Dart
  packages. Log output, metrics and the reuse of scratch memory have no effect on what is
  modelled and are left out.
\<close>

section \<open>From the C interface to the socket\<close>

text \<open>C5: A receipt is honest from the C interface down to the socket. When a writer task has run on
  the queue of a connection and the state of a receipt handle reads 1, then the frame it was given
  out for was in the queue and the socket has accepted all its bytes, in queue order; a receipt of
  a flush barrier with state 1 moreover says that everything queued before the barrier has been
  written completely or could not be framed at all. No receipt of a queued frame stays pending.\<close>

theorem receipt_written_means_sent:
  assumes sink: "byte_sink push flush zero_copy encode out"
    and run: "connection_writer encode push flush zero_copy e fs s = (s', os)"
    and cell: "g < length cells" "cells ! g = Pending"
    and receipt: "0 < sint h" "entries (handles st) h = Some (Some g)"
  shows "(ct_write_receipt_state h st (settle (zip fs os) cells) = 1 \<longrightarrow>
      (\<exists>i a b. i < length fs \<and> completion (fs ! i) = Some g
        \<and> out s' = out s @ a @ resolved_bytes encode (e > 24) (fs ! i) @ b
        \<and> (\<forall>j < i. os ! j = Written \<or> unframeable e (fs ! j))))
    \<and> ((\<exists>f \<in> set fs. completion f = Some g) \<longrightarrow> ct_write_receipt_state h st (settle (zip fs os) cells) \<noteq> 0)"
proof -
  note w = byte_sink.connection_writer_out [OF sink run]
  let ?cells = "settle (zip fs os) cells"
  have code: "ct_write_receipt_state h st ?cells = outcome_code (?cells ! g)"
    using receipt by (simp add: ct_write_receipt_state_def receipt_state_def receipt_outcome_def)
  have "\<exists>i a b. i < length fs \<and> completion (fs ! i) = Some g \<and> out s' = out s @ a @ resolved_bytes encode (e > 24) (fs ! i) @ b
      \<and> (\<forall>j < i. os ! j = Written \<or> unframeable e (fs ! j))" if "?cells ! g = Written"
  proof -
    from settle_written [OF that] cell(2) obtain f where f: "(f, Written) \<in> set (zip fs os)" "completion f = Some g" by fastforce
    then obtain i where i: "i < length fs" "i < length os" "fs ! i = f" "os ! i = Written" by (auto simp: set_zip)
    from written_bytes_member [OF f(1), of encode "e > 24"] w obtain a b where
      "out s' = out s @ a @ resolved_bytes encode (e > 24) (fs ! i) @ b" unfolding i(3) by fastforce
    with i f(2) writer_order [OF run i(2,4)] show ?thesis by blast
  qed
  moreover have "outcome_code v = 1 \<Longrightarrow> v = Written" "outcome_code v = 0 \<Longrightarrow> v = Pending" for v by (cases v; simp)+
  moreover have "?cells ! g \<noteq> Pending" if "\<exists>f \<in> set fs. completion f = Some g"
  proof -
    from that obtain i where "i < length fs" "completion (fs ! i) = Some g" by (auto simp: in_set_conv_nth)
    then have "\<exists>x \<in> set (zip fs os). completion (fst x) = Some g" using w by (auto simp: set_zip)
    from settle_settles [OF this cell(1)] show ?thesis .
  qed
  ultimately show ?thesis unfolding code by blast
qed

theorem receipt_written_means_sent_witness:
  "ct_write_receipt_state 1 ((new_store 1)\<lparr>handles := \<lparr>next_id = 2, entries = [1 \<mapsto> Some 7]\<rparr>\<rparr>)
      (settle (zip demo_frames [Written, Written]) (replicate 8 Pending)) = 1
   \<and> (\<exists>i a b. i < 2 \<and> completion (demo_frames ! i) = Some 7 \<and> demo_bytes = a @ resolved_bytes rfc4648 False (demo_frames ! i) @ b)"
proof -
  have state: "ct_write_receipt_state 1 ((new_store 1)\<lparr>handles := \<lparr>next_id = 2, entries = [1 \<mapsto> Some 7]\<rparr>\<rparr>)
      (settle (zip demo_frames [Written, Written]) (replicate 8 Pending)) = 1"
    by (simp add: ct_write_receipt_state_def receipt_state_def receipt_outcome_def demo_frames_def tracked_def
        message_segments_def control_def guard_written_def)
  from receipt_written_means_sent [OF pipe.byte_sink_axioms demo_written, of 7 "replicate 8 Pending" 1
      "(new_store 1)\<lparr>handles := \<lparr>next_id = 2, entries = [1 \<mapsto> Some 7]\<rparr>\<rparr>"] state
  show ?thesis by (simp add: demo_len) blast
qed

end
